(* ===== verification/PL_Prelude.thy ===== *)
theory PL_Prelude
  imports Main "HOL-Library.Word" "HOL-Library.Signed_Division"
begin

text \<open>
  Shared vocabulary of the development: machine bytes and C integers at their width, reading a
  zero-terminated C buffer, the interface of a byte codec (an encoder and a decoder that agree on
  every continuation of the input) and of a three-way comparison function, with the facts that
  every client of these interfaces uses.
\<close>

unbundle bit_operations_syntax

named_theorems buf_simps "reading C buffers"

section \<open>Machine integers and buffers\<close>

type_synonym byte = "8 word"
type_synonym cint = "32 word"
type_synonym int64 = "64 word"

text \<open>
  A \<^theory_text>\<open>char*\<close> into a zero-terminated buffer is the list of the bytes from the pointer on, without
  the terminator; reading the position just after the last byte gives the terminator.
\<close>

definition byte_at :: "byte list \<Rightarrow> nat \<Rightarrow> byte" where
  "byte_at s i = (if i < length s then s ! i else 0)"

lemma byte_at_Nil [simp, buf_simps]: "byte_at [] i = 0"
  by (simp add: byte_at_def)

lemma byte_at_0 [simp, buf_simps]: "byte_at (b # s) 0 = b"
  by (simp add: byte_at_def)

lemma byte_at_Suc [simp, buf_simps]: "byte_at (b # s) (Suc i) = byte_at s i"
  by (simp add: byte_at_def)

lemma byte_at_numeral [simp, buf_simps]:
  "byte_at (b # s) (numeral k) = byte_at s (pred_numeral k)"
  by (simp add: numeral_eq_Suc)

lemma byte_at_1 [simp, buf_simps]: "byte_at (b # s) 1 = byte_at s 0"
  by (simp add: byte_at_def)

section \<open>Bits of machine words\<close>

lemma bit_bound: "w < 2 ^ k \<Longrightarrow> bit (w::'a::len word) n \<Longrightarrow> n < k"
  by (metis bit_and_iff bit_mask_iff less_mask_eq)

lemma and_mask_take:
  "(w::'a::len word) AND 0x3f = take_bit 6 w" "w AND 0x1f = take_bit 5 w" "w AND 0xf = take_bit 4 w"
  "w AND 0x7 = take_bit 3 w" "w AND 0x3 = take_bit 2 w" "w AND 0x1 = take_bit 1 w"
  "w AND 0x7f = take_bit 7 w" "w AND 0xff = take_bit 8 w"
  by (simp_all add: take_bit_eq_mask mask_numeral)

text \<open>Adjacent bit fields join to a longer one.\<close>

lemma glue_bits:
  "push_bit k (take_bit m (drop_bit k (w::'a::len word))) OR take_bit k w = take_bit (m + k) w"
  by (rule bit_word_eqI) (auto simp: bit_simps)

lemma bit_mask_int:
  "bit (3::int) n \<longleftrightarrow> n < 2" "bit (7::int) n \<longleftrightarrow> n < 3" "bit (15::int) n \<longleftrightarrow> n < 4"
  "bit (31::int) n \<longleftrightarrow> n < 5" "bit (63::int) n \<longleftrightarrow> n < 6" "bit (127::int) n \<longleftrightarrow> n < 7"
  "bit (255::int) n \<longleftrightarrow> n < 8"
  using bit_mask_iff [where 'a = int, of 2 n] bit_mask_iff [where 'a = int, of 3 n]
    bit_mask_iff [where 'a = int, of 4 n] bit_mask_iff [where 'a = int, of 5 n]
    bit_mask_iff [where 'a = int, of 6 n] bit_mask_iff [where 'a = int, of 7 n]
    bit_mask_iff [where 'a = int, of 8 n]
  by (simp_all add: mask_eq_exp_minus_1)

lemma lead_eq_int:
  "(0x80::int) = push_bit 7 1" "(0xc0::int) = push_bit 6 (mask 2)" "(0xe0::int) = push_bit 5 (mask 3)"
  "(0xf0::int) = push_bit 4 (mask 4)" "(0xf8::int) = push_bit 3 (mask 5)"
  "(0xfc::int) = push_bit 2 (mask 6)" "(0xfe::int) = push_bit 1 (mask 7)"
  by (simp_all add: mask_eq_exp_minus_1 push_bit_eq_mult)

lemma bit_lead_int:
  "bit (0x80::int) n \<longleftrightarrow> n = 7"
  "bit (0xc0::int) n \<longleftrightarrow> 6 \<le> n \<and> n < 8" "bit (0xe0::int) n \<longleftrightarrow> 5 \<le> n \<and> n < 8"
  "bit (0xf0::int) n \<longleftrightarrow> 4 \<le> n \<and> n < 8" "bit (0xf8::int) n \<longleftrightarrow> 3 \<le> n \<and> n < 8"
  "bit (0xfc::int) n \<longleftrightarrow> 2 \<le> n \<and> n < 8" "bit (0xfe::int) n \<longleftrightarrow> 1 \<le> n \<and> n < 8"
  unfolding lead_eq_int by (simp_all only: bit_push_bit_iff bit_mask_iff bit_1_iff) auto

lemmas const_bits = bit_mask_int bit_lead_int

text \<open>Signed and unsigned readings agree on non-negative words.\<close>

lemma sint_nonneg: "0 \<le> sint (x::'a::len word) \<Longrightarrow> uint x = sint x"
  using uint_sint [of x] sint_lt [of x]
  by (metis (no_types, lifting) diff_le_self less_le_trans one_le_numeral power_increasing
      take_bit_int_eq_self)

lemma sless_nonneg: "0 \<le>s x \<Longrightarrow> 0 \<le>s y \<Longrightarrow> (x <s y) = (x < y)"
  by (simp add: word_sless_alt word_sle_eq word_less_def sint_nonneg)

section \<open>Signed C arithmetic\<close>

text \<open>
  C division and remainder of signed integers truncate towards zero; the quotient wraps in the one
  case that does not fit. The C shifts of a signed integer.
\<close>

definition c_div :: "'a::len word \<Rightarrow> 'a word \<Rightarrow> 'a word" where
  "c_div x y = word_of_int (sint x sdiv sint y)"

definition c_rem :: "'a::len word \<Rightarrow> 'a word \<Rightarrow> 'a word" where
  "c_rem x y = word_of_int (sint x smod sint y)"

lemma sint_range64: "- (2 ^ 63) \<le> sint (x::int64)" "sint (x::int64) < 2 ^ 63"
  using sint_greater_eq [of x] sint_lt [of x] by simp_all

lemma sint_of_int64: "- (2 ^ 63) \<le> i \<Longrightarrow> i < 2 ^ 63 \<Longrightarrow> sint (word_of_int i :: int64) = i"
  by (simp add: sint_sbintrunc' signed_take_bit_int_eq_self)

lemma sint_eq_0 [simp]: "sint (x::'a::len word) = 0 \<longleftrightarrow> x = 0"
  by (rule signed_eq_0_iff)

lemma smod_bound: "b \<noteq> 0 \<Longrightarrow> \<bar>a smod (b::int)\<bar> < \<bar>b\<bar>"
  by (simp add: signed_modulo_int_def abs_mult)

lemma int_div_bounds: "0 < q \<Longrightarrow> (m::int) div q * q \<le> m" "0 < q \<Longrightarrow> m < (m div q + 1) * q"
  unfolding distrib_right mult_1
  using div_mult_mod_eq [of m q] pos_mod_sign [of q m] pos_mod_bound [of q m] by linarith+

lemma int_div_less: "0 < q \<Longrightarrow> (m::int) < n * q \<Longrightarrow> m div q < n"
  using int_div_bounds(1) [of q m] mult_le_cancel_right [of n q "m div q"] by linarith

section \<open>Results with errors\<close>

text \<open>Sequencing of operations that fail with an error (\<^theory_text>\<open>Inl\<close>) or return a value (\<^theory_text>\<open>Inr\<close>).\<close>

definition sbind :: "'e + 'a \<Rightarrow> ('a \<Rightarrow> 'e + 'b) \<Rightarrow> 'e + 'b" where
  "sbind m k = (case m of Inl e \<Rightarrow> Inl e | Inr x \<Rightarrow> k x)"

lemma sbind_simps [simp]: "sbind (Inl e) k = Inl e" "sbind (Inr x) k = k x"
  by (simp_all add: sbind_def)

lemma sbind_assoc: "sbind (sbind m k) h = sbind m (\<lambda>x. sbind (k x) h)"
  by (cases m) simp_all

lemma sbind_Inr_iff: "sbind m k = Inr y \<longleftrightarrow> (\<exists>x. m = Inr x \<and> k x = Inr y)"
  by (cases m) simp_all

section \<open>Byte codecs\<close>

text \<open>Decoding a given number of items one after the other.\<close>

fun dec_many :: "(byte list \<Rightarrow> ('a \<times> byte list) option) \<Rightarrow> nat \<Rightarrow> byte list
    \<Rightarrow> ('a list \<times> byte list) option" where
  "dec_many dec 0 s = Some ([], s)"
| "dec_many dec (Suc n) s =
     (case dec s of
        None \<Rightarrow> None
      | Some (x, s') \<Rightarrow> (case dec_many dec n s' of
           None \<Rightarrow> None
         | Some (xs, s'') \<Rightarrow> Some (x # xs, s'')))"

text \<open>
  The contract of an encoder with its decoder: on the encoding of a valid item, whatever bytes
  follow it, the decoder returns the item and the remaining bytes. Clients use it for a sequence of
  items and for unambiguity.
\<close>

locale byte_codec =
  fixes enc :: "'a \<Rightarrow> byte list"
    and dec :: "byte list \<Rightarrow> ('a \<times> byte list) option"
    and valid :: "'a \<Rightarrow> bool"
  assumes dec_enc: "valid x \<Longrightarrow> dec (enc x @ rest) = Some (x, rest)"
begin

lemma enc_unambiguous:
  assumes "valid x" and "valid y" and "enc x @ r = enc y @ r'"
  shows "x = y \<and> r = r'"
  by (metis assms dec_enc option.inject prod.inject)

lemma enc_inj: "valid x \<Longrightarrow> valid y \<Longrightarrow> enc x = enc y \<Longrightarrow> x = y"
  using enc_unambiguous [of x y "[]" "[]"] by simp

lemma dec_many_enc:
  "list_all valid xs \<Longrightarrow>
   dec_many dec (length xs) (concat (map enc xs) @ rest) = Some (xs, rest)"
  by (induction xs) (simp_all add: dec_enc)

lemma concat_unambiguous:
  assumes "list_all valid xs" and "list_all valid ys" and "length xs = length ys"
    and "concat (map enc xs) @ r = concat (map enc ys) @ r'"
  shows "xs = ys \<and> r = r'"
  by (metis assms dec_many_enc option.inject prod.inject)

end

section \<open>Three-way comparison\<close>

text \<open>
  The contract of a C comparison function on the values of a domain: its sign is antisymmetric, the
  relation it defines is transitive. Totality follows.
\<close>

locale three_way =
  fixes cmp :: "'a \<Rightarrow> 'a \<Rightarrow> int"
    and dom :: "'a \<Rightarrow> bool"
  assumes cmp_flip: "dom x \<Longrightarrow> dom y \<Longrightarrow> cmp y x = - cmp x y"
    and cmp_trans: "dom x \<Longrightarrow> dom y \<Longrightarrow> dom z \<Longrightarrow> cmp x y \<le> 0 \<Longrightarrow> cmp y z \<le> 0 \<Longrightarrow> cmp x z \<le> 0"
begin

lemma cmp_refl: "dom x \<Longrightarrow> cmp x x = 0"
  using cmp_flip [of x x] by simp

lemma cmp_total: "dom x \<Longrightarrow> dom y \<Longrightarrow> cmp x y \<le> 0 \<or> cmp y x \<le> 0"
  using cmp_flip [of x y] by linarith

lemma cmp_trans_less:
  assumes d: "dom x" "dom y" "dom z" and xy: "cmp x y < 0" and yz: "cmp y z \<le> 0"
  shows "cmp x z < 0"
proof (rule ccontr)
  assume "\<not> cmp x z < 0"
  then have "cmp z x \<le> 0" using cmp_flip [of x z] d by simp
  with yz have "cmp y x \<le> 0" using cmp_trans [of y z x] d by simp
  with xy show False using cmp_flip [of x y] d by simp
qed

lemma cmp_trans_less':
  assumes d: "dom x" "dom y" "dom z" and xy: "cmp x y \<le> 0" and yz: "cmp y z < 0"
  shows "cmp x z < 0"
proof (rule ccontr)
  assume "\<not> cmp x z < 0"
  then have "cmp z x \<le> 0" using cmp_flip [of x z] d by simp
  with xy have "cmp z y \<le> 0" using cmp_trans [of z x y] d by simp
  with yz show False using cmp_flip [of y z] d by simp
qed

lemma cmp_eq_trans:
  assumes "dom x" "dom y" "dom z" and "cmp x y = 0" and "cmp y z = 0"
  shows "cmp x z = 0"
  using assms cmp_trans [of x y z] cmp_trans [of z y x] cmp_flip [of x y] cmp_flip [of y z]
    cmp_flip [of x z] by auto

end

section \<open>Stacks\<close>

text \<open>
  The contract of a stack whose push may fail for lack of memory: pushing and popping are those of the
  list of its contents.
\<close>

fun push_list :: "('s \<Rightarrow> 'a \<Rightarrow> 's option) \<Rightarrow> 'a list \<Rightarrow> 's \<Rightarrow> 's option" where
  "push_list push [] s = Some s"
| "push_list push (x # xs) s = (case push s x of None \<Rightarrow> None | Some s' \<Rightarrow> push_list push xs s')"

fun pop_list :: "('s \<Rightarrow> ('a \<times> 's) option) \<Rightarrow> nat \<Rightarrow> 's \<Rightarrow> ('a list \<times> 's) option" where
  "pop_list pop 0 s = Some ([], s)"
| "pop_list pop (Suc n) s =
     (case pop s of None \<Rightarrow> None
      | Some (x, s') \<Rightarrow>
          (case pop_list pop n s' of None \<Rightarrow> None | Some (xs, s'') \<Rightarrow> Some (x # xs, s'')))"

locale lifo =
  fixes ok :: "'s \<Rightarrow> bool"
    and contents :: "'s \<Rightarrow> 'a list"
    and push :: "'s \<Rightarrow> 'a \<Rightarrow> 's option"
    and pop :: "'s \<Rightarrow> ('a \<times> 's) option"
  assumes push_contents: "ok s \<Longrightarrow> push s x = Some s' \<Longrightarrow> ok s' \<and> contents s' = x # contents s"
    and pop_None: "ok s \<Longrightarrow> pop s = None \<longleftrightarrow> contents s = []"
    and pop_Some: "ok s \<Longrightarrow> pop s = Some (x, s') \<Longrightarrow> ok s' \<and> contents s = x # contents s'"
begin

lemma push_list_contents:
  "ok s \<Longrightarrow> push_list push xs s = Some s' \<Longrightarrow> ok s' \<and> contents s' = rev xs @ contents s"
proof (induction xs arbitrary: s)
  case (Cons x xs)
  then obtain t where t: "push s x = Some t" "push_list push xs t = Some s'" by (auto split: option.splits)
  then show ?case using push_contents [OF Cons.prems(1) t(1)] Cons.IH [of t] by simp
qed simp

lemma pop_list_contents:
  "ok s \<Longrightarrow> n \<le> length (contents s) \<Longrightarrow>
   \<exists>s'. pop_list pop n s = Some (take n (contents s), s') \<and> ok s' \<and> contents s' = drop n (contents s)"
proof (induction n arbitrary: s)
  case (Suc n)
  then have "pop s \<noteq> None" using pop_None by fastforce
  then obtain x t where t: "pop s = Some (x, t)" by auto
  from pop_Some [OF Suc.prems(1) this] have c: "ok t" "contents s = x # contents t" by simp_all
  then show ?case using Suc.IH [of t] Suc.prems(2) t by auto
qed simp

text \<open>What is pushed comes back in reverse order, and the stack is as before.\<close>

lemma push_list_pop_list:
  assumes "ok s" "push_list push xs s = Some s'"
  shows "\<exists>s''. pop_list pop (length xs) s' = Some (rev xs, s'') \<and> ok s'' \<and> contents s'' = contents s"
  using push_list_contents [OF assms] pop_list_contents [of s' "length xs"] by fastforce

end

end
