(* ===== verification/PL_Utf8.thy ===== *)
theory PL_Utf8
  imports PL_Prelude
begin

text \<open>
  The UTF-8 routines of os/pl-utf8.c and os/pl-utf8.h: the (one to six byte) encoder and decoder of
  code points, skipping, counting and comparing characters. A C \<^theory_text>\<open>int\<close> code point is a 32-bit word
  compared as signed, a \<^theory_text>\<open>char*\<close> is the list of bytes from the pointer on.
\<close>

section \<open>Decoding\<close>

definition ISUTF8_CB :: "byte \<Rightarrow> bool" where
  "ISUTF8_CB c \<longleftrightarrow> c AND 0xc0 = 0x80"

definition CONT :: "byte list \<Rightarrow> nat \<Rightarrow> bool" where
  "CONT s i \<longleftrightarrow> ISUTF8_CB (byte_at s i)"

definition VAL :: "byte list \<Rightarrow> nat \<Rightarrow> nat \<Rightarrow> cint" where
  "VAL s i k = push_bit k (ucast (byte_at s i) AND 0x3f)"

definition LEAD :: "byte list \<Rightarrow> cint \<Rightarrow> nat \<Rightarrow> cint" where
  "LEAD s m k = push_bit k (ucast (byte_at s 0) AND m)"

definition PL_utf8_get_char :: "byte list \<Rightarrow> cint \<times> byte list" where
  "PL_utf8_get_char s =
     (if byte_at s 0 AND 0xe0 = 0xc0 \<and> CONT s 1
      then (LEAD s 0x1f 6 OR VAL s 1 0, drop 2 s)
      else if byte_at s 0 AND 0xf0 = 0xe0 \<and> CONT s 1 \<and> CONT s 2
      then (LEAD s 0xf 12 OR VAL s 1 6 OR VAL s 2 0, drop 3 s)
      else if byte_at s 0 AND 0xf8 = 0xf0 \<and> CONT s 1 \<and> CONT s 2 \<and> CONT s 3
      then (LEAD s 0x7 18 OR VAL s 1 12 OR VAL s 2 6 OR VAL s 3 0, drop 4 s)
      else if byte_at s 0 AND 0xfc = 0xf8 \<and> CONT s 1 \<and> CONT s 2 \<and> CONT s 3 \<and> CONT s 4
      then (LEAD s 0x3 24 OR VAL s 1 18 OR VAL s 2 12 OR VAL s 3 6 OR VAL s 4 0, drop 5 s)
      else if byte_at s 0 AND 0xfe = 0xfc \<and> CONT s 1 \<and> CONT s 2 \<and> CONT s 3 \<and> CONT s 4 \<and> CONT s 5
      then (LEAD s 0x1 30 OR VAL s 1 24 OR VAL s 2 18 OR VAL s 3 12 OR VAL s 4 6 OR VAL s 5 0,
            drop 6 s)
      else (ucast (byte_at s 0) AND 0xff, drop 1 s))"

text \<open>The macro \<^theory_text>\<open>utf8_get_char\<close> takes ASCII bytes without the call.\<close>

definition utf8_get_char :: "byte list \<Rightarrow> cint \<times> byte list" where
  "utf8_get_char s =
     (if byte_at s 0 AND 0x80 \<noteq> 0 then PL_utf8_get_char s
      else (ucast (byte_at s 0), drop 1 s))"

section \<open>Encoding\<close>

definition PL_utf8_put_char :: "cint \<Rightarrow> byte list" where
  "PL_utf8_put_char chr =
     (if chr <s 0x80 then [ucast chr]
      else if chr <s 0x800 then
        [0xc0 OR ucast (drop_bit 6 chr AND 0x1f), 0x80 OR ucast (chr AND 0x3f)]
      else if chr <s 0x10000 then
        [0xe0 OR ucast (drop_bit 12 chr AND 0x0f), 0x80 OR ucast (drop_bit 6 chr AND 0x3f),
         0x80 OR ucast (chr AND 0x3f)]
      else if chr <s 0x200000 then
        [0xf0 OR ucast (drop_bit 18 chr AND 0x07), 0x80 OR ucast (drop_bit 12 chr AND 0x3f),
         0x80 OR ucast (drop_bit 6 chr AND 0x3f), 0x80 OR ucast (chr AND 0x3f)]
      else if chr <s 0x4000000 then
        [0xf8 OR ucast (drop_bit 24 chr AND 0x03), 0x80 OR ucast (drop_bit 18 chr AND 0x3f),
         0x80 OR ucast (drop_bit 12 chr AND 0x3f), 0x80 OR ucast (drop_bit 6 chr AND 0x3f),
         0x80 OR ucast (chr AND 0x3f)]
      else if chr < 0x80000000 then
        [0xfc OR ucast (drop_bit 30 chr AND 0x01), 0x80 OR ucast (drop_bit 24 chr AND 0x3f),
         0x80 OR ucast (drop_bit 18 chr AND 0x3f), 0x80 OR ucast (drop_bit 12 chr AND 0x3f),
         0x80 OR ucast (drop_bit 6 chr AND 0x3f), 0x80 OR ucast (chr AND 0x3f)]
      else [])"

definition utf8_put_char :: "cint \<Rightarrow> byte list" where
  "utf8_put_char chr = (if chr <s 0x80 then [ucast chr] else PL_utf8_put_char chr)"

definition utf8_code_bytes :: "cint \<Rightarrow> int" where
  "utf8_code_bytes chr =
     (if chr <s 0x80 then 1 else if chr <s 0x800 then 2 else if chr <s 0x10000 then 3
      else if chr <s 0x200000 then 4 else if chr <s 0x4000000 then 5
      else if chr < 0x80000000 then 6 else -1)"

section \<open>The other routines\<close>

definition utf8_skip_char :: "byte list \<Rightarrow> byte list" where
  "utf8_skip_char s =
     (if byte_at s 0 AND 0x80 = 0 then drop 1 s else dropWhile ISUTF8_CB (drop 1 s))"

lemma utf8_skip_char_shorter: "s \<noteq> [] \<Longrightarrow> length (utf8_skip_char s) < length s"
  unfolding utf8_skip_char_def
  by (cases s) (auto simp: length_dropWhile_le le_imp_less_Suc)

text \<open>
  The counters are \<^theory_text>\<open>unsigned int\<close>: they wrap at \<open>2^32\<close>. The argument of \<^theory_text>\<open>utf8_strlen\<close> is the
  buffer of the given length, the end of which is where the loop stops.
\<close>

function utf8_strlen_loop :: "byte list \<Rightarrow> cint \<Rightarrow> cint" where
  "utf8_strlen_loop s l = (if s = [] then l else utf8_strlen_loop (utf8_skip_char s) (l + 1))"
  by pat_completeness auto
termination
  by (relation "measure (length \<circ> fst)") (auto simp: utf8_skip_char_shorter)

declare utf8_strlen_loop.simps [simp del]

definition utf8_strlen :: "byte list \<Rightarrow> 64 word" where
  "utf8_strlen s = ucast (utf8_strlen_loop s 0)"

function utf8_strlen1_loop :: "byte list \<Rightarrow> cint \<Rightarrow> cint" where
  "utf8_strlen1_loop s l =
     (if byte_at s 0 = 0 then l else utf8_strlen1_loop (utf8_skip_char s) (l + 1))"
  by pat_completeness auto
termination
  by (relation "measure (length \<circ> fst)")
    (auto intro!: utf8_skip_char_shorter)

declare utf8_strlen1_loop.simps [simp del]

definition utf8_strlen1 :: "byte list \<Rightarrow> 64 word" where
  "utf8_strlen1 s = ucast (utf8_strlen1_loop s 0)"

fun utf8_skip :: "byte list \<Rightarrow> nat \<Rightarrow> byte list" where
  "utf8_skip s 0 = s"
| "utf8_skip s (Suc n) = utf8_skip (utf8_skip_char s) n"

datatype unicode_type = S_ASCII | S_LATIN | S_WIDE

lemma utf8_get_char_shorter: "s \<noteq> [] \<Longrightarrow> length (snd (utf8_get_char s)) < length s"
  by (cases s) (auto simp: utf8_get_char_def PL_utf8_get_char_def)

function PL_utf8_type_loop :: "byte list \<Rightarrow> unicode_type \<Rightarrow> unicode_type" where
  "PL_utf8_type_loop s type =
     (if s = [] then type
      else let (chr, s') = utf8_get_char s in
           if 255 <s chr then S_WIDE
           else PL_utf8_type_loop s' (if 127 <s chr then S_LATIN else type))"
  by pat_completeness auto
termination
  by (relation "measure (length \<circ> fst)") (auto, metis snd_conv utf8_get_char_shorter)

declare PL_utf8_type_loop.simps [simp del]

definition PL_utf8_type :: "byte list \<Rightarrow> unicode_type" where
  "PL_utf8_type s = PL_utf8_type_loop s S_ASCII"

fun utf8_strncmp :: "byte list \<Rightarrow> byte list \<Rightarrow> nat \<Rightarrow> cint" where
  "utf8_strncmp s1 s2 0 = 0"
| "utf8_strncmp s1 s2 (Suc n) =
     (let (chr1, s1') = utf8_get_char s1; (chr2, s2') = utf8_get_char s2 in
      if chr1 - chr2 \<noteq> 0 then chr1 - chr2
      else if chr1 = 0 then 0
      else utf8_strncmp s1' s2' n)"

section \<open>Encoding and decoding agree\<close>

lemma cb_cont: "ISUTF8_CB (0x80 OR ucast (take_bit 6 (w::cint)))"
  unfolding ISUTF8_CB_def by (rule bit_word_eqI) (auto simp: bit_simps const_bits)
lemma cont_val: "take_bit 6 (ucast (0x80 OR ucast (take_bit 6 (w::cint)) :: byte)) = take_bit 6 w"
  by (rule bit_word_eqI) (auto simp: bit_simps const_bits)
lemma lead_val:
  "take_bit 5 (ucast (0xc0 OR ucast (take_bit 5 (w::cint)) :: byte)) = take_bit 5 w"
  "take_bit 4 (ucast (0xe0 OR ucast (take_bit 4 (w::cint)) :: byte)) = take_bit 4 w"
  "take_bit 3 (ucast (0xf0 OR ucast (take_bit 3 (w::cint)) :: byte)) = take_bit 3 w"
  "take_bit 2 (ucast (0xf8 OR ucast (take_bit 2 (w::cint)) :: byte)) = take_bit 2 w"
  "take_bit 1 (ucast (0xfc OR ucast (take_bit 1 (w::cint)) :: byte)) = take_bit 1 w"
  by (rule bit_word_eqI; simp only: bit_take_bit_iff bit_unsigned_iff bit_or_iff bit_numeral_word_iff const_bits; auto)+
lemma lead_mask:
  "(0xc0 OR ucast (take_bit 5 (w::cint))) AND 0xe0 = (0xc0::byte)"
  "(0xe0 OR ucast (take_bit 4 (w::cint))) AND 0xf0 = (0xe0::byte)"
  "(0xf0 OR ucast (take_bit 3 (w::cint))) AND 0xf8 = (0xf0::byte)"
  "(0xf8 OR ucast (take_bit 2 (w::cint))) AND 0xfc = (0xf8::byte)"
  "(0xfc OR ucast (take_bit 1 (w::cint))) AND 0xfe = (0xfc::byte)"
  by (rule bit_word_eqI; auto simp: bit_simps const_bits)+
lemma lead_sub:
  "(0xe0 OR (b::byte)) AND 0xe0 = 0xe0" "(0xf0 OR b) AND 0xe0 = 0xe0" "(0xf0 OR b) AND 0xf0 = 0xf0"
  "(0xf8 OR b) AND 0xe0 = 0xe0" "(0xf8 OR b) AND 0xf0 = 0xf0" "(0xf8 OR b) AND 0xf8 = 0xf8"
  "(0xfc OR b) AND 0xe0 = 0xe0" "(0xfc OR b) AND 0xf0 = 0xf0" "(0xfc OR b) AND 0xf8 = 0xf8" "(0xfc OR b) AND 0xfc = 0xfc"
  by (rule bit_word_eqI; auto simp: bit_simps const_bits)+
lemma lead_mb:
  "(0xc0 OR (b::byte)) AND 0x80 \<noteq> 0" "(0xe0 OR b) AND 0x80 \<noteq> 0" "(0xf0 OR b) AND 0x80 \<noteq> 0"
  "(0xf8 OR b) AND 0x80 \<noteq> 0" "(0xfc OR b) AND 0x80 \<noteq> 0" 
  by (auto dest: arg_cong [where f = "\<lambda>w. bit w 7"] simp: bit_simps const_bits)
lemmas utf8_bits = CONT_def LEAD_def VAL_def and_mask_take cb_cont cont_val lead_val lead_mask lead_sub lead_mb
lemma drop_small: "(w::cint) < 2 ^ (m + k) \<Longrightarrow> take_bit (m + k) w = w"
  by (rule bit_word_eqI) (auto simp: bit_simps dest: bit_bound)

lemma sless_const:
  assumes "0 \<le>s (chr::cint)" shows "chr <s 0x80 \<longleftrightarrow> chr < 2 ^ 7" "chr <s 0x800 \<longleftrightarrow> chr < 2 ^ (5 + 6)"
     "chr <s 0x10000 \<longleftrightarrow> chr < 2 ^ (4 + 12)" "chr <s 0x200000 \<longleftrightarrow> chr < 2 ^ (3+18)" 
     "chr <s 0x4000000 \<longleftrightarrow> chr < 2 ^ (2 + 24)" "chr < 0x80000000 \<longleftrightarrow> chr < 2 ^ (1 + 30)" 
proof -
  have z: "0 \<le>s (0x80::cint)" "0 \<le>s (0x800::cint)" "0 \<le>s (0x10000::cint)" "0 \<le>s (0x200000::cint)" "0 \<le>s (0x4000000::cint)"
   by (simp_all add: word_sle_eq)
  show "chr <s 0x80 \<longleftrightarrow> chr < 2 ^ 7" "chr <s 0x800 \<longleftrightarrow> chr < 2 ^ (5 + 6)"
     "chr <s 0x10000 \<longleftrightarrow> chr < 2 ^ (4 + 12)" "chr <s 0x200000 \<longleftrightarrow> chr < 2 ^ (3+18)" 
     "chr <s 0x4000000 \<longleftrightarrow> chr < 2 ^ (2 + 24)" "chr < 0x80000000 \<longleftrightarrow> chr < 2 ^ (1 + 30)" using assms z by (simp_all add: sless_nonneg)
qed
lemma nonneg_bound: assumes "0 \<le>s (chr::cint)" shows "chr < 2 ^ (1 + 30)"
  using sint_lt [of chr] assms by (simp add: word_sle_eq word_less_def sint_nonneg)
lemma ascii_byte: "(chr::cint) < 2 ^ 7 \<Longrightarrow> (ucast chr :: byte) AND 0x80 = 0 \<and> (ucast (ucast chr :: byte) :: cint) = chr"
  by (intro conjI bit_word_eqI) (auto simp: bit_simps const_bits dest: bit_bound [of _ 7, simplified])

lemma join_bits:
  "chr < 2 ^ (5 + 6) \<Longrightarrow> push_bit 6 (take_bit 5 (drop_bit 6 (chr::cint))) OR take_bit 6 chr = chr"
  "chr < 2 ^ (4 + 12) \<Longrightarrow> push_bit 12 (take_bit 4 (drop_bit 12 (chr::cint))) OR push_bit 6 (take_bit 6 (drop_bit 6 chr)) OR take_bit 6 chr = chr"
  "chr < 2 ^ (3 + 18) \<Longrightarrow> push_bit 18 (take_bit 3 (drop_bit 18 (chr::cint))) OR push_bit 12 (take_bit 6 (drop_bit 12 chr)) OR push_bit 6 (take_bit 6 (drop_bit 6 chr)) OR take_bit 6 chr = chr"
  "chr < 2 ^ (2 + 24) \<Longrightarrow> push_bit 24 (take_bit 2 (drop_bit 24 (chr::cint))) OR push_bit 18 (take_bit 6 (drop_bit 18 chr)) OR push_bit 12 (take_bit 6 (drop_bit 12 chr)) OR push_bit 6 (take_bit 6 (drop_bit 6 chr)) OR take_bit 6 chr = chr"
  "chr < 2 ^ (1 + 30) \<Longrightarrow> push_bit 30 (take_bit 1 (drop_bit 30 (chr::cint))) OR push_bit 24 (take_bit 6 (drop_bit 24 chr)) OR push_bit 18 (take_bit 6 (drop_bit 18 chr)) OR push_bit 12 (take_bit 6 (drop_bit 12 chr)) OR push_bit 6 (take_bit 6 (drop_bit 6 chr)) OR take_bit 6 chr = chr"
  by (drule drop_small; simp only: glue_bits arith_simps one_add_one)+
lemma get_enc:
  "PL_utf8_get_char ((0xc0 OR ucast (take_bit 5 x4)) # (0x80 OR ucast (take_bit 6 x5)) # rest) = (push_bit 6 (take_bit 5 x4) OR take_bit 6 x5, rest)"
  "PL_utf8_get_char ((0xe0 OR ucast (take_bit 4 x3)) # (0x80 OR ucast (take_bit 6 x4)) # (0x80 OR ucast (take_bit 6 x5)) # rest) = (push_bit 12 (take_bit 4 x3) OR push_bit 6 (take_bit 6 x4) OR take_bit 6 x5, rest)"
  "PL_utf8_get_char ((0xf0 OR ucast (take_bit 3 x2)) # (0x80 OR ucast (take_bit 6 x3)) # (0x80 OR ucast (take_bit 6 x4)) # (0x80 OR ucast (take_bit 6 x5)) # rest) = (push_bit 18 (take_bit 3 x2) OR push_bit 12 (take_bit 6 x3) OR push_bit 6 (take_bit 6 x4) OR take_bit 6 x5, rest)"
  "PL_utf8_get_char ((0xf8 OR ucast (take_bit 2 x1)) # (0x80 OR ucast (take_bit 6 x2)) # (0x80 OR ucast (take_bit 6 x3)) # (0x80 OR ucast (take_bit 6 x4)) # (0x80 OR ucast (take_bit 6 x5)) # rest) = (push_bit 24 (take_bit 2 x1) OR push_bit 18 (take_bit 6 x2) OR push_bit 12 (take_bit 6 x3) OR push_bit 6 (take_bit 6 x4) OR take_bit 6 x5, rest)"
  "PL_utf8_get_char ((0xfc OR ucast (take_bit 1 x0)) # (0x80 OR ucast (take_bit 6 x1)) # (0x80 OR ucast (take_bit 6 x2)) # (0x80 OR ucast (take_bit 6 x3)) # (0x80 OR ucast (take_bit 6 x4)) # (0x80 OR ucast (take_bit 6 x5)) # rest) = (push_bit 30 (take_bit 1 x0) OR push_bit 24 (take_bit 6 x1) OR push_bit 18 (take_bit 6 x2) OR push_bit 12 (take_bit 6 x3) OR push_bit 6 (take_bit 6 x4) OR take_bit 6 x5, rest)"
  by (simp_all add: PL_utf8_get_char_def utf8_bits utf8_bits [unfolded One_nat_def] del: take_bit_Suc_0 take_bit_Suc)


lemma get_put_long:
  assumes c0: "0 \<le>s chr" and c1: "\<not> chr < 2 ^ 7" shows "PL_utf8_get_char (PL_utf8_put_char chr @ rest) = (chr, rest) \<and> byte_at (PL_utf8_put_char chr @ rest) 0 AND 0x80 \<noteq> 0"
proof -
  note c = sless_const [OF c0] and n = nonneg_bound [OF c0]
  note r = PL_utf8_put_char_def c and_mask_take append_Cons append_Nil get_enc join_bits c1 if_True if_False n byte_at_0 lead_mb not_False_eq_True simp_thms
  consider "chr < 2 ^ (5 + 6)" | "\<not> chr < 2 ^ (5 + 6)" "chr < 2 ^ (4 + 12)"
    | "\<not> chr < 2 ^ (5 + 6)" "\<not> chr < 2 ^ (4 + 12)" "chr < 2 ^ (3 + 18)"
    | "\<not> chr < 2 ^ (5 + 6)" "\<not> chr < 2 ^ (4 + 12)" "\<not> chr < 2 ^ (3 + 18)" "chr < 2 ^ (2 + 24)"
    | "\<not> chr < 2 ^ (5 + 6)" "\<not> chr < 2 ^ (4 + 12)" "\<not> chr < 2 ^ (3 + 18)" "\<not> chr < 2 ^ (2 + 24)" 
    by blast
  then show ?thesis
    by cases (simp_all only: r)
qed
lemma get_put_char:
  assumes "0 \<le>s chr" shows "utf8_get_char (utf8_put_char chr @ rest) = (chr, rest)"
proof -
  note c = sless_const [OF assms] 
  consider "chr < 2 ^ 7" | "\<not> chr < 2 ^ 7" by blast
  then show ?thesis
  proof cases
    case 1 then show ?thesis using ascii_byte [of chr] by (simp add: utf8_get_char_def utf8_put_char_def c)
  next
    case 2
    with get_put_long [OF assms 2] show ?thesis
      by (simp only: utf8_put_char_def utf8_get_char_def c if_False if_True not_False_eq_True simp_thms)
  qed
qed

text \<open>The encoder and the decoder meet the codec contract on the non-negative code points.\<close>

interpretation utf8: byte_codec utf8_put_char "\<lambda>s. Some (utf8_get_char s)" "\<lambda>c. 0 \<le>s c"
  by unfold_locales (simp add: get_put_char)

definition utf8_encode :: "cint list \<Rightarrow> byte list" where
  "utf8_encode cs = concat (map utf8_put_char cs)"

lemma utf8_encode_simps [simp]:
  "utf8_encode [] = []" "utf8_encode (c # cs) = utf8_put_char c @ utf8_encode cs"
  by (simp_all add: utf8_encode_def)

lemma lead_not_cb:
  "\<not> ISUTF8_CB (0xc0 OR b)" "\<not> ISUTF8_CB (0xe0 OR b)" "\<not> ISUTF8_CB (0xf0 OR b)" "\<not> ISUTF8_CB (0xf8 OR b)" "\<not> ISUTF8_CB (0xfc OR b)"
  by (auto simp: ISUTF8_CB_def bit_simps const_bits dest: arg_cong [where f = "\<lambda>w. bit w 6"])

lemma cb_high: "ISUTF8_CB b \<Longrightarrow> b AND 0x80 \<noteq> 0"
  by (auto simp: ISUTF8_CB_def bit_simps const_bits dest!: arg_cong [where f = "\<lambda>w. bit w 7"])

lemma put_char_Cons:
  assumes "0 \<le>s chr"
  obtains b bs where "utf8_put_char chr = b # bs" and "\<not> ISUTF8_CB b"
    and "b AND 0x80 = 0 \<longrightarrow> bs = []" and "list_all ISUTF8_CB bs"
proof -
  note c = sless_const [OF assms]
  have "\<exists>b bs. utf8_put_char chr = b # bs \<and> \<not> ISUTF8_CB b \<and> (b AND 0x80 = 0 \<longrightarrow> bs = [])
      \<and> list_all ISUTF8_CB bs"
  proof (cases "chr < 2 ^ 7")
    case True
    then show ?thesis using ascii_byte [of chr] cb_high [of "ucast chr"]
      by (auto simp: utf8_put_char_def c)
  next
    case False
    then have "PL_utf8_put_char chr \<noteq> [] \<and> \<not> ISUTF8_CB (hd (PL_utf8_put_char chr)) \<and>
        hd (PL_utf8_put_char chr) AND 0x80 \<noteq> 0 \<and> list_all ISUTF8_CB (tl (PL_utf8_put_char chr))"
      unfolding PL_utf8_put_char_def c and_mask_take
      by (simp only: if_False nonneg_bound [OF assms] if_True lead_mb cb_cont lead_not_cb list.pred_inject
          list.sel list.distinct simp_thms not_False_eq_True split: if_split)
    with False show ?thesis by (cases "PL_utf8_put_char chr") (auto simp: utf8_put_char_def c)
  qed
  then show thesis using that by blast
qed

lemma put_char_neq_Nil: "0 \<le>s c \<Longrightarrow> utf8_put_char c \<noteq> []"
  by (metis list.distinct(1) put_char_Cons)

lemma skip_put_char:
  assumes "0 \<le>s chr" and "\<not> ISUTF8_CB (byte_at rest 0)"
  shows "utf8_skip_char (utf8_put_char chr @ rest) = rest"
proof -
  obtain b bs where b: "utf8_put_char chr = b # bs" "b AND 0x80 = 0 \<longrightarrow> bs = []" "list_all ISUTF8_CB bs"
    using put_char_Cons [OF assms(1)] by metis
  have "dropWhile ISUTF8_CB rest = rest" using assms(2) by (cases rest) simp_all
  with b show ?thesis
    by (auto simp: utf8_skip_char_def dropWhile_append2 list_all_iff)
qed

lemma encode_head:
  "list_all (\<lambda>c. 0 \<le>s c) cs \<Longrightarrow> \<not> ISUTF8_CB (byte_at (utf8_encode cs) 0)"
  by (cases cs) (auto simp: ISUTF8_CB_def elim!: put_char_Cons)

lemma skip_encode:
  "list_all (\<lambda>c. 0 \<le>s c) (c # cs) \<Longrightarrow> utf8_skip_char (utf8_encode (c # cs)) = utf8_encode cs"
  by (simp add: skip_put_char encode_head)

lemma encode_Nil_iff: "list_all (\<lambda>c. 0 \<le>s c) cs \<Longrightarrow> utf8_encode cs = [] \<longleftrightarrow> cs = []"
  by (cases cs) (auto elim!: put_char_Cons)

lemma strlen_loop_encode:
  "list_all (\<lambda>c. 0 \<le>s c) cs \<Longrightarrow> utf8_strlen_loop (utf8_encode cs) l = l + of_nat (length cs)"
proof (induction cs arbitrary: l)
  case Nil
  show ?case by (simp add: utf8_strlen_loop.simps)
next
  case (Cons c cs)
  have "utf8_strlen_loop (utf8_encode (c # cs)) l = utf8_strlen_loop (utf8_encode cs) (l + 1)"
    using skip_encode [OF Cons.prems] put_char_neq_Nil [of c] Cons.prems
    by (subst utf8_strlen_loop.simps) simp
  with Cons show ?case by simp
qed

lemma skip_n_encode:
  assumes "list_all (\<lambda>c. 0 \<le>s c) cs" and "n \<le> length cs"
  shows "utf8_skip (utf8_encode cs) n = utf8_encode (drop n cs)"
  using assms
proof (induction n arbitrary: cs)
  case (Suc n)
  then obtain c cs' where cs: "cs = c # cs'" by (cases cs) auto
  then show ?case using Suc skip_encode [of c cs'] by simp
qed simp

definition unicode_class :: "cint list \<Rightarrow> unicode_type" where
  "unicode_class cs = (if \<exists>c\<in>set cs. 255 <s c then S_WIDE
     else if \<exists>c\<in>set cs. 127 <s c then S_LATIN else S_ASCII)"

lemma type_loop_encode:
  "list_all (\<lambda>c. 0 \<le>s c) cs \<Longrightarrow> t \<noteq> S_WIDE \<Longrightarrow>
   PL_utf8_type_loop (utf8_encode cs) t =
     (if unicode_class cs = S_ASCII then t else unicode_class cs)"
proof (induction cs arbitrary: t)
  case Nil
  show ?case by (simp add: PL_utf8_type_loop.simps unicode_class_def)
next
  case (Cons c cs)
  have "PL_utf8_type_loop (utf8_encode (c # cs)) t =
     (if 255 <s c then S_WIDE else PL_utf8_type_loop (utf8_encode cs) (if 127 <s c then S_LATIN else t))"
    using Cons.prems put_char_neq_Nil [of c]
    by (subst PL_utf8_type_loop.simps) (simp add: get_put_char)
  with Cons show ?case
    by (auto simp: unicode_class_def)
qed

lemma get_Nil: "utf8_get_char [] = (0, [])"
  by (simp add: utf8_get_char_def)

lemma sub_sign:
  assumes "0 \<le>s (a::cint)" "0 \<le>s b" shows "a - b <s 0 \<longleftrightarrow> a < b"
proof -
  have "sint (a - b) = sint a - sint b"
    using assms sint_lt [of a] sint_lt [of b] 
    by (simp add: word_sle_eq sint_word_ariths signed_take_bit_int_eq_self)
  then show ?thesis using assms by (simp add: word_sless_alt word_sle_eq word_less_def sint_nonneg)
qed

lemma pos_code: "0 <s (c::cint) \<Longrightarrow> 0 \<le>s c" "0 <s c \<Longrightarrow> c \<noteq> 0"
  by (auto simp: word_sless_eq)

lemma pos_less: "0 <s (c::cint) \<Longrightarrow> 0 < c" "0 <s c \<Longrightarrow> - c <s 0"
  using sub_sign [of 0 c] by (auto simp: word_sless_eq sless_nonneg word_sless_alt word_sle_eq word_gt_0)


lemma put_char_length:
  assumes "0 \<le>s chr"
  shows "int (length (utf8_put_char chr)) = utf8_code_bytes chr"
proof -
  note c = sless_const [OF assms]
  show ?thesis
    unfolding utf8_put_char_def PL_utf8_put_char_def utf8_code_bytes_def c
    by (simp only: nonneg_bound [OF assms] if_True list.size split: if_split) simp
qed

section \<open>Properties\<close>

text \<open>C31: decoding what \<^theory_text>\<open>utf8_put_char\<close> wrote for a sequence of (non-negative) code points gives
  back the sequence and leaves exactly the bytes that follow it.\<close>
theorem utf8_text_roundtrip:
  assumes "list_all (\<lambda>c. 0 \<le>s c) cs"
  shows "dec_many (\<lambda>s. Some (utf8_get_char s)) (length cs) (utf8_encode cs @ rest) = Some (cs, rest)"
  unfolding utf8_encode_def by (rule utf8.dec_many_enc [OF assms])

theorem utf8_text_roundtrip_witness:
  "dec_many (\<lambda>s. Some (utf8_get_char s)) 3 (utf8_encode [0x41, 0x20ac, 0x7fffffff] @ [0x80]) =
    Some ([0x41, 0x20ac, 0x7fffffff], [0x80])"
proof -
  have "list_all (\<lambda>c. 0 \<le>s c) [0x41, 0x20ac, 0x7fffffff :: cint]" by (simp add: word_sle_eq)
  from utf8_text_roundtrip [OF this, of "[0x80]"] show ?thesis by (simp add: numeral_3_eq_3)
qed

text \<open>C39: \<^theory_text>\<open>utf8_put_char\<close> writes as many bytes as \<^theory_text>\<open>utf8_code_bytes\<close> announces, between one and six.\<close>
theorem utf8_put_char_size:
  assumes "0 \<le>s chr"
  shows "int (length (utf8_put_char chr)) = utf8_code_bytes chr \<and>
    1 \<le> utf8_code_bytes chr \<and> utf8_code_bytes chr \<le> 6"
  using put_char_length [OF assms] nonneg_bound [OF assms] by (auto simp: utf8_code_bytes_def)

theorem utf8_put_char_size_witness: "int (length (utf8_put_char 0x20ac)) = 3"
proof -
  have "0 \<le>s (0x20ac :: cint)" by (simp add: word_sle_eq)
  from utf8_put_char_size [OF this] show ?thesis by (simp add: utf8_code_bytes_def word_sless_eq word_sle_eq)
qed

text \<open>C33: on encoded text \<^theory_text>\<open>utf8_strlen\<close> counts the code points (modulo the width of its counter) and
  \<^theory_text>\<open>utf8_skip\<close> stops at the encoding of the remaining ones.\<close>
theorem utf8_strlen_skip_encode:
  assumes "list_all (\<lambda>c. 0 \<le>s c) cs" and "n \<le> length cs"
  shows "utf8_strlen (utf8_encode cs) = ucast (of_nat (length cs) :: cint) \<and>
    utf8_skip (utf8_encode cs) n = utf8_encode (drop n cs)"
  using strlen_loop_encode [OF assms(1), of 0] skip_n_encode [OF assms] by (simp add: utf8_strlen_def)

theorem utf8_strlen_skip_encode_witness:
  "utf8_strlen (utf8_encode [0x20ac, 0x41]) = 2 \<and> utf8_skip (utf8_encode [0x20ac, 0x41]) 1 = [0x41]"
proof -
  have h: "list_all (\<lambda>c. 0 \<le>s c) [0x20ac, 0x41 :: cint]" by (simp add: word_sle_eq)
  have "utf8_encode [0x41 :: cint] = [0x41]" by (simp add: utf8_put_char_def word_sless_eq word_sle_eq)
  with utf8_strlen_skip_encode [OF h, of 1] show ?thesis by simp
qed

text \<open>C38: \<^theory_text>\<open>_PL__utf8_type\<close> returns the narrowest representation that holds every code point of
  encoded text.\<close>
theorem utf8_type_encode:
  assumes "list_all (\<lambda>c. 0 \<le>s c) cs"
  shows "PL_utf8_type (utf8_encode cs) = unicode_class cs"
  using type_loop_encode [OF assms, of S_ASCII] by (simp add: PL_utf8_type_def)

theorem utf8_type_encode_witness: "PL_utf8_type (utf8_encode [0x41, 0xe9]) = S_LATIN"
proof -
  have "list_all (\<lambda>c. 0 \<le>s c) [0x41, 0xe9 :: cint]" by (simp add: word_sle_eq)
  from utf8_type_encode [OF this] show ?thesis
    by (simp add: unicode_class_def word_sless_eq word_sle_eq)
qed

text \<open>C32: on encodings of text without NUL, \<^theory_text>\<open>utf8_strncmp\<close> returns 0 exactly when the first \<open>n\<close> code
  points agree and a negative number exactly when the first text is lexicographically smaller.\<close>
theorem utf8_strncmp_encode:
  assumes "list_all (\<lambda>c. 0 <s c) xs" "list_all (\<lambda>c. 0 <s c) ys"
  shows "(utf8_strncmp (utf8_encode xs) (utf8_encode ys) n = 0 \<longleftrightarrow> take n xs = take n ys) \<and>
    (utf8_strncmp (utf8_encode xs) (utf8_encode ys) n <s 0 \<longleftrightarrow> ord_class.lexordp (take n xs) (take n ys))"
  using assms
proof (induction n arbitrary: xs ys)
  case (Suc n)
  then show ?case
    by (cases xs; cases ys) (auto simp: get_Nil get_put_char pos_code pos_less sub_sign)
qed simp

theorem utf8_strncmp_encode_witness:
  "utf8_strncmp (utf8_encode [0x41, 0x20ac]) (utf8_encode [0x41, 0x42]) 1 = 0"
proof -
  have "list_all (\<lambda>c. 0 <s c) [0x41, 0x20ac :: cint]" "list_all (\<lambda>c. 0 <s c) [0x41, 0x42 :: cint]"
    by (simp_all add: word_sless_eq word_sle_eq)
  from utf8_strncmp_encode [OF this, of 1] show ?thesis by simp
qed

end
