(* ===== verification/PL_Arith.thy ===== *)
theory PL_Arith
  imports PL_Prelude
begin

text \<open>
  Integer arithmetic of pl-arith.c and number comparison of pl-gmp.c: the tagged \<^theory_text>\<open>number\<close> with its
  promotions, the overflow checks of the 64-bit branch, the branches that run on GMP integers or on
  doubles. GMP and the floating point unit are parameters (the record \<^theory_text>\<open>host\<close>), as are the build
  switch O_GMP, the ISO flag, the width of \<^theory_text>\<open>long\<close> and the limit of the global stack. Rationals
  (V_MPQ), which only exist inside one evaluation, are left out.
\<close>

section \<open>Numbers and their environment\<close>

datatype ('z, 'f) number = V_INTEGER int64 | V_MPZ 'z | V_FLOAT 'f

datatype fpclass = FP_NAN | FP_INFINITE | FP_FINITE

datatype ar_error =
    ERR_AR_TYPE_integer
  | ERR_DIV_BY_ZERO
  | ERR_EVALUATION_int_overflow
  | ERR_AR_UNDEF
  | ERR_AR_OVERFLOW
  | ERR_DOMAIN_not_less_than_zero
  | ERR_DOMAIN_not_less_than_one
  | ERR_RESOURCE_global
  | ASSERT_0
  | C_UNDEFINED

record ('z, 'f) host =
  o_gmp :: bool
  iso_flag :: bool
  long_bits :: nat
  global_limit :: nat
  mpz_of_int64 :: "int64 \<Rightarrow> 'z"
  mpz_of_double :: "'f \<Rightarrow> 'z"
  mpz_get_d :: "'z \<Rightarrow> 'f"
  mpz_add :: "'z \<Rightarrow> 'z \<Rightarrow> 'z"
  mpz_sub :: "'z \<Rightarrow> 'z \<Rightarrow> 'z"
  mpz_mul :: "'z \<Rightarrow> 'z \<Rightarrow> 'z"
  mpz_tdiv_q :: "'z \<Rightarrow> 'z \<Rightarrow> 'z"
  mpz_tdiv_r :: "'z \<Rightarrow> 'z \<Rightarrow> 'z"
  mpz_fdiv_q :: "'z \<Rightarrow> 'z \<Rightarrow> 'z"
  mpz_fdiv_r :: "'z \<Rightarrow> 'z \<Rightarrow> 'z"
  mpz_gcd :: "'z \<Rightarrow> 'z \<Rightarrow> 'z"
  mpz_neg :: "'z \<Rightarrow> 'z"
  mpz_com :: "'z \<Rightarrow> 'z"
  mpz_abs :: "'z \<Rightarrow> 'z"
  mpz_sgn :: "'z \<Rightarrow> int"
  mpz_cmp :: "'z \<Rightarrow> 'z \<Rightarrow> int"
  mpz_cmp_si :: "'z \<Rightarrow> int \<Rightarrow> int"
  mpz_get_si :: "'z \<Rightarrow> int"
  mpz_cmp_ui :: "'z \<Rightarrow> nat \<Rightarrow> int"
  mpz_get_ui :: "'z \<Rightarrow> nat"
  mpz_add_ui :: "'z \<Rightarrow> nat \<Rightarrow> 'z"
  mpz_sub_ui :: "'z \<Rightarrow> nat \<Rightarrow> 'z"
  mpz_mul_2exp :: "'z \<Rightarrow> nat \<Rightarrow> 'z"
  mpz_fdiv_q_2exp :: "'z \<Rightarrow> nat \<Rightarrow> 'z"
  mpz_sizeinbase_2 :: "'z \<Rightarrow> nat"
  mpz_scan1_0 :: "'z \<Rightarrow> nat"
  mpz_popcount :: "'z \<Rightarrow> nat"
  mpz_tstbit :: "'z \<Rightarrow> nat \<Rightarrow> bool"
  dbl_of_int64 :: "int64 \<Rightarrow> 'f"
  dbl_to_int64 :: "'f \<Rightarrow> int64"
  dbl_in_int64_range :: "'f \<Rightarrow> bool"
  dbl_class :: "'f \<Rightarrow> fpclass"
  dbl_add :: "'f \<Rightarrow> 'f \<Rightarrow> 'f"
  dbl_sub :: "'f \<Rightarrow> 'f \<Rightarrow> 'f"
  dbl_mul :: "'f \<Rightarrow> 'f \<Rightarrow> 'f"
  dbl_neg :: "'f \<Rightarrow> 'f"
  dbl_signbit :: "'f \<Rightarrow> bool"
  dbl_copysign :: "'f \<Rightarrow> 'f \<Rightarrow> 'f"
  dbl_lt :: "'f \<Rightarrow> 'f \<Rightarrow> bool"
  dbl_eq :: "'f \<Rightarrow> 'f \<Rightarrow> bool"

definition PLMININT :: int64 where "PLMININT = 0x8000000000000000"
definition PLMAXINT :: int64 where "PLMAXINT = 0x7fffffffffffffff"

definition check_float :: "('z, 'f) host \<Rightarrow> 'f \<Rightarrow> ar_error + ('z, 'f) number" where
  "check_float E f = (case dbl_class E f of
     FP_NAN \<Rightarrow> Inl ERR_AR_UNDEF
   | FP_INFINITE \<Rightarrow> Inl ERR_AR_OVERFLOW
   | FP_FINITE \<Rightarrow> Inr (V_FLOAT f))"

section \<open>Promotion\<close>

definition promoteToMPZNumber :: "('z, 'f) host \<Rightarrow> ('z, 'f) number \<Rightarrow> ('z, 'f) number" where
  "promoteToMPZNumber E n = (case n of
     V_INTEGER i \<Rightarrow> V_MPZ (mpz_of_int64 E i)
   | V_MPZ z \<Rightarrow> V_MPZ z
   | V_FLOAT f \<Rightarrow> V_MPZ (mpz_of_double E f))"

definition promoteToFloatNumber ::
    "('z, 'f) host \<Rightarrow> ('z, 'f) number \<Rightarrow> ar_error + ('z, 'f) number" where
  "promoteToFloatNumber E n = (case n of
     V_INTEGER i \<Rightarrow> Inr (V_FLOAT (dbl_of_int64 E i))
   | V_MPZ z \<Rightarrow> check_float E (mpz_get_d E z)
   | V_FLOAT f \<Rightarrow> Inr (V_FLOAT f))"

fun numtype :: "('z, 'f) number \<Rightarrow> nat" where
  "numtype (V_INTEGER _) = 0"
| "numtype (V_MPZ _) = 1"
| "numtype (V_FLOAT _) = 2"

definition promoteNumber ::
    "('z, 'f) host \<Rightarrow> ('z, 'f) number \<Rightarrow> nat \<Rightarrow> ar_error + ('z, 'f) number" where
  "promoteNumber E n t =
     (if t = 0 then Inr n
      else if t = 1 then Inr (promoteToMPZNumber E n)
      else promoteToFloatNumber E n)"

definition make_same_type_numbers :: "('z, 'f) host \<Rightarrow> ('z, 'f) number \<Rightarrow> ('z, 'f) number \<Rightarrow>
    ar_error + ('z, 'f) number \<times> ('z, 'f) number" where
  "make_same_type_numbers E n1 n2 =
     (if numtype n2 < numtype n1
      then sbind (promoteNumber E n2 (numtype n1)) (\<lambda>m2. Inr (n1, m2))
      else sbind (promoteNumber E n1 (numtype n2)) (\<lambda>m1. Inr (m1, n2)))"

definition same_type_numbers :: "('z, 'f) host \<Rightarrow> ('z, 'f) number \<Rightarrow> ('z, 'f) number \<Rightarrow>
    ar_error + ('z, 'f) number \<times> ('z, 'f) number" where
  "same_type_numbers E n1 n2 =
     (if numtype n1 = numtype n2 then Inr (n1, n2) else make_same_type_numbers E n1 n2)"

definition promoteIntNumber ::
    "('z, 'f) host \<Rightarrow> ('z, 'f) number \<Rightarrow> ar_error + ('z, 'f) number" where
  "promoteIntNumber E n =
     (if o_gmp E then Inr (promoteToMPZNumber E n)
      else if iso_flag E then Inl ERR_EVALUATION_int_overflow
      else promoteToFloatNumber E n)"

definition toIntegerNumber :: "('z, 'f) host \<Rightarrow> ('z, 'f) number \<Rightarrow> bool \<Rightarrow> bool \<Rightarrow>
    ('z, 'f) number option" where
  "toIntegerNumber E n convert_float trunc = (case n of
     V_INTEGER _ \<Rightarrow> Some n
   | V_MPZ _ \<Rightarrow> Some n
   | V_FLOAT f \<Rightarrow>
       if convert_float then
         if dbl_in_int64_range E f then
           let l = dbl_to_int64 E f in
           if trunc \<or> dbl_eq E (dbl_of_int64 E l) f then Some (V_INTEGER l) else None
         else if o_gmp E then Some (V_MPZ (mpz_of_double E f))
         else None
       else None)"

text \<open>The two guards that open every integer function.\<close>

definition need_integer ::
    "('z, 'f) host \<Rightarrow> ('z, 'f) number \<Rightarrow> ar_error + ('z, 'f) number" where
  "need_integer E n = (case toIntegerNumber E n False False of
     None \<Rightarrow> Inl ERR_AR_TYPE_integer | Some m \<Rightarrow> Inr m)"

definition need_integers :: "('z, 'f) host \<Rightarrow> ('z, 'f) number \<Rightarrow> ('z, 'f) number \<Rightarrow>
    ar_error + ('z, 'f) number \<times> ('z, 'f) number" where
  "need_integers E n1 n2 =
     sbind (need_integer E n1) (\<lambda>m1. sbind (need_integer E n2) (\<lambda>m2. Inr (m1, m2)))"

section \<open>Comparison\<close>

definition CMP_LESS :: int where "CMP_LESS = -1"
definition CMP_EQUAL :: int where "CMP_EQUAL = 0"
definition CMP_GREATER :: int where "CMP_GREATER = 1"
definition CMP_NOTEQ :: int where "CMP_NOTEQ = 2"

lemmas cmp_consts = CMP_LESS_def CMP_EQUAL_def CMP_GREATER_def CMP_NOTEQ_def

definition to_double :: "('z, 'f) host \<Rightarrow> ('z, 'f) number \<Rightarrow> 'f" where
  "to_double E n = (case n of
     V_INTEGER i \<Rightarrow> dbl_of_int64 E i | V_MPZ z \<Rightarrow> mpz_get_d E z | V_FLOAT f \<Rightarrow> f)"

definition cmpFloatNumbers :: "('z, 'f) host \<Rightarrow> ('z, 'f) number \<Rightarrow> ('z, 'f) number \<Rightarrow> int" where
  "cmpFloatNumbers E n1 n2 = (case n1 of
     V_FLOAT f1 \<Rightarrow>
       let d2 = to_double E n2 in
       if dbl_lt E f1 d2 then CMP_LESS else if dbl_eq E f1 d2 then CMP_EQUAL else CMP_GREATER
   | _ \<Rightarrow>
       let d1 = to_double E n1; f2 = to_double E n2 in
       if dbl_lt E f2 d1 then CMP_GREATER else if dbl_eq E f2 d1 then CMP_EQUAL else CMP_LESS)"

definition cmp_same :: "('z, 'f) host \<Rightarrow> ('z, 'f) number \<Rightarrow> ('z, 'f) number \<Rightarrow> int" where
  "cmp_same E n1 n2 = (case (n1, n2) of
     (V_INTEGER a, V_INTEGER b) \<Rightarrow>
       if a <s b then CMP_LESS else if a = b then CMP_EQUAL else CMP_GREATER
   | (V_MPZ a, V_MPZ b) \<Rightarrow>
       let rc = mpz_cmp E a b in
       if rc < 0 then CMP_LESS else if rc = 0 then CMP_EQUAL else CMP_GREATER
   | (V_FLOAT a, V_FLOAT b) \<Rightarrow>
       if dbl_lt E a b then CMP_LESS else if dbl_eq E a b then CMP_EQUAL
       else if dbl_lt E b a then CMP_GREATER else CMP_NOTEQ
   | _ \<Rightarrow> CMP_EQUAL)"

definition is_float :: "('z, 'f) number \<Rightarrow> bool" where
  "is_float n = (case n of V_FLOAT _ \<Rightarrow> True | _ \<Rightarrow> False)"

definition cmpNumbers :: "('z, 'f) host \<Rightarrow> ('z, 'f) number \<Rightarrow> ('z, 'f) number \<Rightarrow> int" where
  "cmpNumbers E n1 n2 =
     (if numtype n1 \<noteq> numtype n2 then
        if is_float n1 \<or> is_float n2 then cmpFloatNumbers E n1 n2
        else (case make_same_type_numbers E n1 n2 of
            Inr (m1, m2) \<Rightarrow> cmp_same E m1 m2 | Inl _ \<Rightarrow> CMP_EQUAL)
      else cmp_same E n1 n2)"

datatype cmp_op = LT | GT | LE | GE | NE | EQ

definition ar_compare :: "('z, 'f) host \<Rightarrow> ('z, 'f) number \<Rightarrow> ('z, 'f) number \<Rightarrow> cmp_op \<Rightarrow> bool" where
  "ar_compare E n1 n2 what =
     (let diff = cmpNumbers E n1 n2 in
      case what of
        LT \<Rightarrow> diff = CMP_LESS
      | GT \<Rightarrow> diff = CMP_GREATER
      | LE \<Rightarrow> diff \<noteq> CMP_GREATER
      | GE \<Rightarrow> diff \<noteq> CMP_LESS
      | NE \<Rightarrow> diff \<noteq> CMP_EQUAL
      | EQ \<Rightarrow> diff = CMP_EQUAL)"

definition ar_max :: "('z, 'f) host \<Rightarrow> ('z, 'f) number \<Rightarrow> ('z, 'f) number \<Rightarrow> ('z, 'f) number" where
  "ar_max E n1 n2 = (if 0 \<le> cmpNumbers E n1 n2 then n1 else n2)"

definition ar_min :: "('z, 'f) host \<Rightarrow> ('z, 'f) number \<Rightarrow> ('z, 'f) number \<Rightarrow> ('z, 'f) number" where
  "ar_min E n1 n2 = (if cmpNumbers E n1 n2 \<le> 0 then n1 else n2)"

section \<open>Addition, subtraction, multiplication, negation\<close>

text \<open>The branch shared by the binary functions once both operands have left the 64-bit range.\<close>

definition ar_big :: "('z, 'f) host \<Rightarrow> ('z \<Rightarrow> 'z \<Rightarrow> 'z) \<Rightarrow> ('f \<Rightarrow> 'f \<Rightarrow> 'f) \<Rightarrow>
    ('z, 'f) number \<Rightarrow> ('z, 'f) number \<Rightarrow> ar_error + ('z, 'f) number" where
  "ar_big E zop fop n1 n2 = (case (n1, n2) of
     (V_MPZ a, V_MPZ b) \<Rightarrow> Inr (V_MPZ (zop a b))
   | (V_FLOAT a, V_FLOAT b) \<Rightarrow> check_float E (fop a b)
   | _ \<Rightarrow> Inl ASSERT_0)"

definition ar_promote_both :: "('z, 'f) host \<Rightarrow> ('z \<Rightarrow> 'z \<Rightarrow> 'z) \<Rightarrow> ('f \<Rightarrow> 'f \<Rightarrow> 'f) \<Rightarrow>
    ('z, 'f) number \<Rightarrow> ('z, 'f) number \<Rightarrow> ar_error + ('z, 'f) number" where
  "ar_promote_both E zop fop n1 n2 =
     sbind (promoteIntNumber E n1) (\<lambda>m1.
     sbind (promoteIntNumber E n2) (\<lambda>m2. ar_big E zop fop m1 m2))"

definition SAME_SIGN :: "int64 \<Rightarrow> int64 \<Rightarrow> bool" where
  "SAME_SIGN i1 i2 \<longleftrightarrow> 0 \<le>s i1 XOR i2"

definition add_overflow :: "int64 \<Rightarrow> int64 \<Rightarrow> bool" where
  "add_overflow a b \<longleftrightarrow> SAME_SIGN a b \<and>
     (if b <s 0 then a <s PLMININT - b else PLMAXINT - a <s b)"

definition pl_ar_add :: "('z, 'f) host \<Rightarrow> ('z, 'f) number \<Rightarrow> ('z, 'f) number \<Rightarrow>
    ar_error + ('z, 'f) number" where
  "pl_ar_add E n1 n2 =
     sbind (same_type_numbers E n1 n2) (\<lambda>(n1, n2).
       case (n1, n2) of
         (V_INTEGER a, V_INTEGER b) \<Rightarrow>
           if add_overflow a b then ar_promote_both E (mpz_add E) (dbl_add E) n1 n2
           else Inr (V_INTEGER (a + b))
       | _ \<Rightarrow> ar_big E (mpz_add E) (dbl_add E) n1 n2)"

definition minus_overflow :: "int64 \<Rightarrow> int64 \<Rightarrow> int64 \<Rightarrow> bool" where
  "minus_overflow a b r \<longleftrightarrow>
     (0 \<le>s a \<and> b <s 0 \<and> r \<le>s 0) \<or> (a <s 0 \<and> 0 <s b \<and> 0 \<le>s r)"

definition ar_minus :: "('z, 'f) host \<Rightarrow> ('z, 'f) number \<Rightarrow> ('z, 'f) number \<Rightarrow>
    ar_error + ('z, 'f) number" where
  "ar_minus E n1 n2 =
     sbind (same_type_numbers E n1 n2) (\<lambda>(n1, n2).
       case (n1, n2) of
         (V_INTEGER a, V_INTEGER b) \<Rightarrow>
           if minus_overflow a b (a - b) then ar_promote_both E (mpz_sub E) (dbl_sub E) n1 n2
           else Inr (V_INTEGER (a - b))
       | _ \<Rightarrow> ar_big E (mpz_sub E) (dbl_sub E) n1 n2)"

definition MU64_SAFE_MAX :: int64 where "MU64_SAFE_MAX = 0x40000000"

definition mul64 :: "int64 \<Rightarrow> int64 \<Rightarrow> int64 option" where
  "mul64 x y =
     (if x = 0 \<or> y = 0 then Some 0
      else
        let (ax, ay, sign) =
          (if 0 <s x then
             if 0 <s y then (x, y, 1) else (x, - y, -1)
           else
             if 0 <s y then (- x, y, -1) else (- x, - y, 1 :: int));
          prod = (if sign < 0 then - (ax * ay) else ax * ay)
        in
        if ax < MU64_SAFE_MAX \<and> ay < MU64_SAFE_MAX then Some prod
        else if \<not> (y = -1 \<and> prod = PLMININT) \<and> c_div prod y = x then Some prod
        else None)"

definition ar_mul :: "('z, 'f) host \<Rightarrow> ('z, 'f) number \<Rightarrow> ('z, 'f) number \<Rightarrow>
    ar_error + ('z, 'f) number" where
  "ar_mul E n1 n2 =
     sbind (same_type_numbers E n1 n2) (\<lambda>(n1, n2).
       case (n1, n2) of
         (V_INTEGER a, V_INTEGER b) \<Rightarrow>
           (case mul64 a b of
              Some p \<Rightarrow> Inr (V_INTEGER p)
            | None \<Rightarrow>
                if o_gmp E then
                  ar_big E (mpz_mul E) (dbl_mul E) (promoteToMPZNumber E n1) (promoteToMPZNumber E n2)
                else Inl ERR_EVALUATION_int_overflow)
       | _ \<Rightarrow> ar_big E (mpz_mul E) (dbl_mul E) n1 n2)"

definition ar_u_minus :: "('z, 'f) host \<Rightarrow> ('z, 'f) number \<Rightarrow> ar_error + ('z, 'f) number" where
  "ar_u_minus E n1 = (case n1 of
     V_INTEGER i \<Rightarrow>
       if i = PLMININT then
         if o_gmp E then Inr (V_MPZ (mpz_neg E (mpz_of_int64 E i)))
         else Inr (V_FLOAT (dbl_neg E (dbl_of_int64 E i)))
       else Inr (V_INTEGER (- i))
   | V_MPZ z \<Rightarrow> Inr (V_MPZ (mpz_neg E z))
   | V_FLOAT f \<Rightarrow> Inr (V_FLOAT (dbl_neg E f)))"

definition dbl_abs :: "('z, 'f) host \<Rightarrow> 'f \<Rightarrow> 'f" where
  "dbl_abs E f = (if dbl_signbit E f then dbl_neg E f else f)"

definition ar_abs :: "('z, 'f) host \<Rightarrow> ('z, 'f) number \<Rightarrow> ar_error + ('z, 'f) number" where
  "ar_abs E n1 = (case n1 of
     V_INTEGER i \<Rightarrow>
       if i = PLMININT then
         if o_gmp E then Inr (V_MPZ (mpz_abs E (mpz_of_int64 E i)))
         else Inr (V_FLOAT (dbl_abs E (dbl_of_int64 E i)))
       else Inr (V_INTEGER (if i <s 0 then - i else i))
   | V_MPZ z \<Rightarrow> Inr (V_MPZ (mpz_abs E z))
   | V_FLOAT f \<Rightarrow> Inr (V_FLOAT (dbl_abs E f)))"

text \<open>
  \<^theory_text>\<open>ar_add_ui\<close> adds an \<^theory_text>\<open>intptr_t\<close>; on GMP integers the addend passes through \<^theory_text>\<open>unsigned long\<close>.
\<close>

definition as_ulong :: "('z, 'f) host \<Rightarrow> int64 \<Rightarrow> nat" where
  "as_ulong E w = nat (take_bit (long_bits E) (sint w))"

definition add_ui_big :: "('z, 'f) host \<Rightarrow> ('z, 'f) number \<Rightarrow> int64 \<Rightarrow>
    ar_error + ('z, 'f) number" where
  "add_ui_big E n add = (case n of
     V_INTEGER _ \<Rightarrow> Inl ASSERT_0
   | V_MPZ z \<Rightarrow> Inr (V_MPZ (if 0 <s add then mpz_add_ui E z (as_ulong E add)
                             else mpz_sub_ui E z (as_ulong E (- add))))
   | V_FLOAT f \<Rightarrow> check_float E (dbl_add E f (dbl_of_int64 E add)))"

definition ar_add_ui :: "('z, 'f) host \<Rightarrow> ('z, 'f) number \<Rightarrow> int64 \<Rightarrow>
    ar_error + ('z, 'f) number" where
  "ar_add_ui E n add = (case n of
     V_INTEGER i \<Rightarrow>
       let r = i + add in
       if (r <s 0 \<and> 0 <s add \<and> 0 <s i) \<or> (0 <s r \<and> add <s 0 \<and> i <s 0)
       then sbind (promoteIntNumber E n) (\<lambda>m. add_ui_big E m add)
       else Inr (V_INTEGER r)
   | _ \<Rightarrow> add_ui_big E n add)"

section \<open>Sign\<close>

definition ar_sign_i :: "('z, 'f) host \<Rightarrow> ('z, 'f) number \<Rightarrow> int" where
  "ar_sign_i E n = (case n of
     V_INTEGER i \<Rightarrow> if i <s 0 then -1 else if 0 <s i then 1 else 0
   | V_MPZ z \<Rightarrow> mpz_sgn E z
   | V_FLOAT _ \<Rightarrow> 0)"

definition ar_sign :: "('z, 'f) host \<Rightarrow> ('z, 'f) number \<Rightarrow> ('z, 'f) number" where
  "ar_sign E n = (case n of
     V_FLOAT f \<Rightarrow>
       V_FLOAT (if dbl_lt E f (dbl_of_int64 E 0) then dbl_of_int64 E (-1)
                else if dbl_lt E (dbl_of_int64 E 0) f then dbl_of_int64 E 1
                else dbl_of_int64 E 0)
   | _ \<Rightarrow> V_INTEGER (word_of_int (ar_sign_i E n)))"

definition ar_signbit :: "('z, 'f) host \<Rightarrow> ('z, 'f) number \<Rightarrow> int" where
  "ar_signbit E n = (case n of
     V_INTEGER i \<Rightarrow> if i <s 0 then -1 else 1
   | V_MPZ z \<Rightarrow> if mpz_sgn E z < 0 then -1 else 1
   | V_FLOAT f \<Rightarrow> if dbl_signbit E f then -1 else 1)"

definition ar_copysign :: "('z, 'f) host \<Rightarrow> ('z, 'f) number \<Rightarrow> ('z, 'f) number \<Rightarrow>
    ar_error + ('z, 'f) number" where
  "ar_copysign E n1 n2 = (case (n1, n2) of
     (V_FLOAT a, V_FLOAT b) \<Rightarrow> Inr (V_FLOAT (dbl_copysign E a b))
   | _ \<Rightarrow> if ar_signbit E n1 \<noteq> ar_signbit E n2 then ar_u_minus E n1 else Inr n1)"

section \<open>Division\<close>

definition mod64 :: "int64 \<Rightarrow> int64 \<Rightarrow> int64" where
  "mod64 x y =
     (let r = c_rem x y in if r \<noteq> 0 \<and> (r <s 0) \<noteq> (y <s 0) then r + y else r)"

definition ar_divmod_big :: "('z, 'f) host \<Rightarrow> ('z \<Rightarrow> 'z \<Rightarrow> 'z) \<Rightarrow> ('z, 'f) number \<Rightarrow>
    ('z, 'f) number \<Rightarrow> ar_error + ('z, 'f) number" where
  "ar_divmod_big E zop n1 n2 = (case (n1, n2) of
     (V_MPZ a, V_MPZ b) \<Rightarrow>
       if mpz_sgn E b = 0 then Inl ERR_DIV_BY_ZERO else Inr (V_MPZ (zop a b))
   | _ \<Rightarrow> Inl ASSERT_0)"

definition ar_mod :: "('z, 'f) host \<Rightarrow> ('z, 'f) number \<Rightarrow> ('z, 'f) number \<Rightarrow>
    ar_error + ('z, 'f) number" where
  "ar_mod E n1 n2 =
     sbind (need_integers E n1 n2) (\<lambda>(n1, n2).
     sbind (same_type_numbers E n1 n2) (\<lambda>(n1, n2).
       case (n1, n2) of
         (V_INTEGER a, V_INTEGER b) \<Rightarrow>
           if b = 0 then Inl ERR_DIV_BY_ZERO
           else Inr (V_INTEGER (if b \<noteq> -1 \<or> a \<noteq> PLMININT then mod64 a b else 0))
       | _ \<Rightarrow> ar_divmod_big E (mpz_fdiv_r E) n1 n2))"

definition ar_rem :: "('z, 'f) host \<Rightarrow> ('z, 'f) number \<Rightarrow> ('z, 'f) number \<Rightarrow>
    ar_error + ('z, 'f) number" where
  "ar_rem E n1 n2 =
     sbind (need_integers E n1 n2) (\<lambda>(n1, n2).
     sbind (same_type_numbers E n1 n2) (\<lambda>(n1, n2).
       case (n1, n2) of
         (V_INTEGER a, V_INTEGER b) \<Rightarrow>
           if b = 0 then Inl ERR_DIV_BY_ZERO
           else Inr (V_INTEGER (if b \<noteq> -1 \<or> a \<noteq> PLMININT then c_rem a b else 0))
       | _ \<Rightarrow> ar_divmod_big E (mpz_tdiv_r E) n1 n2))"

text \<open>
  The tail of \<^theory_text>\<open>ar_tdiv\<close> and \<^theory_text>\<open>ar_div\<close>: on GMP integers, or the overflow error without GMP.
\<close>

definition ar_div_tail :: "('z, 'f) host \<Rightarrow> ('z \<Rightarrow> 'z \<Rightarrow> 'z) \<Rightarrow> ('z, 'f) number \<Rightarrow>
    ('z, 'f) number \<Rightarrow> ar_error + ('z, 'f) number" where
  "ar_div_tail E zop n1 n2 =
     (if o_gmp E then ar_divmod_big E zop (promoteToMPZNumber E n1) (promoteToMPZNumber E n2)
      else Inl ERR_EVALUATION_int_overflow)"

definition ar_tdiv :: "('z, 'f) host \<Rightarrow> ('z, 'f) number \<Rightarrow> ('z, 'f) number \<Rightarrow>
    ar_error + ('z, 'f) number" where
  "ar_tdiv E n1 n2 =
     sbind (need_integers E n1 n2) (\<lambda>(n1, n2).
       case (n1, n2) of
         (V_INTEGER a, V_INTEGER b) \<Rightarrow>
           if b = 0 then Inl ERR_DIV_BY_ZERO
           else if \<not> (b = -1 \<and> a = PLMININT) then Inr (V_INTEGER (c_div a b))
           else ar_div_tail E (mpz_tdiv_q E) n1 n2
       | _ \<Rightarrow> ar_div_tail E (mpz_tdiv_q E) n1 n2)"

definition floor_div64 :: "int64 \<Rightarrow> int64 \<Rightarrow> int64" where
  "floor_div64 a b =
     (let q = c_div a b in if (0 <s a) \<noteq> (0 <s b) \<and> c_rem a b \<noteq> 0 then q - 1 else q)"

definition ar_div :: "('z, 'f) host \<Rightarrow> ('z, 'f) number \<Rightarrow> ('z, 'f) number \<Rightarrow>
    ar_error + ('z, 'f) number" where
  "ar_div E n1 n2 =
     sbind (need_integers E n1 n2) (\<lambda>(n1, n2).
       case (n1, n2) of
         (V_INTEGER a, V_INTEGER b) \<Rightarrow>
           if b = 0 then Inl ERR_DIV_BY_ZERO
           else if \<not> (b = -1 \<and> a = PLMININT) then
             Inr (V_INTEGER (floor_div64 a b))
           else ar_div_tail E (mpz_fdiv_q E) n1 n2
       | _ \<Rightarrow> ar_div_tail E (mpz_fdiv_q E) n1 n2)"

lemma c_rem_smaller: "b \<noteq> 0 \<Longrightarrow> nat \<bar>sint (c_rem a b)\<bar> < nat \<bar>sint (b::int64)\<bar>"
proof -
  assume "b \<noteq> 0"
  then have b: "sint b \<noteq> 0" by simp
  then have "\<bar>sint a smod sint b\<bar> < \<bar>sint b\<bar>" using smod_bound by blast
  with b show ?thesis using sint_range64 [of b]
    by (simp add: c_rem_def sint_of_int64)
qed

function gcd_loop :: "int64 \<Rightarrow> int64 \<Rightarrow> int64" where
  "gcd_loop a b = (if b \<noteq> 0 then gcd_loop b (c_rem a b) else a)"
  by pat_completeness auto
termination
  by (relation "measure (\<lambda>(a, b). nat \<bar>sint b\<bar>)") (use c_rem_smaller in auto)

declare gcd_loop.simps [simp del]

definition ar_gcd :: "('z, 'f) host \<Rightarrow> ('z, 'f) number \<Rightarrow> ('z, 'f) number \<Rightarrow>
    ar_error + ('z, 'f) number" where
  "ar_gcd E n1 n2 =
     sbind (need_integers E n1 n2) (\<lambda>(n1, n2).
     sbind (same_type_numbers E n1 n2) (\<lambda>(n1, n2).
       let gmp = (\<lambda>n1 n2. case (n1, n2) of
                 (V_MPZ a, V_MPZ b) \<Rightarrow> Inr (V_MPZ (mpz_gcd E a b)) | _ \<Rightarrow> Inl ASSERT_0);
           promote = (if o_gmp E then gmp (promoteToMPZNumber E n1) (promoteToMPZNumber E n2)
                      else Inl ERR_EVALUATION_int_overflow) in
       case (n1, n2) of
         (V_INTEGER a, V_INTEGER b) \<Rightarrow>
           let a' = (if a <s 0 then - a else a); b' = (if b <s 0 then - b else b) in
           if a' <s 0 then promote
           else if b' <s 0 then promote
           else Inr (V_INTEGER (gcd_loop a' b'))
       | _ \<Rightarrow> gmp n1 n2))"

section \<open>Bits\<close>

definition msb_step :: "int64 \<Rightarrow> nat \<Rightarrow> int64 \<times> int \<Rightarrow> int64 \<times> int" where
  "msb_step bound k ij = (let (i, j) = ij in
     if bound \<le>s i then (signed_drop_bit k i, j + int k) else (i, j))"

definition MSB64 :: "int64 \<Rightarrow> int" where
  "MSB64 i =
     (let s1 = msb_step 0x100000000 32 (i, 0);
          s2 = msb_step 0x10000 16 s1;
          s3 = msb_step 0x100 8 s2;
          s4 = msb_step 0x10 4 s3;
          (i5, j5) = msb_step 0x4 2 s4
      in if 2 \<le>s i5 then j5 + 1 else j5)"

definition lsb_step :: "int64 \<Rightarrow> nat \<Rightarrow> int64 \<times> int \<Rightarrow> int64 \<times> int" where
  "lsb_step m k ij = (let (i, j) = ij in
     if i AND m = 0 then (signed_drop_bit k i, j + int k) else (i, j))"

definition lsb64 :: "int64 \<Rightarrow> int" where
  "lsb64 i =
     (if i = 0 then 0
      else
        let s1 = lsb_step 0xffffffff 32 (i, 0);
            s2 = lsb_step 0xffff 16 s1;
            s3 = lsb_step 0xff 8 s2;
            s4 = lsb_step 0xf 4 s3;
            (i5, j5) = lsb_step 0x3 2 s4
        in if i5 AND 1 = 0 then j5 + 1 else j5)"

text \<open>The portable loop of \<^theory_text>\<open>my_popcount64\<close>, one round per bit of the mask.\<close>

fun popcount_loop :: "int64 \<Rightarrow> nat \<Rightarrow> int64 \<Rightarrow> int \<Rightarrow> int" where
  "popcount_loop i 0 m c = c"
| "popcount_loop i (Suc k) m c =
     popcount_loop i k (push_bit 1 m) (if i AND m \<noteq> 0 then c + 1 else c)"

definition my_popcount64 :: "int64 \<Rightarrow> int" where
  "my_popcount64 i = popcount_loop i 64 1 0"

definition ar_negation :: "('z, 'f) host \<Rightarrow> ('z, 'f) number \<Rightarrow> ar_error + ('z, 'f) number" where
  "ar_negation E n1 = sbind (need_integer E n1) (\<lambda>n. case n of
     V_INTEGER i \<Rightarrow> Inr (V_INTEGER (NOT i))
   | V_MPZ z \<Rightarrow> Inr (V_MPZ (mpz_com E z))
   | V_FLOAT _ \<Rightarrow> Inl ASSERT_0)"

definition ar_msb :: "('z, 'f) host \<Rightarrow> ('z, 'f) number \<Rightarrow> ar_error + ('z, 'f) number" where
  "ar_msb E n1 = sbind (need_integer E n1) (\<lambda>n. case n of
     V_INTEGER i \<Rightarrow>
       if i \<le>s 0 then Inl ERR_DOMAIN_not_less_than_one
       else Inr (V_INTEGER (word_of_int (MSB64 i)))
   | V_MPZ z \<Rightarrow>
       if mpz_sgn E z \<le> 0 then Inl ERR_DOMAIN_not_less_than_one
       else Inr (V_INTEGER (of_nat (mpz_sizeinbase_2 E z) - 1))
   | V_FLOAT _ \<Rightarrow> Inl ASSERT_0)"

definition ar_lsb :: "('z, 'f) host \<Rightarrow> ('z, 'f) number \<Rightarrow> ar_error + ('z, 'f) number" where
  "ar_lsb E n1 = sbind (need_integer E n1) (\<lambda>n. case n of
     V_INTEGER i \<Rightarrow>
       if i \<le>s 0 then Inl ERR_DOMAIN_not_less_than_one
       else Inr (V_INTEGER (word_of_int (lsb64 i)))
   | V_MPZ z \<Rightarrow>
       if mpz_sgn E z \<le> 0 then Inl ERR_DOMAIN_not_less_than_one
       else Inr (V_INTEGER (of_nat (mpz_scan1_0 E z)))
   | V_FLOAT _ \<Rightarrow> Inl ASSERT_0)"

definition ar_popcount :: "('z, 'f) host \<Rightarrow> ('z, 'f) number \<Rightarrow> ar_error + ('z, 'f) number" where
  "ar_popcount E n1 = sbind (need_integer E n1) (\<lambda>n. case n of
     V_INTEGER i \<Rightarrow>
       if i <s 0 then Inl ERR_DOMAIN_not_less_than_zero
       else Inr (V_INTEGER (word_of_int (my_popcount64 i)))
   | V_MPZ z \<Rightarrow>
       if mpz_sgn E z < 0 then Inl ERR_DOMAIN_not_less_than_zero
       else Inr (V_INTEGER (of_nat (mpz_popcount E z)))
   | V_FLOAT _ \<Rightarrow> Inl ASSERT_0)"

text \<open>
  \<^theory_text>\<open>ar_getbit\<close>: the bit index as an \<^theory_text>\<open>unsigned long\<close>; an index that \<^theory_text>\<open>unsigned long\<close> or the
  64-bit integer cannot hold gives 0.
\<close>

definition getbit_index :: "('z, 'f) host \<Rightarrow> ('z, 'f) number \<Rightarrow> ar_error + nat option" where
  "getbit_index E K = (case K of
     V_INTEGER k \<Rightarrow>
       if k <s 0 then Inl ERR_DOMAIN_not_less_than_zero
       else if long_bits E < 64 \<and> 2 ^ long_bits E - 1 < sint k then Inr None
       else Inr (Some (unat k))
   | V_MPZ z \<Rightarrow>
       if mpz_sgn E z < 0 then Inl ERR_DOMAIN_not_less_than_zero
       else if 0 < mpz_cmp_ui E z (2 ^ long_bits E - 1) then Inr None
       else Inr (Some (mpz_get_ui E z))
   | V_FLOAT _ \<Rightarrow> Inl ASSERT_0)"

definition ar_getbit :: "('z, 'f) host \<Rightarrow> ('z, 'f) number \<Rightarrow> ('z, 'f) number \<Rightarrow>
    ar_error + ('z, 'f) number" where
  "ar_getbit E I K =
     sbind (need_integers E I K) (\<lambda>(I, K).
     sbind (getbit_index E K) (\<lambda>b. case b of
         None \<Rightarrow> Inr (V_INTEGER 0)
       | Some k \<Rightarrow>
         (case I of
            V_INTEGER i \<Rightarrow>
              if i <s 0 then Inl ERR_DOMAIN_not_less_than_zero
              else if 64 \<le> k then Inr (V_INTEGER 0)
              else Inr (V_INTEGER (if i AND push_bit k 1 \<noteq> 0 then 1 else 0))
          | V_MPZ z \<Rightarrow>
              if mpz_sgn E z < 0 then Inl ERR_DOMAIN_not_less_than_zero
              else Inr (V_INTEGER (if mpz_tstbit E z k then 1 else 0))
          | V_FLOAT _ \<Rightarrow> Inl ASSERT_0)))"

section \<open>Shifts\<close>

text \<open>
  The direction is -1 for a left and 1 for a right shift. The amount is a \<^theory_text>\<open>long\<close>; C leaves a shift
  of a 64-bit integer by an amount outside 0..63 undefined.
\<close>

definition shift_to_far :: "('z, 'f) host \<Rightarrow> ('z, 'f) number \<Rightarrow> int \<Rightarrow>
    ar_error + ('z, 'f) number" where
  "shift_to_far E shift dir =
     (if ar_sign_i E shift * dir < 0 then Inl ERR_RESOURCE_global else Inr (V_INTEGER 0))"

definition LONG_MIN :: "('z, 'f) host \<Rightarrow> int" where
  "LONG_MIN E = - (2 ^ (long_bits E - 1))"

definition LONG_MAX :: "('z, 'f) host \<Rightarrow> int" where
  "LONG_MAX E = 2 ^ (long_bits E - 1) - 1"

definition shift_amount :: "('z, 'f) host \<Rightarrow> ('z, 'f) number \<Rightarrow> int option" where
  "shift_amount E n2 = (case n2 of
     V_INTEGER i \<Rightarrow>
       if sint i < LONG_MIN E \<or> LONG_MAX E < sint i then None else Some (sint i)
   | V_MPZ z \<Rightarrow>
       if mpz_cmp_si E z (LONG_MIN E) < 0 \<or> 0 < mpz_cmp_si E z (LONG_MAX E) then None
       else Some (mpz_get_si E z)
   | V_FLOAT _ \<Rightarrow> None)"

definition c_shl64 :: "int64 \<Rightarrow> int \<Rightarrow> ar_error + ('z, 'f) number" where
  "c_shl64 i shift =
     (if 0 \<le> shift \<and> shift < 64 then Inr (V_INTEGER (push_bit (nat shift) i)) else Inl C_UNDEFINED)"

definition c_shr64 :: "int64 \<Rightarrow> int \<Rightarrow> ar_error + ('z, 'f) number" where
  "c_shr64 i shift =
     (if 0 \<le> shift \<and> shift < 64 then Inr (V_INTEGER (signed_drop_bit (nat shift) i))
      else Inl C_UNDEFINED)"

definition shift_mpz :: "('z, 'f) host \<Rightarrow> 'z \<Rightarrow> int \<Rightarrow> int \<Rightarrow> ar_error + ('z, 'f) number" where
  "shift_mpz E z shift dir =
     (let amount = nat (take_bit (long_bits E) shift) in
      if dir < 0 then
        if global_limit E < mpz_sizeinbase_2 E z + amount then Inl ERR_RESOURCE_global
        else Inr (V_MPZ (mpz_mul_2exp E z amount))
      else Inr (V_MPZ (mpz_fdiv_q_2exp E z amount)))"

text \<open>The number of bits of the shifted value, in an \<^theory_text>\<open>int\<close>.\<close>

definition shift_bits :: "int64 \<Rightarrow> int \<Rightarrow> cint" where
  "shift_bits i shift =
     word_of_int shift + word_of_int
       (if 0 \<le>s i then MSB64 i else if i = PLMININT then 64 else MSB64 (- i))"

definition shift_int64 :: "('z, 'f) host \<Rightarrow> int64 \<Rightarrow> int \<Rightarrow> int \<Rightarrow> ar_error + ('z, 'f) number" where
  "shift_int64 E i shift dir =
     (if dir < 0 then
        if o_gmp E \<and> 63 \<le>s shift_bits i shift then shift_mpz E (mpz_of_int64 E i) shift dir
        else c_shl64 i shift
      else if 64 \<le> shift then Inr (V_INTEGER (if 0 \<le>s i then 0 else -1))
      else c_shr64 i shift)"

definition ar_shift :: "('z, 'f) host \<Rightarrow> ('z, 'f) number \<Rightarrow> ('z, 'f) number \<Rightarrow> int \<Rightarrow>
    ar_error + ('z, 'f) number" where
  "ar_shift E n1 n2 dir =
     sbind (need_integers E n1 n2) (\<lambda>(n1, n2).
       case shift_amount E n2 of
         None \<Rightarrow> shift_to_far E n2 dir
       | Some amount \<Rightarrow>
           let (shift, dir') =
             (if amount < 0 then (signed_take_bit (long_bits E - 1) (- amount), - dir)
              else (amount, dir)) in
           (case n1 of
              V_INTEGER i \<Rightarrow> shift_int64 E i shift dir'
            | V_MPZ z \<Rightarrow> shift_mpz E z shift dir'
            | V_FLOAT _ \<Rightarrow> Inl ASSERT_0))"

definition ar_shift_left :: "('z, 'f) host \<Rightarrow> ('z, 'f) number \<Rightarrow> ('z, 'f) number \<Rightarrow>
    ar_error + ('z, 'f) number" where
  "ar_shift_left E n1 n2 = ar_shift E n1 n2 (-1)"

definition ar_shift_right :: "('z, 'f) host \<Rightarrow> ('z, 'f) number \<Rightarrow> ('z, 'f) number \<Rightarrow>
    ar_error + ('z, 'f) number" where
  "ar_shift_right E n1 n2 = ar_shift E n1 n2 1"

lemmas signed_cmp = word_sless_alt word_sle_eq

section \<open>The 64-bit branches\<close>

lemma sint_PLMIN [simp]: "sint PLMININT = - (2 ^ 63)" "sint PLMAXINT = 2 ^ 63 - 1"
  by (simp_all add: PLMININT_def PLMAXINT_def)

lemma sint_eq_PLMIN: "a = PLMININT \<longleftrightarrow> sint a = - (2 ^ 63)"
  by (metis sint_PLMIN(1) signed_word_eqI)

lemma sint_eq_m1: "sint (y::int64) = -1 \<longleftrightarrow> y = -1"
  by (metis signed_minus_1 signed_word_eqI)

text \<open>The integers of 64 bits, and the exactness of the word operations on them.\<close>

lemma same_sign: "SAME_SIGN a b \<longleftrightarrow> (sint a < 0 \<longleftrightarrow> sint b < 0)"
  using bit_last_iff [of "a XOR b"] bit_last_iff [of a] bit_last_iff [of b]
  by (auto simp: SAME_SIGN_def signed_cmp bit_xor_iff not_less simp flip: not_less)

definition fits64 :: "int \<Rightarrow> bool" where
  "fits64 x \<longleftrightarrow> - (2 ^ 63) \<le> x \<and> x < 2 ^ 63"

lemma fits_sint [simp]: "fits64 (sint (a::int64))"
  using sint_range64 [of a] by (simp add: fits64_def)

lemma sint_fits: "fits64 i \<Longrightarrow> sint (word_of_int i :: int64) = i"
  unfolding fits64_def by (rule sint_of_int64) simp_all

lemma sint_arith:
  "fits64 (sint a + sint b) \<Longrightarrow> sint (a + b) = sint a + sint (b::int64)"
  "fits64 (sint a - sint b) \<Longrightarrow> sint (a - b) = sint a - sint (b::int64)"
  "fits64 (sint a * sint b) \<Longrightarrow> sint (a * b) = sint a * sint (b::int64)"
  "fits64 (- sint a) \<Longrightarrow> sint (- a) = - sint a"
  by (simp_all add: fits64_def sint_word_ariths signed_take_bit_int_eq_self)

lemma add_overflow_iff: "add_overflow a b \<longleftrightarrow> \<not> fits64 (sint a + sint b)"
  using sint_range64 [of a] sint_range64 [of b]
  by (auto simp: add_overflow_def same_sign signed_cmp sint_arith fits64_def)

lemma mod_shift: "0 \<le> x + k * m \<Longrightarrow> x + k * m < m \<Longrightarrow> x mod m = x + k * (m::int)"
  by (metis mod_mult_self1 mod_pos_pos_trivial)

lemma sint_wrap:
  assumes "- (3 * 2 ^ 63) \<le> x" "x < 3 * 2 ^ 63"
  shows "sint (word_of_int x :: int64) =
    (if x < - (2 ^ 63) then x + 2 ^ 64 else if 2 ^ 63 \<le> x then x - 2 ^ 64 else x)"
  using mod_shift [of "x + 2 ^ 63" 1 "2 ^ 64"] mod_shift [of "x + 2 ^ 63" 0 "2 ^ 64"]
    mod_shift [of "x + 2 ^ 63" "- 1" "2 ^ 64"] assms
  by (auto simp: int_word_sint)

lemma sint_sub_wrap:
  "sint (a - b) = (if sint a - sint b < - (2 ^ 63) then sint a - sint b + 2 ^ 64
    else if 2 ^ 63 \<le> sint a - sint (b::int64) then sint a - sint b - 2 ^ 64 else sint a - sint b)"
proof -
  have "a - b = word_of_int (sint a - sint b)" by simp
  then show ?thesis using sint_range64 [of a] sint_range64 [of b] sint_wrap [of "sint a - sint b"]
    by simp
qed

lemma minus_overflow_iff: "minus_overflow a b (a - b) \<longleftrightarrow> \<not> fits64 (sint a - sint b)"
  using sint_range64 [of a] sint_range64 [of b] sint_sub_wrap [of a b]
  by (auto simp: minus_overflow_def signed_cmp fits64_def)


lemma smod_sdiv: "\<bar>(p::int) - (p sdiv y) * y\<bar> < \<bar>y\<bar>" if "y \<noteq> 0"
  using smod_bound [OF that, of p] by (simp add: minus_sdiv_mult_eq_smod)


lemma mult_sdiv_cancel: "y \<noteq> 0 \<Longrightarrow> (x * y) sdiv y = (x::int)"
  using mult_sdiv_smod_eq [of y "x * y"] by (simp add: signed_modulo_int_def abs_mult)

lemma sdiv_half: "2 \<le> \<bar>y\<bar> \<Longrightarrow> \<bar>p sdiv y\<bar> \<le> \<bar>p\<bar> div (2::int)"
  using zdiv_mono2 [of "\<bar>p\<bar>" 2 "\<bar>y\<bar>"]
  by (auto simp: signed_divide_int_def abs_mult sgn_if pos_imp_zdiv_nonneg_iff)

lemma sdiv_range:
  assumes "fits64 p" "\<not> (y = -1 \<and> p = - (2 ^ 63))"
  shows "fits64 ((p::int) sdiv y)"
proof (cases "2 \<le> \<bar>y\<bar>")
  case True
  from sdiv_half [OF this, of p] show ?thesis using assms(1) by (auto simp: fits64_def)
next
  case False
  then have "y = 0 \<or> y = 1 \<or> y = -1" by auto
  then show ?thesis using assms by (auto simp: fits64_def)
qed

lemma abs_word: "uint (if 0 <s x then x else - x) = \<bar>sint (x::int64)\<bar>"
proof (cases "0 <s x")
  case True
  then show ?thesis using sint_nonneg [of x] by (simp add: signed_cmp)
next
  case False
  have "uint (word_of_int k :: int64) = k mod 2 ^ 64" for k by (simp add: uint_word_of_int)
  from this [of "- sint x"] have "uint (- x) = - sint x mod 2 ^ 64" by simp
  with False show ?thesis using sint_range64 [of x] by (simp add: signed_cmp)
qed

lemma mul64_iff:
  "mul64 x y = (if fits64 (sint x * sint y) then Some (x * y) else None)"
proof (cases "x = 0 \<or> y = 0")
  case True
  then show ?thesis by (auto simp: mul64_def fits64_def)
next
  case nz: False
  define p where "p = sint (x * y)"
  define ax ay where "ax = (if 0 <s x then x else - x)" "ay = (if 0 <s y then y else - y)"
  have mul: "mul64 x y = (if ax < MU64_SAFE_MAX \<and> ay < MU64_SAFE_MAX then Some (x * y)
      else if \<not> (y = -1 \<and> x * y = PLMININT) \<and> c_div (x * y) y = x then Some (x * y) else None)"
    using nz by (auto simp: mul64_def ax_ay_def Let_def)
  have small: "fits64 (sint x * sint y)" if "ax < MU64_SAFE_MAX" "ay < MU64_SAFE_MAX"
  proof -
    have "\<bar>sint x\<bar> < 2 ^ 30" "\<bar>sint y\<bar> < 2 ^ 30"
      using that abs_word [of x] abs_word [of y] 
      by (simp_all add: ax_ay_def MU64_SAFE_MAX_def word_less_def)
    then have "\<bar>sint x\<bar> * \<bar>sint y\<bar> < 2 ^ 30 * 2 ^ 30"
      by (intro mult_strict_mono') auto
    then have "\<bar>sint x * sint y\<bar> < 2 ^ 60" by (simp add: abs_mult)
    then show ?thesis by (simp add: fits64_def abs_less_iff)
  qed
  show ?thesis
  proof (cases "fits64 (sint x * sint y)")
    case True
    have p: "p = sint x * sint y" unfolding p_def by (rule sint_arith(3) [OF True])
    then have "c_div (x * y) y = x" using nz by (simp add: c_div_def mult_sdiv_cancel flip: p_def)
    moreover have "\<not> (y = -1 \<and> x * y = PLMININT)"
      using p sint_range64 [of x] by (auto simp: sint_eq_PLMIN p_def)
    ultimately show ?thesis using True by (simp add: mul)
  next
    case False
    have "c_div (x * y) y \<noteq> x" if n: "\<not> (y = -1 \<and> x * y = PLMININT)"
    proof
      assume c: "c_div (x * y) y = x"
      have f: "fits64 (p sdiv sint y)"
        using n by (intro sdiv_range) (metis p_def fits_sint, metis p_def sint_eq_PLMIN sint_eq_m1)
      then have "p sdiv sint y = sint x" using c by (metis c_div_def p_def sint_fits)
      then have "\<bar>p - sint x * sint y\<bar> < \<bar>sint y\<bar>" using smod_sdiv [of "sint y" p] nz by simp
      then have "\<bar>p - sint x * sint y\<bar> < 2 ^ 64" using sint_range64 [of y] by auto
      moreover have "2 ^ 64 dvd p - sint x * sint y"
      proof -
        have "(word_of_int p :: int64) = word_of_int (sint x * sint y)" by (simp add: p_def)
        then have "take_bit 64 p = take_bit 64 (sint x * sint y)"
          by (simp only: word_of_int_eq_iff) simp
        then show ?thesis by (simp add: take_bit_eq_mod mod_eq_dvd_iff)
      qed
      ultimately have "sint x * sint y = p"
        using dvd_imp_le_int [of "p - sint x * sint y" "2 ^ 64"] by linarith
      then show False using False by (simp add: p_def)
    qed
    then show ?thesis using False small by (auto simp: mul)
  qed
qed

lemma gcd_loop_gcd: "0 \<le>s a \<Longrightarrow> 0 \<le>s b \<Longrightarrow> sint (gcd_loop a b) = gcd (sint a) (sint b)"
proof (induction a b rule: gcd_loop.induct)
  case (1 a b)
  show ?case
  proof (cases "b = 0")
    case True
    with 1 show ?thesis by (simp add: gcd_loop.simps signed_cmp)
  next
    case False
    have b: "0 < sint b" using 1 False by (simp add: signed_cmp order_less_le)
    have r: "sint a smod sint b = sint a mod sint b" using b 1 by (simp add: smod_mod_positive signed_cmp)
    have m: "sint a mod sint b < sint b" "0 \<le> sint a mod sint b" using b by simp_all
    then have s: "sint (c_rem a b) = sint a mod sint b" using sint_range64 [of b]
      by (simp add: c_rem_def r sint_of_int64)
    show ?thesis using 1 False s m
      by (subst gcd_loop.simps) (simp add: signed_cmp gcd_red_int [of "sint a"] )
  qed
qed


section \<open>Exactness with GMP\<close>

text \<open>The documented behaviour of the GMP functions the code calls, over the integer a GMP number stands for.\<close>

definition mpz_laws :: "('z, 'f) host \<Rightarrow> ('z \<Rightarrow> int) \<Rightarrow> bool" where
  "mpz_laws E val \<longleftrightarrow>
     (\<forall>i. val (mpz_of_int64 E i) = sint i) \<and>
     (\<forall>a b. val (mpz_add E a b) = val a + val b) \<and>
     (\<forall>a b. val (mpz_sub E a b) = val a - val b) \<and>
     (\<forall>a b. val (mpz_mul E a b) = val a * val b) \<and>
     (\<forall>a. val (mpz_neg E a) = - val a) \<and>
     (\<forall>a. val (mpz_com E a) = - val a - 1) \<and>
     (\<forall>a. val (mpz_abs E a) = \<bar>val a\<bar>) \<and>
     (\<forall>a b. val b \<noteq> 0 \<longrightarrow> val (mpz_tdiv_q E a b) = val a sdiv val b) \<and>
     (\<forall>a b. val b \<noteq> 0 \<longrightarrow> val (mpz_tdiv_r E a b) = val a smod val b) \<and>
     (\<forall>a b. val b \<noteq> 0 \<longrightarrow> val (mpz_fdiv_q E a b) = val a div val b) \<and>
     (\<forall>a b. val b \<noteq> 0 \<longrightarrow> val (mpz_fdiv_r E a b) = val a mod val b) \<and>
     (\<forall>a b. val (mpz_gcd E a b) = gcd (val a) (val b)) \<and>
     (\<forall>a n. val (mpz_mul_2exp E a n) = val a * 2 ^ n) \<and>
     (\<forall>a n. val (mpz_fdiv_q_2exp E a n) = val a div 2 ^ n) \<and>
     (\<forall>a. mpz_sgn E a = sgn (val a)) \<and>
     (\<forall>a k. sgn (mpz_cmp_si E a k) = sgn (val a - k)) \<and>
     (\<forall>a. LONG_MIN E \<le> val a \<and> val a \<le> LONG_MAX E \<longrightarrow> mpz_get_si E a = val a) \<and>
     (\<forall>a b. sgn (mpz_cmp E a b) = sgn (val a - val b))"

lemma mpz_lawsD:
  assumes "mpz_laws E val"
  shows "val (mpz_of_int64 E i) = sint i"
    "val (mpz_add E a b) = val a + val b" "val (mpz_sub E a b) = val a - val b"
    "val (mpz_mul E a b) = val a * val b" "val (mpz_neg E a) = - val a"
    "val (mpz_com E a) = - val a - 1" "val (mpz_abs E a) = \<bar>val a\<bar>"
    "val (mpz_gcd E a b) = gcd (val a) (val b)"
    "val (mpz_mul_2exp E a n) = val a * 2 ^ n" "val (mpz_fdiv_q_2exp E a n) = val a div 2 ^ n"
    "mpz_sgn E a = sgn (val a)"
    "sgn (mpz_cmp E a b) = sgn (val a - val b)"
    "sgn (mpz_cmp_si E a k) = sgn (val a - k)"
    "LONG_MIN E \<le> val a \<Longrightarrow> val a \<le> LONG_MAX E \<Longrightarrow> mpz_get_si E a = val a"
  using assms by (simp_all add: mpz_laws_def)

lemma mpz_laws_divD:
  assumes "mpz_laws E val" "val b \<noteq> 0"
  shows "val (mpz_tdiv_q E a b) = val a sdiv val b" "val (mpz_tdiv_r E a b) = val a smod val b"
    "val (mpz_fdiv_q E a b) = val a div val b" "val (mpz_fdiv_r E a b) = val a mod val b"
  using assms by (simp_all add: mpz_laws_def)

definition int_value :: "('z \<Rightarrow> int) \<Rightarrow> ('z, 'f) number \<Rightarrow> int option" where
  "int_value val n = (case n of V_INTEGER i \<Rightarrow> Some (sint i) | V_MPZ z \<Rightarrow> Some (val z) | V_FLOAT _ \<Rightarrow> None)"

lemma int_value_simps [simp]:
  "int_value val (V_INTEGER i) = Some (sint i)" "int_value val (V_MPZ z) = Some (val z)"
  "int_value val (V_FLOAT f) = None"
  by (simp_all add: int_value_def)

definition computes :: "('z \<Rightarrow> int) \<Rightarrow> ar_error + ('z, 'f) number \<Rightarrow> int \<Rightarrow> bool" where
  "computes val res x = (case res of Inl _ \<Rightarrow> False | Inr r \<Rightarrow> int_value val r = Some x)"

lemma computes_simps [simp]:
  "computes val (Inl e) x = False" "computes val (Inr r) x = (int_value val r = Some x)"
  by (simp_all add: computes_def)

lemma int_value_SomeE:
  assumes "int_value val n = Some x"
  obtains i where "n = V_INTEGER i" "x = sint i" | z where "n = V_MPZ z" "x = val z"
  using assms by (cases n) auto

lemmas promote_simps = same_type_numbers_def make_same_type_numbers_def promoteNumber_def
  promoteToMPZNumber_def promoteIntNumber_def ar_big_def ar_promote_both_def
  need_integers_def need_integer_def toIntegerNumber_def ar_div_tail_def ar_divmod_big_def

lemma ar_add_exact:
  assumes "mpz_laws E val" "o_gmp E" "int_value val n1 = Some x" "int_value val n2 = Some y"
  shows "computes val (pl_ar_add E n1 n2) (x + y)"
  using assms(3,4)
  by (elim int_value_SomeE)
    (auto simp: pl_ar_add_def promote_simps assms(2) mpz_lawsD [OF assms(1)] add_overflow_iff sint_arith)

lemma ar_minus_exact:
  assumes "mpz_laws E val" "o_gmp E" "int_value val n1 = Some x" "int_value val n2 = Some y"
  shows "computes val (ar_minus E n1 n2) (x - y)"
  using assms(3,4)
  by (elim int_value_SomeE)
    (auto simp: ar_minus_def promote_simps assms(2) mpz_lawsD [OF assms(1)] minus_overflow_iff sint_arith)

lemma ar_mul_exact:
  assumes "mpz_laws E val" "o_gmp E" "int_value val n1 = Some x" "int_value val n2 = Some y"
  shows "computes val (ar_mul E n1 n2) (x * y)"
  using assms(3,4)
  by (elim int_value_SomeE)
    (auto simp: ar_mul_def promote_simps assms(2) mpz_lawsD [OF assms(1)] mul64_iff sint_arith)

lemma sint_neg: "a \<noteq> PLMININT \<Longrightarrow> sint (- a) = - sint a"
  using sint_range64 [of a] by (intro sint_arith(4)) (auto simp: sint_eq_PLMIN fits64_def)

lemma sint_neg_cases: "sint (- a) = (if a = PLMININT then - (2 ^ 63) else - sint (a::int64))"
  using sint_neg [of a] by (auto simp: PLMININT_def)

lemma ar_neg_exact:
  assumes "mpz_laws E val" "o_gmp E" "int_value val n1 = Some x"
  shows "computes val (ar_u_minus E n1) (- x)" "computes val (ar_abs E n1) \<bar>x\<bar>"
  using assms(3)
  by (elim int_value_SomeE; auto simp: ar_u_minus_def ar_abs_def assms(2) mpz_lawsD [OF assms(1)] sint_neg signed_cmp)+


lemma smod_m1 [simp]: "a smod - 1 = (0::int)" "a smod 1 = (0::int)"
  by (simp_all add: signed_modulo_int_def)

lemma sint_c_rem: "b \<noteq> 0 \<Longrightarrow> sint (c_rem a b) = sint a smod sint (b::int64)"
  using smod_bound [of "sint b" "sint a"] sint_range64 [of b]
  by (simp add: c_rem_def sint_of_int64)

lemma sint_c_div: "\<not> (b = -1 \<and> a = PLMININT) \<Longrightarrow> sint (c_div a b) = sint a sdiv sint (b::int64)"
  unfolding c_div_def
  by (intro sint_fits sdiv_range) (simp_all add: sint_eq_PLMIN sint_eq_m1)

lemma smod_eq_mod: "b \<noteq> 0 \<Longrightarrow> (a::int) mod b = (if a smod b \<noteq> 0 \<and> (a smod b < 0) \<noteq> (b < 0) then a smod b + b else a smod b)"
proof -
  assume b: "b \<noteq> 0"
  let ?r = "if a smod b \<noteq> 0 \<and> (a smod b < 0) \<noteq> (b < 0) then a smod b + b else a smod b"
  have r: "(0 < b \<longrightarrow> 0 \<le> ?r \<and> ?r < b) \<and> (b < 0 \<longrightarrow> b < ?r \<and> ?r \<le> 0)"
    using smod_bound [OF b, of a] b by (auto simp: abs_less_iff)
  have "a mod b = (b * (a sdiv b) + a smod b) mod b" by (simp add: mult_sdiv_smod_eq)
  also have "\<dots> = a smod b mod b" by (simp only: mod_mult_self4)
  also have "\<dots> = ?r mod b" by simp
  also have "\<dots> = ?r" using r b by (cases "0 < b") (auto simp: mod_pos_pos_trivial mod_neg_neg_trivial)
  finally show ?thesis .
qed

lemma sdiv_eq_div: "b \<noteq> 0 \<Longrightarrow> (a::int) div b = (if (0 < a) \<noteq> (0 < b) \<and> a smod b \<noteq> 0 then a sdiv b - 1 else a sdiv b)"
proof -
  assume b: "b \<noteq> 0"
  have s: "a smod b \<noteq> 0 \<Longrightarrow> a \<noteq> 0 \<and> (a smod b < 0 \<longleftrightarrow> a < 0)"
  proof -
    define m where "m = \<bar>a\<bar> mod \<bar>b\<bar>"
    have "0 \<le> m" "a smod b = sgn a * m" using b by (simp_all add: m_def signed_modulo_int_def)
    then show "a smod b \<noteq> 0 \<Longrightarrow> a \<noteq> 0 \<and> (a smod b < 0 \<longleftrightarrow> a < 0)"
      by (cases a "0 :: int" rule: linorder_cases) auto
  qed
  have "b * (a div b) = b * (a sdiv b) + a smod b - a mod b"
    using mult_sdiv_smod_eq [of b a] mult_div_mod_eq [of b a] by linarith
  also have "\<dots> = b * (if (0 < a) \<noteq> (0 < b) \<and> a smod b \<noteq> 0 then a sdiv b - 1 else a sdiv b)"
    using s b by (auto simp: smod_eq_mod [OF b] algebra_simps)
  finally show ?thesis using b by (simp only: mult_cancel_left) simp
qed

lemma sint_mod64: "b \<noteq> 0 \<Longrightarrow> sint (mod64 a b) = sint a mod sint b"
proof -
  assume b: "b \<noteq> 0"
  show ?thesis
    using b sint_c_rem [OF b, of a] smod_bound [of "sint b" "sint a"] sint_range64 [of b]
    by (auto simp: mod64_def Let_def signed_cmp smod_eq_mod sint_arith fits64_def abs_less_iff)
qed

lemma c_rem_eq_0: "b \<noteq> 0 \<Longrightarrow> c_rem a b = 0 \<longleftrightarrow> sint a smod sint (b::int64) = 0"
  using sint_c_rem [of b a] by (metis sint_eq_0)

lemma fits_div: "b \<noteq> 0 \<Longrightarrow> \<not> (b = -1 \<and> a = PLMININT) \<Longrightarrow> fits64 (sint a div sint (b::int64))"
proof -
  assume b: "b \<noteq> 0" and n: "\<not> (b = -1 \<and> a = PLMININT)"
  have "fits64 (sint a sdiv sint b)" using n by (intro sdiv_range) (simp_all add: sint_eq_PLMIN sint_eq_m1)
  moreover have "\<bar>sint a sdiv sint b\<bar> \<le> 2 ^ 62" if "sint a smod sint b \<noteq> 0"
  proof -
    have "sint b \<noteq> 0" "sint b \<noteq> 1" "sint b \<noteq> -1" using b that by auto
    then have "2 \<le> \<bar>sint b\<bar>" by linarith
    from sdiv_half [OF this, of "sint a"] show ?thesis using sint_range64 [of a] by simp
  qed
  ultimately show ?thesis
    using sdiv_eq_div [of "sint b" "sint a"] b by (auto simp: fits64_def abs_le_iff)
qed

lemma sint_floor_div:
  assumes "b \<noteq> 0" "\<not> (b = -1 \<and> a = PLMININT)"
  shows "sint (floor_div64 a b) = sint a div sint b"
proof -
  have nz: "sint b \<noteq> 0" using assms by simp
  have "sint (c_div a b - 1) = sint (c_div a b) - 1" if "fits64 (sint (c_div a b) - 1)"
    using that sint_arith(2) [of "c_div a b" 1] by simp
  then show ?thesis
  unfolding floor_div64_def Let_def using sdiv_eq_div [of "sint b" "sint a"] fits_div [OF assms] sint_c_div [OF assms(2)] assms
  by (auto simp: c_rem_eq_0 signed_cmp nz simp del: sint_eq_0)
qed

lemma ar_mod_exact:
  assumes "mpz_laws E val" "o_gmp E" "int_value val n1 = Some x" "int_value val n2 = Some y" "y \<noteq> 0"
  shows "computes val (ar_mod E n1 n2) (x mod y)"
  using assms(3,4,5)
  by (elim int_value_SomeE)
    (auto simp: ar_mod_def promote_simps assms(2) mpz_lawsD [OF assms(1)] mpz_laws_divD [OF assms(1)] sint_mod64 sgn_0_0 sint_eq_m1 sint_eq_PLMIN)

lemma ar_rem_exact:
  assumes "mpz_laws E val" "o_gmp E" "int_value val n1 = Some x" "int_value val n2 = Some y" "y \<noteq> 0"
  shows "computes val (ar_rem E n1 n2) (x smod y)"
  using assms(3,4,5)
  by (elim int_value_SomeE)
    (auto simp: ar_rem_def promote_simps assms(2) mpz_lawsD [OF assms(1)] mpz_laws_divD [OF assms(1)] sint_c_rem sgn_0_0)

lemma ar_tdiv_exact:
  assumes "mpz_laws E val" "o_gmp E" "int_value val n1 = Some x" "int_value val n2 = Some y" "y \<noteq> 0"
  shows "computes val (ar_tdiv E n1 n2) (x sdiv y)"
  using assms(3,4,5)
  by (elim int_value_SomeE)
    (auto simp: ar_tdiv_def promote_simps assms(2) mpz_lawsD [OF assms(1)] mpz_laws_divD [OF assms(1)] sint_c_div sgn_0_0)

lemma ar_div_exact:
  assumes "mpz_laws E val" "o_gmp E" "int_value val n1 = Some x" "int_value val n2 = Some y" "y \<noteq> 0"
  shows "computes val (ar_div E n1 n2) (x div y)"
  using assms(3,4,5)
  by (elim int_value_SomeE)
    (auto simp: ar_div_def promote_simps assms(2) mpz_lawsD [OF assms(1)] mpz_laws_divD [OF assms(1)] sint_floor_div sgn_0_0)

lemma ar_gcd_exact:
  assumes "mpz_laws E val" "o_gmp E" "int_value val n1 = Some x" "int_value val n2 = Some y"
  shows "computes val (ar_gcd E n1 n2) (gcd x y)"
  using assms(3,4)
  by (elim int_value_SomeE)
    (auto simp: ar_gcd_def promote_simps assms(2) mpz_lawsD [OF assms(1)] gcd_loop_gcd Let_def sint_neg_cases signed_cmp)


lemma mpz_cmp_iff:
  assumes "mpz_laws E val"
  shows "mpz_cmp E a b < 0 \<longleftrightarrow> val a < val b" "mpz_cmp E a b = 0 \<longleftrightarrow> val a = val b"
  using mpz_lawsD(12) [OF assms, of a b]
  by (cases "mpz_cmp E a b" "0::int" rule: linorder_cases; simp add: sgn_if split: if_splits)+

lemma cmpNumbers_exact:
  assumes "mpz_laws E val" "o_gmp E" "int_value val n1 = Some x" "int_value val n2 = Some y"
  shows "cmpNumbers E n1 n2 = sgn (x - y)"
  using assms(3,4)
  by (elim int_value_SomeE)
    (auto simp: cmpNumbers_def cmp_same_def promote_simps assms(2) mpz_lawsD [OF assms(1)] Let_def
      cmp_consts is_float_def signed_cmp mpz_cmp_iff [OF assms(1)] sgn_if word_eq_iff_signed [where 'a = int])

lemma sint_sdrop: "sint (signed_drop_bit k (i::int64)) = sint i div 2 ^ k"
  by (simp add: sint_signed_drop_bit_eq drop_bit_eq_div)

lemma msb_step_inv:
  assumes "msb_step bound k (i, j) = (i', j')" and "sint bound = 2 ^ k"
    and "X div 2 ^ nat j = sint i" "1 \<le> sint i" "sint i < 2 ^ (2 * k)" "0 \<le> j"
  shows "X div 2 ^ nat j' = sint i' \<and> 1 \<le> sint i' \<and> sint i' < 2 ^ k \<and> 0 \<le> j' \<and> j' \<le> j + int k"
proof (cases "bound \<le>s i")
  case True
  then have i: "i' = signed_drop_bit k i" "j' = j + int k" "2 ^ k \<le> sint i"
    using assms by (auto simp: msb_step_def signed_cmp)
  have "X div 2 ^ nat j' = X div 2 ^ nat j div 2 ^ k"
    using assms by (simp add: i nat_add_distrib power_add div_mult2_eq zdiv_zmult2_eq)
  moreover have "sint i div 2 ^ k < 2 ^ k"
    using assms(5) by (intro int_div_less) (simp_all add: power_add mult_2)
  moreover have "1 \<le> sint i div 2 ^ k" using zdiv_mono1 [OF i(3), of "2 ^ k"] by simp
  ultimately show ?thesis using assms by (simp add: i sint_sdrop)
next
  case False
  then show ?thesis using assms by (auto simp: msb_step_def signed_cmp)
qed

lemma MSB64_bounds:
  assumes "0 <s i"
  shows "0 \<le> MSB64 i \<and> MSB64 i \<le> 62 \<and> 2 ^ nat (MSB64 i) \<le> sint i \<and> sint i < 2 ^ nat (MSB64 i + 1)"
proof -
  obtain i1 j1 where s1: "msb_step 0x100000000 32 (i, 0) = (i1, j1)" by force
  obtain i2 j2 where s2: "msb_step 0x10000 16 (i1, j1) = (i2, j2)" by force
  obtain i3 j3 where s3: "msb_step 0x100 8 (i2, j2) = (i3, j3)" by force
  obtain i4 j4 where s4: "msb_step 0x10 4 (i3, j3) = (i4, j4)" by force
  obtain i5 j5 where s5: "msb_step 0x4 2 (i4, j4) = (i5, j5)" by force
  have m: "MSB64 i = (if 2 \<le>s i5 then j5 + 1 else j5)"
    by (simp add: MSB64_def s1 s2 s3 s4 s5)
  note h1 = msb_step_inv [OF s1, of "sint i"]
  note h2 = msb_step_inv [OF s2, of "sint i"]
  note h3 = msb_step_inv [OF s3, of "sint i"]
  note h4 = msb_step_inv [OF s4, of "sint i"]
  note h5 = msb_step_inv [OF s5, of "sint i"]
  have "1 \<le> sint i" "sint i < 2 ^ 64" using assms sint_range64 [of i] by (simp_all add: signed_cmp)
  with h1 h2 h3 h4 h5 have f: "sint i div 2 ^ nat j5 = sint i5" "1 \<le> sint i5" "sint i5 < 4" "0 \<le> j5" "j5 \<le> 62"
    by auto
  from int_div_bounds [of "2 ^ nat j5" "sint i"] f(1)
  have b: "sint i5 * 2 ^ nat j5 \<le> sint i" "sint i < (sint i5 + 1) * 2 ^ nat j5" by simp_all
  have "2 ^ nat (MSB64 i) \<le> sint i \<and> sint i < 2 ^ nat (MSB64 i + 1)"
  proof (cases "2 \<le>s i5")
    case True
    then have "2 * 2 ^ nat j5 \<le> sint i5 * 2 ^ nat j5" "(sint i5 + 1) * 2 ^ nat j5 \<le> 4 * 2 ^ nat j5"
      using f(3) by (intro mult_right_mono; simp add: signed_cmp)+
    with b have "2 * 2 ^ nat j5 \<le> sint i \<and> sint i < 4 * 2 ^ nat j5" by linarith
    with True f(4) show ?thesis by (simp add: m nat_add_distrib)
  next
    case False
    then have "sint i5 = 1" using f(2) by (simp add: signed_cmp)
    with b False f(4) show ?thesis by (simp add: m nat_add_distrib)
  qed
  moreover from this have "(2::int) ^ nat (MSB64 i) < 2 ^ 63" using sint_range64 [of i] by linarith
  then have "nat (MSB64 i) < 63" by (rule power_less_imp_less_exp [rotated]) simp
  ultimately show ?thesis using m f by auto
qed


lemma popcount_loop_card:
  "popcount_loop i k (2 ^ n) c = c + int (card {b. n \<le> b \<and> b < n + k \<and> bit i b})"
  if "n + k \<le> 64"
  using that
proof (induction k arbitrary: n c)
  case (Suc k)
  have b: "i AND push_bit n 1 \<noteq> 0 \<longleftrightarrow> bit i n"
    by (simp only: bit_iff_and_push_bit_not_eq_0)
  have s: "{b. n \<le> b \<and> b < n + Suc k \<and> bit i b} =
      (if bit i n then {n} else {}) \<union> {b. Suc n \<le> b \<and> b < Suc n + k \<and> bit i b}"
    by (auto simp: Suc_le_eq le_eq_less_or_eq)
  have "popcount_loop i (Suc k) (2 ^ n) c =
      popcount_loop i k (2 ^ Suc n) (if bit i n then c + 1 else c)"
    using b by (simp add: push_bit_eq_mult mult.commute)
  also have "\<dots> = (if bit i n then c + 1 else c) + int (card {b. Suc n \<le> b \<and> b < Suc n + k \<and> bit i b})"
    using Suc.IH [of "Suc n"] Suc.prems by simp
  finally have l: "popcount_loop i (Suc k) (2 ^ n) c = \<dots>" .
  have "card {b. n \<le> b \<and> b < n + Suc k \<and> bit i b} =
      (if bit i n then 1 else 0) + card {b. Suc n \<le> b \<and> b < Suc n + k \<and> bit i b}"
    unfolding s by auto
  with l show ?case by auto
qed simp

lemma my_popcount64_card: "my_popcount64 i = int (card {b. bit i b})"
proof -
  have "{b. 0 \<le> b \<and> b < 0 + 64 \<and> bit i b} = {b. bit i b}"
    using bit_imp_le_length [of i] by fastforce
  then show ?thesis using popcount_loop_card [of 0 64 i 0] by (simp add: my_popcount64_def)
qed











text \<open>A host whose GMP is the integers of the logic and whose doubles are integers too.\<close>

definition int_host :: "bool \<Rightarrow> bool \<Rightarrow> (int, int) host" where
  "int_host gmp is_iso = \<lparr>
     o_gmp = gmp, iso_flag = is_iso, long_bits = 64, global_limit = 2 ^ 20,
     mpz_of_int64 = sint, mpz_of_double = id, mpz_get_d = id,
     mpz_add = (+), mpz_sub = (-), mpz_mul = (*),
     mpz_tdiv_q = (sdiv), mpz_tdiv_r = (smod), mpz_fdiv_q = (div), mpz_fdiv_r = (mod),
     mpz_gcd = gcd, mpz_neg = uminus, mpz_com = (\<lambda>a. - a - 1), mpz_abs = abs, mpz_sgn = sgn,
     mpz_cmp = (-), mpz_cmp_si = (-), mpz_get_si = id,
     mpz_cmp_ui = (\<lambda>a n. a - int n), mpz_get_ui = nat,
     mpz_add_ui = (\<lambda>a n. a + int n), mpz_sub_ui = (\<lambda>a n. a - int n),
     mpz_mul_2exp = (\<lambda>a n. a * 2 ^ n), mpz_fdiv_q_2exp = (\<lambda>a n. a div 2 ^ n),
     mpz_sizeinbase_2 = (\<lambda>a. 64), mpz_scan1_0 = (\<lambda>a. 0), mpz_popcount = (\<lambda>a. 0), mpz_tstbit = bit,
     dbl_of_int64 = sint, dbl_to_int64 = word_of_int, dbl_in_int64_range = fits64,
     dbl_class = (\<lambda>f. FP_FINITE), dbl_add = (+), dbl_sub = (-), dbl_mul = (*), dbl_neg = uminus,
     dbl_signbit = (\<lambda>f. f < 0), dbl_copysign = (\<lambda>a b. if b < 0 then - \<bar>a\<bar> else \<bar>a\<bar>),
     dbl_lt = (<), dbl_eq = (=) \<rparr>"

lemma int_host_laws: "mpz_laws (int_host gmp is_iso) id" "o_gmp (int_host gmp is_iso) = gmp"
  "long_bits (int_host gmp is_iso) = 64" "iso_flag (int_host gmp is_iso) = is_iso"
  by (simp_all add: mpz_laws_def int_host_def)

section \<open>Corners\<close>

text \<open>
  \<^theory_text>\<open>ar_shift\<close> prepares the result 0 for the shift of 0 but goes on: a left shift of 0 by an amount
  that \<^theory_text>\<open>long\<close> cannot hold raises the resource error, and a right shift of a negative number by such
  an amount gives 0 and not -1. The bit count of a left shift is an \<^theory_text>\<open>int\<close>: an amount of \<open>2^32\<close>
  passes the overflow check and reaches the C shift, which is undefined. \<^theory_text>\<open>ar_add_ui\<close> misses the
  one overflow whose wrapped result is 0.
\<close>

lemma shift_zero_far:
  "ar_shift_left (int_host True False) (V_INTEGER 0) (V_MPZ (2 ^ 70)) = Inl ERR_RESOURCE_global"
  by (simp add: ar_shift_left_def ar_shift_def promote_simps shift_amount_def int_host_def
      shift_to_far_def LONG_MIN_def LONG_MAX_def ar_sign_i_def)

lemma shift_right_far:
  "ar_shift_right (int_host True False) (V_INTEGER (-1)) (V_MPZ (2 ^ 70)) = Inr (V_INTEGER 0)"
  by (simp add: ar_shift_right_def ar_shift_def promote_simps shift_amount_def int_host_def
      shift_to_far_def LONG_MIN_def LONG_MAX_def ar_sign_i_def)

lemma shift_left_truncated:
  "ar_shift_left (int_host True False) (V_INTEGER 1) (V_INTEGER 0x100000000) = Inl C_UNDEFINED"
  by (simp add: ar_shift_left_def ar_shift_def promote_simps shift_amount_def int_host_def
      LONG_MIN_def LONG_MAX_def shift_int64_def shift_bits_def c_shl64_def MSB64_def msb_step_def signed_cmp)

lemma add_ui_missed_overflow:
  "ar_add_ui E (V_INTEGER PLMININT) PLMININT = Inr (V_INTEGER 0)"
  by (simp add: ar_add_ui_def PLMININT_def Let_def signed_cmp)

section \<open>Properties\<close>

text \<open>C16: with GMP, addition, subtraction, multiplication, negation and absolute value of integers
  are exact on every mix of 64-bit and GMP operands: no overflow of the 64-bit branch goes
  undetected and the detected ones are redone on GMP integers.\<close>
theorem ar_ring_exact:
  assumes "mpz_laws E val" "o_gmp E" "int_value val n1 = Some x" "int_value val n2 = Some y"
  shows "computes val (pl_ar_add E n1 n2) (x + y) \<and> computes val (ar_minus E n1 n2) (x - y) \<and>
    computes val (ar_mul E n1 n2) (x * y) \<and> computes val (ar_u_minus E n1) (- x) \<and>
    computes val (ar_abs E n1) \<bar>x\<bar>"
  using ar_add_exact [OF assms] ar_minus_exact [OF assms] ar_mul_exact [OF assms]
    ar_neg_exact [OF assms(1-3)] by blast

theorem ar_ring_exact_witness:
  "computes id (ar_mul (int_host True False) (V_INTEGER PLMININT) (V_INTEGER (-1))) (2 ^ 63)"
  using ar_ring_exact [OF int_host_laws(1), of True False "V_INTEGER PLMININT" "- (2 ^ 63)" "V_INTEGER (-1)" "-1"]
  by (simp add: int_host_laws)

text \<open>C17: with GMP, \<^theory_text>\<open>div\<close> and \<^theory_text>\<open>mod\<close> round towards minus infinity, \<^theory_text>\<open>//\<close> and \<^theory_text>\<open>rem\<close> towards zero, and
  \<^theory_text>\<open>gcd\<close> is the greatest common divisor, for every pair of integers with a non-zero divisor; a zero
  divisor is reported by all four.\<close>
theorem ar_division_exact:
  assumes "mpz_laws E val" "o_gmp E" "int_value val n1 = Some x" "int_value val n2 = Some y"
  shows "computes val (ar_gcd E n1 n2) (gcd x y) \<and>
    (if y = 0 then ar_div E n1 n2 = Inl ERR_DIV_BY_ZERO \<and> ar_mod E n1 n2 = Inl ERR_DIV_BY_ZERO \<and>
         ar_tdiv E n1 n2 = Inl ERR_DIV_BY_ZERO \<and> ar_rem E n1 n2 = Inl ERR_DIV_BY_ZERO
     else computes val (ar_div E n1 n2) (x div y) \<and> computes val (ar_mod E n1 n2) (x mod y) \<and>
         computes val (ar_tdiv E n1 n2) (x sdiv y) \<and> computes val (ar_rem E n1 n2) (x smod y))"
proof (cases "y = 0")
  case True
  have "ar_div E n1 n2 = Inl ERR_DIV_BY_ZERO \<and> ar_mod E n1 n2 = Inl ERR_DIV_BY_ZERO \<and>
         ar_tdiv E n1 n2 = Inl ERR_DIV_BY_ZERO \<and> ar_rem E n1 n2 = Inl ERR_DIV_BY_ZERO"
    using assms(3,4) True
    by (elim int_value_SomeE)
      (simp_all add: ar_div_def ar_mod_def ar_tdiv_def ar_rem_def promote_simps assms(2) mpz_lawsD [OF assms(1)])
  with True show ?thesis using ar_gcd_exact [OF assms] by simp
next
  case False
  with ar_gcd_exact [OF assms] ar_div_exact [OF assms] ar_mod_exact [OF assms]
    ar_tdiv_exact [OF assms] ar_rem_exact [OF assms] show ?thesis by simp
qed

theorem ar_division_exact_witness:
  "computes id (ar_div (int_host True False) (V_INTEGER (-7)) (V_INTEGER 2)) (-4) \<and>
   computes id (ar_rem (int_host True False) (V_INTEGER (-7)) (V_INTEGER 2)) (-1)"
  using ar_division_exact [OF int_host_laws(1), of True False "V_INTEGER (-7)" "-7" "V_INTEGER 2" 2]
  by (simp add: int_host_laws signed_modulo_int_def)

text \<open>C34: without GMP and in ISO mode, addition and subtraction of 64-bit integers return the exact
  result when it fits in 64 bits and raise the integer overflow error otherwise; multiplication does
  so in every mode.\<close>
theorem ar_overflow_checked:
  assumes "\<not> o_gmp E" "iso_flag E"
  shows "pl_ar_add E (V_INTEGER a) (V_INTEGER b) =
      (if fits64 (sint a + sint b) then Inr (V_INTEGER (word_of_int (sint a + sint b)))
       else Inl ERR_EVALUATION_int_overflow) \<and>
    ar_minus E (V_INTEGER a) (V_INTEGER b) =
      (if fits64 (sint a - sint b) then Inr (V_INTEGER (word_of_int (sint a - sint b)))
       else Inl ERR_EVALUATION_int_overflow) \<and>
    ar_mul E (V_INTEGER a) (V_INTEGER b) =
      (if fits64 (sint a * sint b) then Inr (V_INTEGER (word_of_int (sint a * sint b)))
       else Inl ERR_EVALUATION_int_overflow)"
  using assms
  by (simp add: pl_ar_add_def ar_minus_def ar_mul_def promote_simps add_overflow_iff minus_overflow_iff mul64_iff)

theorem ar_overflow_checked_witness:
  "pl_ar_add (int_host False True) (V_INTEGER PLMAXINT) (V_INTEGER 1) = Inl ERR_EVALUATION_int_overflow"
  using ar_overflow_checked [of "int_host False True" PLMAXINT 1] by (simp add: int_host_laws fits64_def)

text \<open>C37: with GMP, \<^theory_text>\<open>cmpNumbers\<close> and the six arithmetic comparisons follow the order of the values
  on every mix of 64-bit and GMP integers.\<close>
theorem ar_compare_exact:
  assumes "mpz_laws E val" "o_gmp E" "int_value val n1 = Some x" "int_value val n2 = Some y"
  shows "cmpNumbers E n1 n2 = sgn (x - y) \<and>
    (ar_compare E n1 n2 LT \<longleftrightarrow> x < y) \<and> (ar_compare E n1 n2 LE \<longleftrightarrow> x \<le> y) \<and>
    (ar_compare E n1 n2 GT \<longleftrightarrow> y < x) \<and> (ar_compare E n1 n2 GE \<longleftrightarrow> y \<le> x) \<and>
    (ar_compare E n1 n2 EQ \<longleftrightarrow> x = y) \<and> (ar_compare E n1 n2 NE \<longleftrightarrow> x \<noteq> y)"
  using cmpNumbers_exact [OF assms]
  by (auto simp: ar_compare_def cmp_consts sgn_if split: if_splits)

theorem ar_compare_exact_witness:
  "ar_compare (int_host True False) (V_INTEGER (-1)) (V_MPZ (2 ^ 70)) LT"
  using ar_compare_exact [OF int_host_laws(1), of True False "V_INTEGER (-1)" "-1" "V_MPZ (2 ^ 70)" "2 ^ 70"]
  by (simp add: int_host_laws)

text \<open>C40: \<^theory_text>\<open>msb/1\<close> of a positive 64-bit integer is the floor of its binary logarithm and
  \<^theory_text>\<open>popcount/1\<close> the number of its bits that are set.\<close>
theorem ar_msb_popcount:
  assumes "0 <s i"
  shows "(\<exists>m. ar_msb E (V_INTEGER i) = Inr (V_INTEGER (word_of_int m)) \<and>
      0 \<le> m \<and> m \<le> 62 \<and> 2 ^ nat m \<le> sint i \<and> sint i < 2 ^ nat (m + 1)) \<and>
    ar_popcount E (V_INTEGER i) = Inr (V_INTEGER (of_nat (card {b. bit i b})))"
  using MSB64_bounds [OF assms] assms
  by (auto simp: ar_msb_def ar_popcount_def promote_simps signed_cmp my_popcount64_card
      intro!: exI [of _ "MSB64 i"])

theorem ar_msb_popcount_witness:
  "\<exists>m. ar_msb (int_host True False) (V_INTEGER 300) = Inr (V_INTEGER (word_of_int m)) \<and>
     2 ^ nat m \<le> (300::int) \<and> (300::int) < 2 ^ nat (m + 1)"
  using ar_msb_popcount [of 300 "int_host True False"] by (auto simp: signed_cmp)



end
