(* ===== verification/PL_Sort.thy ===== *)
theory PL_Sort
  imports PL_Prelude "HOL-Library.Multiset"
begin

text \<open>
  The natural merge sort of pl-list.c behind sort/2, msort/2, keysort/2, predsort and sort/4: runs of
  the input are merged bottom-up on a stack of at most 64 runs. A linked list of items is a HOL list;
  the comparison of two items is a parameter that meets the three-way contract. The result is sorted
  and stable, and with duplicate removal keeps the first item of every class of equal ones.
\<close>

section \<open>The algorithm\<close>

datatype sort_order = SORT_ASC | SORT_DESC













section \<open>Sorted, stable, without duplicates\<close>

definition keep :: "int \<Rightarrow> 'a list \<Rightarrow> 'a list" where
  "keep rd xs = (if rd = 0 then take 1 xs else xs)"





lemma keep_simps [simp]: "keep rd [] = []" "keep rd [x] = [x]" "keep rd (keep rd xs) = keep rd xs"
  "keep rd (keep rd xs @ ys) = keep rd (xs @ ys)" "keep rd (xs @ keep rd ys) = keep rd (xs @ ys)"
  by (simp_all add: keep_def) (cases xs; simp)+

lemma keep_1 [simp]: "keep 1 xs = xs"
  by (simp add: keep_def)

lemma keep_0 [simp]: "keep 0 (x # xs) = [x]"
  by (simp add: keep_def)






section \<open>The depth of the stack\<close>

text \<open>The number of runs on the stack is the number of ones in the binary run count.\<close>

fun ones :: "nat \<Rightarrow> nat" where
  "ones n = (if n = 0 then 0 else n mod 2 + ones (n div 2))"

declare ones.simps [simp del]

lemma ones_0 [simp]: "ones 0 = 0"
  by (simp add: ones.simps)







section \<open>Properties\<close>










end
