(* ===== verification/PL_Heap.thy ===== *)
theory PL_Heap
  imports PL_Prelude
begin

text \<open>
  Prolog data on the stacks (pl-data.h): tagged words, reference chains, the functor cell of a
  compound followed by its arguments, indirect data, the trail. The words and the functor cells are
  two maps on the same addresses: no code takes one for the other. A functor cell may be replaced by a
  reference to another functor cell while a cyclic-safe operation runs (the links of pl-prims.c).
  Following references may not return; such loops are partial functions with values in the option type.
\<close>

section \<open>Words\<close>

type_synonym addr = nat
type_synonym atom_t = nat

datatype ind_tag = I_FLOAT | I_INTEGER | I_STRING

datatype word =
    WVar
  | WAttVar addr
  | WInt int64
  | WIndirect ind_tag addr
  | WAtom atom_t
  | WTerm addr
  | WRef addr

text \<open>Indirect data: 64-bit and GMP integers, the bits of a double, the characters of a string.\<close>

datatype ind = IInt64 int64 | IMpz int | IDouble int64 | IChars "nat list"

record functor_t =
  fname :: atom_t
  arity :: nat

datatype fword = Functor functor_t | FRef addr

datatype trail_entry = TAddress addr | TAssign addr word

text \<open>A wakeup term: the attribute of a bound variable and the value it got.\<close>

record heap =
  cell :: "addr \<Rightarrow> word"
  func :: "addr \<Rightarrow> fword option"
  ind :: "addr \<Rightarrow> ind"
  mark_bar :: addr
  lBase :: addr
  gfree :: nat
  tfree :: nat
  trail :: "trail_entry list"
  wakeup :: "(addr \<times> word) list"

fun tag :: "word \<Rightarrow> nat" where
  "tag WVar = 0"
| "tag (WAttVar _) = 1"
| "tag (WIndirect I_FLOAT _) = 2"
| "tag (WIndirect I_INTEGER _) = 3"
| "tag (WInt _) = 3"
| "tag (WIndirect I_STRING _) = 4"
| "tag (WAtom _) = 5"
| "tag (WTerm _) = 6"
| "tag (WRef _) = 7"

fun isRef :: "word \<Rightarrow> bool" where
  "isRef (WRef _) = True" | "isRef _ = False"

fun isAttVar :: "word \<Rightarrow> bool" where
  "isAttVar (WAttVar _) = True" | "isAttVar _ = False"

definition isVar :: "word \<Rightarrow> bool" where "isVar w \<longleftrightarrow> w = WVar"

definition canBind :: "word \<Rightarrow> bool" where "canBind w \<longleftrightarrow> isVar w \<or> isAttVar w"

fun isTerm :: "word \<Rightarrow> bool" where
  "isTerm (WTerm _) = True" | "isTerm _ = False"

text \<open>The address of argument \<open>i\<close> (from 0) of the compound at \<open>f\<close>.\<close>

definition argTermP :: "addr \<Rightarrow> nat \<Rightarrow> addr" where
  "argTermP f i = Suc (f + i)"

section \<open>Following references\<close>

partial_function (option) deRef :: "heap \<Rightarrow> addr \<Rightarrow> addr option" where
  "deRef h p = (case cell h p of WRef q \<Rightarrow> deRef h q | _ \<Rightarrow> Some p)"

declare deRef.simps [code]

inductive derefs :: "heap \<Rightarrow> addr \<Rightarrow> addr \<Rightarrow> bool" for h where
  here: "\<not> isRef (cell h p) \<Longrightarrow> derefs h p p"
| step: "cell h p = WRef q \<Longrightarrow> derefs h q r \<Longrightarrow> derefs h p r"

inductive_cases derefs_RefE: "derefs h p r"

lemma derefs_deRef: "derefs h p r \<Longrightarrow> deRef h p = Some r"
proof (induction rule: derefs.induct)
  case (here p)
  then show ?case by (subst deRef.simps) (auto split: word.split)
next
  case (step p q r)
  then show ?case by (subst deRef.simps) simp
qed

lemma deRef_derefs:
  assumes "deRef h p = Some r"
  shows "derefs h p r"
  by (rule deRef.raw_induct [OF _ assms]) (auto split: word.splits intro: derefs.intros)

lemma deRef_iff: "deRef h p = Some r \<longleftrightarrow> derefs h p r"
  using derefs_deRef deRef_derefs by blast

lemma derefs_unique: "derefs h p r \<Longrightarrow> derefs h p s \<Longrightarrow> r = s"
  by (metis derefs_deRef option.inject)

lemma derefs_end: "derefs h p r \<Longrightarrow> \<not> isRef (cell h r)"
  by (induction rule: derefs.induct)

lemma derefs_self: "\<not> isRef (cell h p) \<Longrightarrow> derefs h p r \<longleftrightarrow> r = p"
  by (metis derefs.here derefs_unique)

lemma derefs_cong: "cell h = cell h' \<Longrightarrow> derefs h = derefs h'"
proof -
  have "derefs h p r \<Longrightarrow> cell h = cell h' \<Longrightarrow> derefs h' p r" for h h' p r
    by (induction rule: derefs.induct) (auto intro: derefs.intros)
  then show "cell h = cell h' \<Longrightarrow> derefs h = derefs h'" by (intro ext iffI) metis+
qed

text \<open>The functor cell at the end of the links from a compound.\<close>

partial_function (option) fdeRef :: "heap \<Rightarrow> addr \<Rightarrow> (addr \<times> functor_t) option" where
  "fdeRef h f = (case func h f of
     None \<Rightarrow> None
   | Some (FRef g) \<Rightarrow> fdeRef h g
   | Some (Functor fd) \<Rightarrow> Some (f, fd))"

declare fdeRef.simps [code]

inductive froot :: "(addr \<Rightarrow> fword option) \<Rightarrow> addr \<Rightarrow> addr \<Rightarrow> functor_t \<Rightarrow> bool" for F where
  here: "F f = Some (Functor fd) \<Longrightarrow> froot F f f fd"
| step: "F f = Some (FRef g) \<Longrightarrow> froot F g r fd \<Longrightarrow> froot F f r fd"

lemma froot_fdeRef: "froot (func h) f r fd \<Longrightarrow> fdeRef h f = Some (r, fd)"
  by (induction rule: froot.induct) (subst fdeRef.simps, simp)+

lemma fdeRef_froot:
  assumes "fdeRef h f = Some rfd"
  shows "froot (func h) f (fst rfd) (snd rfd)"
  by (rule fdeRef.raw_induct [OF _ assms])
    (auto split: option.splits fword.splits intro: froot.intros)

lemma fdeRef_iff: "fdeRef h f = Some (r, fd) \<longleftrightarrow> froot (func h) f r fd"
  using froot_fdeRef [of h f r fd] fdeRef_froot [of h f "(r, fd)"] by auto

lemma froot_unique: "froot F f r fd \<Longrightarrow> froot F f s gd \<Longrightarrow> r = s \<and> fd = gd"
proof (induction arbitrary: s gd rule: froot.induct)
  case (here f fd)
  then show ?case by (auto elim: froot.cases)
next
  case (step f g r fd)
  then show ?case by (metis froot.cases fword.distinct(1) fword.inject(2) option.inject)
qed

lemma froot_end: "froot F f r fd \<Longrightarrow> F r = Some (Functor fd)"
  by (induction rule: froot.induct)

section \<open>Binding a cell\<close>

lemma derefs_bind:
  assumes p: "\<not> isRef (cell h p)" and h': "cell h' = (cell h)(p := w)"
    and w: "isRef w \<Longrightarrow> \<exists>q. w = WRef q \<and> derefs h q s \<and> s \<noteq> p"
  shows "derefs h x r \<Longrightarrow> derefs h' x (if r = p \<and> isRef w then s else r)"
proof -
  have other: "derefs h x r \<Longrightarrow> r \<noteq> p \<Longrightarrow> derefs h' x r" for x r
  proof (induction rule: derefs.induct)
    case (step x q r)
    then have "x \<noteq> p" using p by auto
    then show ?case using step h' by (intro derefs.step [of _ x q]) auto
  qed (auto simp: h' intro: derefs.here)
  show "derefs h x r \<Longrightarrow> derefs h' x (if r = p \<and> isRef w then s else r)"
  proof (induction rule: derefs.induct)
    case (here x)
    show ?case
    proof (cases "x = p")
      case True
      then show ?thesis using w other h' by (cases w) (auto intro: derefs.intros)
    next
      case False
      then show ?thesis using here h' by (auto intro: derefs.here)
    qed
  next
    case (step x q r)
    then have "x \<noteq> p" using p by auto
    then show ?case using step h' by (intro derefs.step [of _ x q]) auto
  qed
qed

end
