(* ===== verification/PL_Unify.thy ===== *)
theory PL_Unify
  imports PL_Heap
begin

text \<open>
  General unification of pl-prims.c (\<^theory_text>\<open>do_unify\<close>) with its agenda of argument vectors, the
  trail, attributed variables, and the links between functor cells that make it terminate on cyclic
  terms. A result is \<^const>\<open>None\<close> if a reference chain does not end or a compound has no functor cell.
\<close>

section \<open>The agenda and the links\<close>

text \<open>Frames (left vector, right vector, size): the current work and the stacked ones.\<close>

type_synonym agendaLR = "(addr \<times> addr \<times> nat) list"

definition initTermAgendaLR :: "nat \<Rightarrow> addr \<Rightarrow> addr \<Rightarrow> agendaLR" where
  "initTermAgendaLR count left right = [(left, right, count)]"

fun nextTermAgendaLR :: "agendaLR \<Rightarrow> (addr \<times> addr \<times> agendaLR) option" where
  "nextTermAgendaLR [] = None"
| "nextTermAgendaLR ((l, r, Suc n) # stack) = Some (l, r, (Suc l, Suc r, n) # stack)"
| "nextTermAgendaLR [(l, r, 0)] = None"
| "nextTermAgendaLR ((_, _, 0) # (l, r, n) # stack) = Some (l, r, (Suc l, Suc r, n - 1) # stack)"

definition pushWorkAgendaLR :: "nat \<Rightarrow> agendaLR \<Rightarrow> nat \<Rightarrow> addr \<Rightarrow> addr \<Rightarrow> agendaLR option" where
  "pushWorkAgendaLR limit a amount left right = (case a of
     (_, _, Suc _) # _ \<Rightarrow> if length a < limit then Some ((left, right, amount) # a) else None
   | _ \<Rightarrow> Some ((left, right, amount) # tl a))"

definition linkTermsCyclic :: "heap \<Rightarrow> addr \<Rightarrow> addr \<Rightarrow> heap" where
  "linkTermsCyclic h f1 f2 = h\<lparr>func := (func h)(f1 := Some (FRef f2))\<rparr>"

text \<open>Unlinking: each pushed functor cell gets the contents of the cell it refers to.\<close>

definition unlink :: "addr \<Rightarrow> (addr \<Rightarrow> fword option) \<Rightarrow> (addr \<Rightarrow> fword option)" where
  "unlink p F = (case F p of Some (FRef q) \<Rightarrow> F(p := F q) | _ \<Rightarrow> F)"

definition exitCyclic :: "addr list \<Rightarrow> heap \<Rightarrow> heap" where
  "exitCyclic lstack h = h\<lparr>func := fold unlink lstack (func h)\<rparr>"

section \<open>Binding\<close>

definition trailed :: "heap \<Rightarrow> addr \<Rightarrow> bool" where
  "trailed h p \<longleftrightarrow> lBase h \<le> p \<or> p < mark_bar h"

definition Trail :: "heap \<Rightarrow> addr \<Rightarrow> word \<Rightarrow> heap" where
  "Trail h p v = (let h' = h\<lparr>cell := (cell h)(p := v)\<rparr> in
     if trailed h p then h'\<lparr>trail := TAddress p # trail h, tfree := tfree h - 1\<rparr> else h')"

definition TrailAssignment :: "heap \<Rightarrow> addr \<Rightarrow> heap" where
  "TrailAssignment h p =
     (if trailed h p
      then h\<lparr>trail := TAssign p (cell h p) # trail h, tfree := tfree h - 2, gfree := gfree h - 1\<rparr>
      else h)"

definition BIND_GLOBAL_SPACE :: nat where "BIND_GLOBAL_SPACE = 7"
definition BIND_TRAIL_SPACE :: nat where "BIND_TRAIL_SPACE = 6"

definition hasGlobalSpace :: "heap \<Rightarrow> nat \<Rightarrow> bool" where
  "hasGlobalSpace h n \<longleftrightarrow> n + BIND_GLOBAL_SPACE \<le> gfree h \<and> BIND_TRAIL_SPACE \<le> tfree h"

datatype unify_rc = UNIFY_TRUE | UNIFY_FALSE | GLOBAL_OVERFLOW | TRAIL_OVERFLOW | MEMORY_OVERFLOW

definition overflowCode :: "heap \<Rightarrow> nat \<Rightarrow> unify_rc" where
  "overflowCode h n = (if gfree h < n + BIND_GLOBAL_SPACE then GLOBAL_OVERFLOW else TRAIL_OVERFLOW)"

text \<open>
  \<^theory_text>\<open>registerWakeup\<close> appends a wakeup term of four cells; the updates of the list's head and tail,
  which are not Prolog data, take at most two saved cells and four trail entries.
\<close>

definition registerWakeup :: "heap \<Rightarrow> addr \<Rightarrow> addr \<Rightarrow> heap" where
  "registerWakeup h a value =
     h\<lparr>wakeup := wakeup h @ [(a, if canBind (cell h value) then WRef value else cell h value)],
       gfree := gfree h - 6, tfree := tfree h - 4\<rparr>"

definition bindAttVar :: "heap \<Rightarrow> addr \<Rightarrow> addr \<Rightarrow> heap" where
  "bindAttVar h av value = (case cell h av of
     WAttVar a \<Rightarrow>
       let h1 = TrailAssignment (registerWakeup h a value) av in
       h1\<lparr>cell := (cell h1)(av := if isAttVar (cell h1 value) then WRef value else cell h1 value)\<rparr>
   | _ \<Rightarrow> h)"

definition assignAttVar :: "heap \<Rightarrow> addr \<Rightarrow> addr \<Rightarrow> heap" where
  "assignAttVar h av value =
     (if isAttVar (cell h value) then
        if av < value then bindAttVar h value av
        else if av = value then h
        else bindAttVar h av value
      else bindAttVar h av value)"

section \<open>do\_unify\<close>

definition equalIndirect :: "heap \<Rightarrow> word \<Rightarrow> word \<Rightarrow> bool" where
  "equalIndirect h w1 w2 = (case (w1, w2) of
     (WIndirect _ a, WIndirect _ b) \<Rightarrow> ind h a = ind h b | _ \<Rightarrow> False)"

text \<open>The state of the loop: heap, stack of links, agenda (once a compound has been met).\<close>

record ustate =
  uheap :: heap
  lstack :: "addr list"
  agenda :: "agendaLR option"

text \<open>The non-variable words of one round, after dereferencing.\<close>

definition unify_nonvar :: "nat \<Rightarrow> ustate \<Rightarrow> word \<Rightarrow> word \<Rightarrow> (unify_rc \<times> ustate + ustate) option" where
  "unify_nonvar limit st w1 w2 =
     (let h = uheap st in
      if w1 = w2 then Some (Inr st)
      else if tag w1 \<noteq> tag w2 then Some (Inl (UNIFY_FALSE, st))
      else (case (w1, w2) of
         (WTerm f1, WTerm f2) \<Rightarrow>
           (case (fdeRef h f1, fdeRef h f2) of
              (Some (r1, fd1), Some (r2, fd2)) \<Rightarrow>
                if r1 = r2 then Some (Inr st)
                else if fd1 \<noteq> fd2 then Some (Inl (UNIFY_FALSE, st))
                else
                  (case (case agenda st of
                       None \<Rightarrow> Some (initTermAgendaLR (arity fd1) (argTermP r1 0) (argTermP r2 0))
                     | Some a \<Rightarrow> pushWorkAgendaLR limit a (arity fd1) (argTermP r1 0) (argTermP r2 0)) of
                     None \<Rightarrow> Some (Inl (MEMORY_OVERFLOW, st))
                   | Some a \<Rightarrow>
                       Some (Inr (st\<lparr>uheap := linkTermsCyclic h r1 r2, lstack := r1 # lstack st,
                                     agenda := Some a\<rparr>)))
            | _ \<Rightarrow> None)
       | (WIndirect _ _, WIndirect _ _) \<Rightarrow>
           if equalIndirect h w1 w2 then Some (Inr st) else Some (Inl (UNIFY_FALSE, st))
       | _ \<Rightarrow> Some (Inl (UNIFY_FALSE, st))))"

definition unify_round :: "nat \<Rightarrow> ustate \<Rightarrow> addr \<Rightarrow> addr \<Rightarrow> (unify_rc \<times> ustate + ustate) option" where
  "unify_round limit st t1 t2 =
     (let h = uheap st in
      case (deRef h t1, deRef h t2) of
        (Some t1, Some t2) \<Rightarrow>
          let w1 = cell h t1; w2 = cell h t2; bind = (\<lambda>p w. Some (Inr (st\<lparr>uheap := Trail h p w\<rparr>))) in
          if isVar w1 then
            if tfree h \<le> 1 then Some (Inl (TRAIL_OVERFLOW, st))
            else if isVar w2 then
              if t1 < t2 then bind t2 (WRef t1)
              else if t1 = t2 then Some (Inr st)
              else bind t1 (WRef t2)
            else bind t1 (if isAttVar w2 then WRef t2 else w2)
          else if isVar w2 then
            if tfree h \<le> 1 then Some (Inl (TRAIL_OVERFLOW, st))
            else bind t2 (if isAttVar w1 then WRef t1 else w1)
          else if isAttVar w1 then
            if hasGlobalSpace h 0 then Some (Inr (st\<lparr>uheap := assignAttVar h t1 t2\<rparr>))
            else Some (Inl (overflowCode h 0, st))
          else if isAttVar w2 then
            if hasGlobalSpace h 0 then Some (Inr (st\<lparr>uheap := assignAttVar h t2 t1\<rparr>))
            else Some (Inl (overflowCode h 0, st))
          else unify_nonvar limit st w1 w2
      | _ \<Rightarrow> None)"

partial_function (option) unify_loop :: "nat \<Rightarrow> ustate \<Rightarrow> addr \<Rightarrow> addr \<Rightarrow> (unify_rc \<times> ustate) option" where
  "unify_loop limit st t1 t2 =
     (case unify_round limit st t1 t2 of
        None \<Rightarrow> None
      | Some (Inl res) \<Rightarrow> Some res
      | Some (Inr st') \<Rightarrow>
          (case agenda st' of
             None \<Rightarrow> Some (UNIFY_TRUE, st')
           | Some a \<Rightarrow>
               (case nextTermAgendaLR a of
                  None \<Rightarrow> Some (UNIFY_TRUE, st')
                | Some (l, r, a') \<Rightarrow> unify_loop limit (st'\<lparr>agenda := Some a'\<rparr>) l r)))"

declare unify_loop.simps [code]

definition do_unify :: "nat \<Rightarrow> heap \<Rightarrow> addr \<Rightarrow> addr \<Rightarrow> (unify_rc \<times> heap) option" where
  "do_unify limit h t1 t2 =
     (case unify_loop limit \<lparr>uheap = h, lstack = [], agenda = None\<rparr> t1 t2 of
        None \<Rightarrow> None
      | Some (rc, st) \<Rightarrow> Some (rc, exitCyclic (lstack st) (uheap st)))"

section \<open>Agendas as sets of pairs\<close>

definition frame_pairs :: "addr \<times> addr \<times> nat \<Rightarrow> (addr \<times> addr) set" where
  "frame_pairs fr = (case fr of (l, r, n) \<Rightarrow> {(l + i, r + i) | i. i < n})"

definition apairs :: "agendaLR \<Rightarrow> (addr \<times> addr) set" where
  "apairs a = \<Union> (frame_pairs ` set a)"

definition agenda_ok :: "agendaLR \<Rightarrow> bool" where
  "agenda_ok a \<longleftrightarrow> list_all (\<lambda>fr. 0 < snd (snd fr)) (tl a)"

definition agenda_size :: "agendaLR \<Rightarrow> nat" where
  "agenda_size a = sum_list (map (\<lambda>(l, r, n). n) a)"

lemma apairs_Cons [simp]: "apairs [] = {}" "apairs (fr # a) = frame_pairs fr \<union> apairs a"
  by (simp_all add: apairs_def)

lemma frame_pairs_simps [simp]:
  "frame_pairs (l, r, 0) = {}"
  "frame_pairs (l, r, Suc n) = insert (l, r) (frame_pairs (Suc l, Suc r, n))"
proof -
  show "frame_pairs (l, r, 0) = {}" by (simp add: frame_pairs_def)
  show "frame_pairs (l, r, Suc n) = insert (l, r) (frame_pairs (Suc l, Suc r, n))"
    unfolding frame_pairs_def by (auto simp: less_Suc_eq_0_disj)
qed

lemma next_agenda:
  assumes "nextTermAgendaLR a = Some (l, r, a')" "agenda_ok a"
  shows "apairs a = insert (l, r) (apairs a')" "agenda_ok a'" "agenda_size a' < agenda_size a"
  using assms by (cases a rule: nextTermAgendaLR.cases; auto simp: agenda_ok_def agenda_size_def gr0_conv_Suc)+

lemma next_agenda_None: "nextTermAgendaLR a = None \<Longrightarrow> apairs a = {}"
  by (cases a rule: nextTermAgendaLR.cases) auto

lemma push_agenda:
  assumes "pushWorkAgendaLR limit a n l r = Some a'" "agenda_ok a"
  shows "apairs a' = frame_pairs (l, r, n) \<union> apairs a" "agenda_ok a'"
  using assms by (auto simp: pushWorkAgendaLR_def agenda_ok_def split: list.splits nat.splits if_splits)

section \<open>What a heap equates\<close>

definition agree :: "heap \<Rightarrow> addr \<Rightarrow> addr \<Rightarrow> bool" where
  "agree h r s \<longleftrightarrow> r = s \<or>
     (cell h r = cell h s \<and> \<not> canBind (cell h r)) \<or>
     (\<exists>t a b. cell h r = WIndirect t a \<and> cell h s = WIndirect t b \<and> ind h a = ind h b) \<or>
     (\<exists>f g u fd. cell h r = WTerm f \<and> cell h s = WTerm g \<and> froot (func h) f u fd \<and> froot (func h) g u fd)"

definition base :: "heap \<Rightarrow> addr \<Rightarrow> addr \<Rightarrow> bool" where
  "base h x y \<longleftrightarrow> (\<exists>r s. derefs h x r \<and> derefs h y s \<and> agree h r s)"

lemma agree_sym: "agree h r s \<Longrightarrow> agree h s r"
  by (auto simp: agree_def)

lemma agree_trans: "agree h r s \<Longrightarrow> agree h s t \<Longrightarrow> agree h r t"
  unfolding agree_def by (elim disjE exE conjE; simp; metis froot_unique)

lemma base_sym: "base h x y \<Longrightarrow> base h y x"
  unfolding base_def by (metis agree_sym)

lemma base_trans: "base h x y \<Longrightarrow> base h y z \<Longrightarrow> base h x z"
  unfolding base_def by (metis agree_trans derefs_unique)

inductive pending :: "heap \<Rightarrow> (addr \<times> addr) set \<Rightarrow> addr \<Rightarrow> addr \<Rightarrow> bool" for h A where
  base: "base h x y \<Longrightarrow> pending h A x y"
| todo: "(x, y) \<in> A \<Longrightarrow> pending h A x y"
| sym: "pending h A x y \<Longrightarrow> pending h A y x"
| trans: "pending h A x y \<Longrightarrow> pending h A y z \<Longrightarrow> pending h A x z"

lemma pending_mono:
  assumes "pending h A x y" "\<And>x y. base h x y \<Longrightarrow> base h' x y" "\<And>x y. (x, y) \<in> A \<Longrightarrow> pending h' A' x y"
  shows "pending h' A' x y"
  using assms(1)
proof induction
  case (trans x y z)
  then show ?case by (meson pending.trans)
qed (auto intro: assms pending.base pending.sym)

lemma pending_empty: "pending h {} x y \<Longrightarrow> base h x y"
  by (induction rule: pending.induct) (auto intro: base_sym base_trans)

definition heap_ok :: "heap \<Rightarrow> bool" where
  "heap_ok h \<longleftrightarrow> (\<forall>x. \<exists>r. derefs h x r) \<and>
     (\<forall>x f. cell h x = WTerm f \<longrightarrow> (\<exists>u fd. froot (func h) f u fd)) \<and> finite (dom (func h))"

text \<open>A heap without links: every functor cell holds a functor.\<close>

definition no_links :: "heap \<Rightarrow> bool" where
  "no_links h \<longleftrightarrow> (\<forall>f g. func h f \<noteq> Some (FRef g))"

definition unify_inv :: "heap \<Rightarrow> heap \<Rightarrow> addr list \<Rightarrow> (addr \<times> addr) set \<Rightarrow> bool" where
  "unify_inv h0 h L A \<longleftrightarrow> heap_ok h \<and> ind h = ind h0 \<and>
     (\<forall>x. \<not> canBind (cell h0 x) \<longrightarrow> cell h x = cell h0 x) \<and>
     fold unlink L (func h) = func h0 \<and>
     (\<forall>f u fd. froot (func h) f u fd \<longrightarrow> func h0 f = Some (Functor fd)) \<and>
     (\<forall>f g fd. func h f = Some (FRef g) \<longrightarrow> func h0 f = Some (Functor fd) \<longrightarrow>
        (\<forall>i<arity fd. pending h A (argTermP f i) (argTermP g i)))"

section \<open>One binding\<close>

lemma bind_step:
  assumes inv: "unify_inv h0 h L A"
    and p: "canBind (cell h p)" and w: "\<not> canBind w"
    and h': "cell h' = (cell h)(p := w)" "func h' = func h" "ind h' = ind h"
    and ref: "isRef w \<Longrightarrow> \<exists>q. w = WRef q \<and> derefs h q s \<and> s \<noteq> p"
    and trm: "\<And>f. w = WTerm f \<Longrightarrow> \<exists>x. cell h x = WTerm f"
  shows "unify_inv h0 h' L A" and "base h x y \<Longrightarrow> base h' x y"
proof -
  have np: "\<not> isRef (cell h p)" using p by (cases "cell h p") (auto simp: canBind_def isVar_def)
  note db = derefs_bind [OF np h'(1) ref]
  have agr: "agree h' (if r = p \<and> isRef w then s else r) (if t = p \<and> isRef w then s else t)"
    if "agree h r t" for r t
  proof (cases "r = t")
    case False
    then have "r \<noteq> p" "t \<noteq> p" using that p by (auto simp: agree_def canBind_def isVar_def)
    then show ?thesis using that by (simp add: agree_def h')
  qed (simp add: agree_def)
  show mono: "base h x y \<Longrightarrow> base h' x y" for x y
    unfolding base_def using db agr by blast
  have "heap_ok h'"
    unfolding heap_ok_def
  proof (intro conjI allI impI)
    fix x show "\<exists>r. derefs h' x r" using inv db by (fastforce simp: unify_inv_def heap_ok_def)
  next
    fix x f assume "cell h' x = WTerm f"
    then show "\<exists>u fd. froot (func h') f u fd"
      using inv trm by (cases "x = p") (auto simp: unify_inv_def heap_ok_def h')
  next
    show "finite (dom (func h'))" using inv by (simp add: unify_inv_def heap_ok_def h')
  qed
  moreover have "cell h' x = cell h0 x" if "\<not> canBind (cell h0 x)" for x
  proof -
    have "cell h x = cell h0 x" using inv that by (simp add: unify_inv_def)
    then have "x \<noteq> p" using p that by auto
    then show ?thesis using inv that by (simp add: unify_inv_def h')
  qed
  moreover have "pending h' A x y" if "pending h A x y" for x y
    using that by (rule pending_mono) (auto intro: mono pending.todo)
  ultimately show "unify_inv h0 h' L A" using inv by (simp add: unify_inv_def h')
qed

section \<open>One link\<close>

lemma froot_link:
  assumes F': "F' = F(r1 := Some (FRef r2))" and r: "F r1 = Some (Functor fd)" "F r2 = Some (Functor fd)" "r1 \<noteq> r2"
  shows "froot F f u gd \<Longrightarrow> froot F' f (if u = r1 then r2 else u) gd"
    and "froot F' f v ed \<Longrightarrow> \<exists>u. froot F f u ed"
proof -
  show "froot F f u gd \<Longrightarrow> froot F' f (if u = r1 then r2 else u) gd"
  proof (induction rule: froot.induct)
    case (here f gd)
    have "froot F' r1 r2 fd" using r F' by (intro froot.step [of _ r1 r2] froot.here) auto
    moreover have "f \<noteq> r1 \<Longrightarrow> froot F' f f gd" using here F' by (intro froot.here) simp
    ultimately show ?case using here r(1) by (cases "f = r1") simp_all
  next
    case (step f g u gd)
    then have "f \<noteq> r1" using r by auto
    then show ?case using step F' by (intro froot.step [of _ f g]) auto
  qed
  show "froot F' f v ed \<Longrightarrow> \<exists>u. froot F f u ed"
  proof (induction rule: froot.induct)
    case (here f ed)
    then show ?case using F' by (auto split: if_splits intro: froot.here)
  next
    case (step f g v ed)
    show ?case
    proof (cases "f = r1")
      case True
      then have "g = r2" using step F' by simp
      with step.IH r have "ed = fd" by (metis froot.here froot_unique)
      then show ?thesis using True r by (auto intro: froot.here)
    next
      case False
      then show ?thesis using step F' by (auto intro: froot.step)
    qed
  qed
qed

lemma link_step:
  assumes inv: "unify_inv h0 h L A"
    and r: "func h r1 = Some (Functor fd)" "func h r2 = Some (Functor fd)" "r1 \<noteq> r2"
    and A': "A \<union> frame_pairs (argTermP r1 0, argTermP r2 0, arity fd) \<subseteq> A'"
  shows "unify_inv h0 (linkTermsCyclic h r1 r2) (r1 # L) A'"
    and "base h x y \<Longrightarrow> base (linkTermsCyclic h r1 r2) x y"
    and "froot (func h) f r1 fd \<Longrightarrow> froot (func (linkTermsCyclic h r1 r2)) f r2 fd"
    and "froot (func h) f r2 fd \<Longrightarrow> froot (func (linkTermsCyclic h r1 r2)) f r2 fd"
proof -
  define h' where "h' = linkTermsCyclic h r1 r2"
  have h': "cell h' = cell h" "ind h' = ind h" "func h' = (func h)(r1 := Some (FRef r2))"
    by (simp_all add: h'_def linkTermsCyclic_def)
  note fr = froot_link [OF h'(3) r]
  have dr: "derefs h' = derefs h" by (rule derefs_cong) (simp add: h')
  have agr: "agree h x y \<Longrightarrow> agree h' x y" for x y
    unfolding agree_def h'(1,2) using fr(1) by metis
  show mono: "base h x y \<Longrightarrow> base (linkTermsCyclic h r1 r2) x y" for x y
    using agr by (auto simp: base_def dr simp flip: h'_def)
  show "froot (func h) f r1 fd \<Longrightarrow> froot (func (linkTermsCyclic h r1 r2)) f r2 fd"
    "froot (func h) f r2 fd \<Longrightarrow> froot (func (linkTermsCyclic h r1 r2)) f r2 fd"
    using fr(1) [of f r1 fd] fr(1) [of f r2 fd] r(3) by (auto simp flip: h'_def)
  have "heap_ok h'"
  proof -
    have "\<exists>u fd. froot (func h') f u fd" if "cell h x = WTerm f" for x f
      using inv that fr(1) unfolding unify_inv_def heap_ok_def by blast
    then show ?thesis using inv by (simp add: unify_inv_def heap_ok_def dr h')
  qed
  moreover have "fold unlink (r1 # L) (func h') = func h0"
  proof -
    have "unlink r1 (func h') = func h" using r by (auto simp: unlink_def h')
    then show ?thesis using inv by (simp add: unify_inv_def)
  qed
  moreover have "froot (func h') f u gd \<Longrightarrow> func h0 f = Some (Functor gd)" for f u gd
    using fr(2) inv unfolding unify_inv_def by blast
  moreover have "pending h' A' (argTermP f i) (argTermP g i)"
    if "func h' f = Some (FRef g)" "func h0 f = Some (Functor gd)" "i < arity gd" for f g gd i
  proof (cases "f = r1")
    case True
    have "func h0 r1 = Some (Functor fd)" using inv froot.here [of "func h", OF r(1)] unfolding unify_inv_def by blast
    then have "gd = fd" "g = r2" using that True h' by auto
    then have "(argTermP f i, argTermP g i) \<in> A'"
      using A' that True by (auto simp: frame_pairs_def argTermP_def)
    then show ?thesis by (rule pending.todo)
  next
    case False
    then have "pending h A (argTermP f i) (argTermP g i)" using that inv by (simp add: unify_inv_def h')
    then show ?thesis
      by (rule pending_mono) (use mono A' in \<open>auto simp: h'_def intro: pending.todo\<close>)
  qed
  ultimately show "unify_inv h0 (linkTermsCyclic h r1 r2) (r1 # L) A'"
    using inv by (simp add: unify_inv_def h' flip: h'_def)
qed

section \<open>One round\<close>

lemma base_intro: "derefs h x r \<Longrightarrow> derefs h y s \<Longrightarrow> agree h r s \<Longrightarrow> base h x y"
  by (auto simp: base_def)

lemma Trail_sel [simp]:
  "cell (Trail h p w) = (cell h)(p := w)" "func (Trail h p w) = func h" "ind (Trail h p w) = ind h"
  by (simp_all add: Trail_def Let_def)

lemma bindAttVar_sel:
  assumes "isAttVar (cell h av)" "\<not> isRef (cell h value)"
  shows "cell (bindAttVar h av value) =
      (cell h)(av := if isAttVar (cell h value) then WRef value else cell h value)"
    "func (bindAttVar h av value) = func h" "ind (bindAttVar h av value) = ind h"
  using assms by (cases "cell h av"; simp add: bindAttVar_def TrailAssignment_def registerWakeup_def Let_def)+

definition upairs :: "ustate \<Rightarrow> (addr \<times> addr) set" where
  "upairs st = (case agenda st of None \<Rightarrow> {} | Some a \<Rightarrow> apairs a)"

definition ustate_ok :: "heap \<Rightarrow> ustate \<Rightarrow> (addr \<times> addr) set \<Rightarrow> bool" where
  "ustate_ok h0 st A \<longleftrightarrow> unify_inv h0 (uheap st) (lstack st) A \<and>
     (\<forall>a. agenda st = Some a \<longrightarrow> agenda_ok a)"

text \<open>A cell bound to the other side equates the two.\<close>

lemma bound_agrees:
  assumes inv: "unify_inv h0 h L A" and d: "derefs h t1 p" "derefs h t2 q" and p: "canBind (cell h p)"
    and w: "w = (if canBind (cell h q) then WRef q else cell h q)" and ne: "p \<noteq> q"
    and h': "cell h' = (cell h)(p := w)" "func h' = func h" "ind h' = ind h"
  shows "unify_inv h0 h' L A" and "base h x y \<Longrightarrow> base h' x y" and "base h' t1 t2"
proof -
  have nr: "\<not> isRef (cell h q)" using derefs_end [OF d(2)] .
  have np: "\<not> isRef (cell h p)" using derefs_end [OF d(1)] .
  have w': "\<not> canBind w" "isRef w \<Longrightarrow> \<exists>s'. w = WRef s' \<and> derefs h s' q \<and> q \<noteq> p"
    "\<And>f. w = WTerm f \<Longrightarrow> \<exists>x. cell h x = WTerm f"
    using w nr ne by (auto simp: canBind_def isVar_def derefs_self split: if_splits)
  note b = bind_step [OF inv p w'(1) h' w'(2,3)]
  show "unify_inv h0 h' L A" by (rule b(1))
  show "base h x y \<Longrightarrow> base h' x y" by (rule b(2))
  have db: "derefs h x r \<Longrightarrow> derefs h' x (if r = p \<and> isRef w then q else r)" for x r
    by (rule derefs_bind [OF np h'(1)]) (use w'(2) in auto)
  have d1: "derefs h' t1 (if isRef w then q else p)" using db [OF d(1)] by simp
  have d2: "derefs h' t2 q" using db [OF d(2)] ne by auto
  have "agree h' (if isRef w then q else p) q"
    using w nr ne by (auto simp: agree_def h' split: if_splits)
  then show "base h' t1 t2" by (rule base_intro [OF d1 d2])
qed

text \<open>The measure of the loop: unlinked functor cells, then the size of the agenda.\<close>

definition unlinked :: "heap \<Rightarrow> nat" where
  "unlinked h = card {f. \<exists>fd. func h f = Some (Functor fd)}"

lemma unlinked_link:
  assumes "heap_ok h" "func h r1 = Some (Functor fd)"
  shows "unlinked (linkTermsCyclic h r1 r2) < unlinked h"
proof -
  have "finite {f. \<exists>fd. func h f = Some (Functor fd)}"
    using assms by (auto simp: heap_ok_def dom_def intro: rev_finite_subset)
  moreover have "{f. \<exists>fd. func (linkTermsCyclic h r1 r2) f = Some (Functor fd)} \<subset>
      {f. \<exists>fd. func h f = Some (Functor fd)}"
    using assms(2) by (auto simp: linkTermsCyclic_def)
  ultimately show ?thesis unfolding unlinked_def by (rule psubset_card_mono)
qed

definition asize :: "ustate \<Rightarrow> nat" where
  "asize st = (case agenda st of None \<Rightarrow> 0 | Some a \<Rightarrow> agenda_size a)"

text \<open>What a round keeps: \<open>A\<close> are the pairs the round was called with.\<close>

definition round_post :: "heap \<Rightarrow> ustate \<Rightarrow> addr \<Rightarrow> addr \<Rightarrow> unify_rc \<times> ustate + ustate \<Rightarrow> bool" where
  "round_post h0 st t1 t2 res = (case res of
     Inl (rc, st') \<Rightarrow> rc \<noteq> UNIFY_TRUE \<and> st' = st
   | Inr st' \<Rightarrow> ustate_ok h0 st' (upairs st') \<and> upairs st \<subseteq> upairs st' \<and>
       (\<forall>x y. base (uheap st) x y \<longrightarrow> base (uheap st') x y) \<and> base (uheap st') t1 t2 \<and>
       (unlinked (uheap st') < unlinked (uheap st) \<or>
        unlinked (uheap st') = unlinked (uheap st) \<and> agenda st' = agenda st))"

lemma pending_drop:
  assumes "ustate_ok h0 st (insert (t1, t2) A)" "base (uheap st) t1 t2"
  shows "ustate_ok h0 st A"
proof -
  have "pending (uheap st) A x y" if "pending (uheap st) (insert (t1, t2) A) x y" for x y
    using that by (rule pending_mono) (use assms(2) in \<open>auto intro: pending.base pending.todo\<close>)
  then show ?thesis using assms(1) by (simp add: ustate_ok_def unify_inv_def)
qed

lemma round_bind:
  assumes ok: "ustate_ok h0 st (insert (t1, t2) (upairs st))"
    and d: "derefs (uheap st) t1 p" "derefs (uheap st) t2 q" and p: "canBind (cell (uheap st) p)"
    and w: "w = (if canBind (cell (uheap st) q) then WRef q else cell (uheap st) q)" and ne: "p \<noteq> q"
    and h': "cell h' = (cell (uheap st))(p := w)" "func h' = func (uheap st)" "ind h' = ind (uheap st)"
  shows "round_post h0 st t1 t2 (Inr (st\<lparr>uheap := h'\<rparr>))"
proof -
  have inv: "unify_inv h0 (uheap st) (lstack st) (insert (t1, t2) (upairs st))"
    using ok by (simp add: ustate_ok_def)
  note b = bound_agrees [OF inv d p w ne h']
  from b(1) have "ustate_ok h0 (st\<lparr>uheap := h'\<rparr>) (insert (t1, t2) (upairs st))" using ok by (simp add: ustate_ok_def)
  moreover note b(3)
  ultimately have "ustate_ok h0 (st\<lparr>uheap := h'\<rparr>) (upairs st)" using pending_drop by simp
  with b(2,3) show ?thesis using h'(2)
    by (simp add: round_post_def upairs_def unlinked_def)
qed

lemma round_bind_sym:
  assumes "round_post h0 st t2 t1 (Inr st')"
  shows "round_post h0 st t1 t2 (Inr st')"
  using assms by (auto simp: round_post_def base_sym)

lemma round_skip:
  assumes "ustate_ok h0 st (insert (t1, t2) (upairs st))" "base (uheap st) t1 t2"
  shows "round_post h0 st t1 t2 (Inr st)"
  using pending_drop [OF assms] assms(2) by (simp add: round_post_def)

lemma round_link:
  assumes ok: "ustate_ok h0 st (insert (t1, t2) (upairs st))"
    and d: "derefs (uheap st) t1 p" "derefs (uheap st) t2 q"
    and w: "cell (uheap st) p = WTerm f1" "cell (uheap st) q = WTerm f2"
    and f: "froot (func (uheap st)) f1 r1 fd" "froot (func (uheap st)) f2 r2 fd" "r1 \<noteq> r2"
    and a: "apairs a = frame_pairs (argTermP r1 0, argTermP r2 0, arity fd) \<union> upairs st" "agenda_ok a"
  shows "round_post h0 st t1 t2
    (Inr (st\<lparr>uheap := linkTermsCyclic (uheap st) r1 r2, lstack := r1 # lstack st, agenda := Some a\<rparr>))"
proof -
  let ?h = "uheap st" and ?h' = "linkTermsCyclic (uheap st) r1 r2"
  have inv: "unify_inv h0 ?h (lstack st) (insert (t1, t2) (upairs st))" using ok by (simp add: ustate_ok_def)
  note r = froot_end [OF f(1)] froot_end [OF f(2)]
  have sub: "insert (t1, t2) (upairs st) \<union> frame_pairs (argTermP r1 0, argTermP r2 0, arity fd)
      \<subseteq> insert (t1, t2) (apairs a)" unfolding a(1) by blast
  note l = link_step [OF inv r f(3) sub]
  have sel: "derefs ?h' = derefs ?h" "cell ?h' = cell ?h"
    by (rule derefs_cong) (simp_all add: linkTermsCyclic_def)
  have agr: "agree ?h' p q"
    using w l(3) [OF f(1)] l(4) [OF f(2)] unfolding agree_def sel by blast
  have b: "base ?h' t1 t2"
    by (rule base_intro [OF _ _ agr]) (simp_all add: sel d)
  have "ustate_ok h0 (st\<lparr>uheap := ?h', lstack := r1 # lstack st, agenda := Some a\<rparr>) (insert (t1, t2) (apairs a))"
    using l(1) a(2) by (simp add: ustate_ok_def)
  from pending_drop [OF this] b
  have "ustate_ok h0 (st\<lparr>uheap := ?h', lstack := r1 # lstack st, agenda := Some a\<rparr>) (apairs a)" by simp
  moreover have "unlinked ?h' < unlinked ?h" using inv r(1) by (intro unlinked_link) (simp_all add: unify_inv_def)
  moreover have "\<forall>x y. base ?h x y \<longrightarrow> base ?h' x y" using l(2) by blast
  moreover have "upairs st \<subseteq> apairs a" using a(1) by blast
  ultimately show ?thesis using b by (simp add: round_post_def upairs_def)
qed

lemma nonvar_post:
  assumes ok: "ustate_ok h0 st (insert (t1, t2) (upairs st))"
    and d: "derefs (uheap st) t1 p" "derefs (uheap st) t2 q"
    and nv: "\<not> canBind (cell (uheap st) p)" "\<not> canBind (cell (uheap st) q)"
  shows "\<exists>res. unify_nonvar limit st (cell (uheap st) p) (cell (uheap st) q) = Some res \<and>
    round_post h0 st t1 t2 res"
proof (cases "cell (uheap st) p = cell (uheap st) q")
  case True
  then have "base (uheap st) t1 t2" using d nv by (intro base_intro [of _ _ p _ q]) (auto simp: agree_def)
  then show ?thesis using round_skip [OF ok] True by (simp add: unify_nonvar_def)
next
  case False
  note fail = exI [of _ "Inl (UNIFY_FALSE, st)"]
  show ?thesis
  proof (cases "\<exists>f1 f2. cell (uheap st) p = WTerm f1 \<and> cell (uheap st) q = WTerm f2")
    case True
    then obtain f1 f2 where w: "cell (uheap st) p = WTerm f1" "cell (uheap st) q = WTerm f2" by auto
    then obtain r1 fd1 r2 fd2 where f: "froot (func (uheap st)) f1 r1 fd1" "froot (func (uheap st)) f2 r2 fd2"
      using ok by (auto simp: ustate_ok_def unify_inv_def heap_ok_def) metis
    then have fd: "fdeRef (uheap st) f1 = Some (r1, fd1)" "fdeRef (uheap st) f2 = Some (r2, fd2)"
      by (simp_all add: fdeRef_iff)
    consider "r1 = r2" | "r1 \<noteq> r2" "fd1 \<noteq> fd2" | "r1 \<noteq> r2" "fd1 = fd2" by blast
    then show ?thesis
    proof cases
      case 1
      then have "fd1 = fd2" using froot_end [OF f(1)] froot_end [OF f(2)] by simp
      then have "agree (uheap st) p q" using w f 1 unfolding agree_def by blast
      from round_skip [OF ok base_intro [OF d this]] 1 w fd False show ?thesis
        by (simp add: unify_nonvar_def)
    next
      case 2
      then show ?thesis using w fd False by (intro fail) (simp add: unify_nonvar_def round_post_def)
    next
      case 3
      have fd': "fdeRef (uheap st) f2 = Some (r2, fd1)" "froot (func (uheap st)) f2 r2 fd1"
        using fd(2) f(2) 3(2) by simp_all
      let ?push = "case agenda st of
          None \<Rightarrow> Some (initTermAgendaLR (arity fd1) (argTermP r1 0) (argTermP r2 0))
        | Some a \<Rightarrow> pushWorkAgendaLR limit a (arity fd1) (argTermP r1 0) (argTermP r2 0)"
      show ?thesis
      proof (cases ?push)
        case None
        then show ?thesis using w fd(1) fd'(1) False 3(1)
          by (intro exI [of _ "Inl (MEMORY_OVERFLOW, st)"]) (simp add: unify_nonvar_def round_post_def)
      next
        case (Some a)
        have "apairs a = frame_pairs (argTermP r1 0, argTermP r2 0, arity fd1) \<union> upairs st \<and> agenda_ok a"
        proof (cases "agenda st")
          case None
          then show ?thesis using Some
            by (auto simp: upairs_def initTermAgendaLR_def agenda_ok_def)
        next
          case (Some b)
          then show ?thesis using push_agenda [of limit b "arity fd1" "argTermP r1 0" "argTermP r2 0" a]
            \<open>?push = Option.Some a\<close> ok by (simp add: upairs_def ustate_ok_def)
        qed
        with round_link [OF ok d w f(1) fd'(2) 3(1), of a] w fd(1) fd'(1) 3(1) False Some show ?thesis
          by (simp add: unify_nonvar_def)
      qed
    qed
  next
    case nt: False
    show ?thesis
    proof (cases "\<exists>t a t' b. cell (uheap st) p = WIndirect t a \<and> cell (uheap st) q = WIndirect t' b")
      case True
      then obtain t a t' b where w: "cell (uheap st) p = WIndirect t a" "cell (uheap st) q = WIndirect t' b" by auto
      show ?thesis
      proof (cases "tag (WIndirect t a) = tag (WIndirect t' b) \<and> ind (uheap st) a = ind (uheap st) b")
        case True
        then have "t = t'" by (cases t; cases t') auto
        with True w have "agree (uheap st) p q" unfolding agree_def by blast
        from round_skip [OF ok base_intro [OF d this]] w True False show ?thesis
          by (simp add: unify_nonvar_def equalIndirect_def Let_def)
      next
        case ne: False
        then show ?thesis using w False
          by (intro fail) (auto simp: unify_nonvar_def round_post_def equalIndirect_def Let_def)
      qed
    next
      case ni: False
      have "unify_nonvar limit st (cell (uheap st) p) (cell (uheap st) q) = Some (Inl (UNIFY_FALSE, st))"
        using False nt ni by (auto simp: unify_nonvar_def Let_def split: word.splits)
      then show ?thesis by (intro fail) (simp add: round_post_def)
    qed
  qed
qed

lemma ok_swap:
  assumes "ustate_ok h0 st (insert (t1, t2) A)"
  shows "ustate_ok h0 st (insert (t2, t1) A)"
proof -
  have "pending (uheap st) (insert (t2, t1) A) x y" if "pending (uheap st) (insert (t1, t2) A) x y" for x y
    using that by (rule pending_mono) (auto intro: pending.base pending.todo pending.sym)
  then show ?thesis using assms by (simp add: ustate_ok_def unify_inv_def)
qed

lemma attvar_post:
  assumes ok: "ustate_ok h0 st (insert (t1, t2) (upairs st))"
    and d: "derefs (uheap st) t1 p" "derefs (uheap st) t2 q"
    and w: "isAttVar (cell (uheap st) p)" "\<not> isVar (cell (uheap st) q)"
  shows "round_post h0 st t1 t2 (Inr (st\<lparr>uheap := assignAttVar (uheap st) p q\<rparr>))"
proof -
  have bp: "canBind (cell (uheap st) p)" using w by (simp add: canBind_def)
  have nr: "\<not> isRef (cell (uheap st) q)" "\<not> isRef (cell (uheap st) p)" using d derefs_end by auto
  have forward: "round_post h0 st t1 t2 (Inr (st\<lparr>uheap := bindAttVar (uheap st) p q\<rparr>))" if "p \<noteq> q"
    using that w by (intro round_bind [OF ok d bp refl] ) (simp_all add: bindAttVar_sel nr canBind_def)
  show ?thesis
  proof (cases "isAttVar (cell (uheap st) q)")
    case True
    have bq: "canBind (cell (uheap st) q)" using True by (simp add: canBind_def)
    have backward: "round_post h0 st t2 t1 (Inr (st\<lparr>uheap := bindAttVar (uheap st) q p\<rparr>))" if "p \<noteq> q"
      using that w True by (intro round_bind [OF ok_swap [OF ok] d(2,1) bq refl])
        (auto simp add: bindAttVar_sel nr canBind_def)
    consider "p < q" | "p = q" | "q < p" by linarith
    then show ?thesis
    proof cases
      case 1
      then show ?thesis using True round_bind_sym [OF backward] by (simp add: assignAttVar_def)
    next
      case 2
      then have "base (uheap st) t1 t2" using d by (intro base_intro [of _ _ p _ q]) (auto simp: agree_def)
      from round_skip [OF ok this] 2 True show ?thesis by (simp add: assignAttVar_def)
    next
      case 3
      then show ?thesis using True forward by (simp add: assignAttVar_def)
    qed
  next
    case False
    then have "p \<noteq> q" using w by auto
    with forward False show ?thesis by (simp add: assignAttVar_def)
  qed
qed

lemma round_Trail:
  assumes ok: "ustate_ok h0 st (insert (t1, t2) (upairs st))"
    and d: "derefs (uheap st) t1 p" "derefs (uheap st) t2 q" "p \<noteq> q" "isVar (cell (uheap st) p)"
    and w: "w = (if canBind (cell (uheap st) q) then WRef q else cell (uheap st) q)"
  shows "round_post h0 st t1 t2 (Inr (st\<lparr>uheap := Trail (uheap st) p w\<rparr>))"
  by (rule round_bind [OF ok d(1,2) _ w d(3)]) (simp_all add: canBind_def d)

lemma unify_round_post:
  assumes ok: "ustate_ok h0 st (insert (t1, t2) (upairs st))"
  shows "\<exists>res. unify_round limit st t1 t2 = Some res \<and> round_post h0 st t1 t2 res"
proof -
  let ?h = "uheap st"
  obtain p q where d: "derefs ?h t1 p" "derefs ?h t2 q"
    using ok by (auto simp: ustate_ok_def unify_inv_def heap_ok_def) metis
  then have dr: "deRef ?h t1 = Some p" "deRef ?h t2 = Some q" by (simp_all add: deRef_iff)
  have ov: "overflowCode ?h 0 \<noteq> UNIFY_TRUE" by (simp add: overflowCode_def)
  note def = unify_round_def dr Let_def
  consider "isVar (cell ?h p)" "tfree ?h \<le> 1" | "isVar (cell ?h q)" "tfree ?h \<le> 1"
    | "isVar (cell ?h p)" "p = q" "\<not> tfree ?h \<le> 1"
    | "isVar (cell ?h p)" "isVar (cell ?h q)" "p < q" "\<not> tfree ?h \<le> 1"
    | "isVar (cell ?h p)" "isVar (cell ?h q) \<longrightarrow> q < p" "p \<noteq> q" "\<not> tfree ?h \<le> 1"
    | "\<not> isVar (cell ?h p)" "isVar (cell ?h q)" "\<not> tfree ?h \<le> 1"
    | "\<not> isVar (cell ?h p)" "\<not> isVar (cell ?h q)"
    by linarith
  then show ?thesis
  proof cases
    case 1
    then show ?thesis by (simp add: def round_post_def)
  next
    case 2
    then show ?thesis by (cases "isVar (cell ?h p)") (simp_all add: def round_post_def)
  next
    case 3
    then have "base ?h t1 t2" using d by (intro base_intro [of _ _ p _ q]) (auto simp: agree_def)
    from round_skip [OF ok this] 3 show ?thesis by (simp add: def)
  next
    case 4
    then show ?thesis using round_bind_sym [OF round_Trail [OF ok_swap [OF ok] d(2,1) _ _ refl]]
      by (simp add: def canBind_def)
  next
    case 5
    then show ?thesis using round_Trail [OF ok d _ _ refl] by (auto simp add: def canBind_def)
  next
    case 6
    then have "p \<noteq> q" by auto
    then show ?thesis using 6 round_bind_sym [OF round_Trail [OF ok_swap [OF ok] d(2,1) _ _ refl]]
      by (simp add: def canBind_def)
  next
    case 7
    show ?thesis
    proof (cases "isAttVar (cell ?h p) \<or> isAttVar (cell ?h q)")
      case True
      then show ?thesis
        using 7 ov attvar_post [OF ok d] round_bind_sym [OF attvar_post [OF ok_swap [OF ok] d(2,1)]]
        by (auto simp: def round_post_def [of _ _ _ _ "Inl _"])
    next
      case False
      then show ?thesis using 7 nonvar_post [OF ok d] by (simp add: def canBind_def)
    qed
  qed
qed

section \<open>The loop\<close>

lemma unify_loop_post:
  assumes "ustate_ok h0 st (insert (t1, t2) (upairs st))"
  shows "\<exists>rc st'. unify_loop limit st t1 t2 = Some (rc, st') \<and>
    (\<exists>A. unify_inv h0 (uheap st') (lstack st') A) \<and>
    (rc = UNIFY_TRUE \<longrightarrow> unify_inv h0 (uheap st') (lstack st') {} \<and>
       (\<forall>x y. base (uheap st) x y \<longrightarrow> base (uheap st') x y) \<and> base (uheap st') t1 t2)"
  using assms
proof (induction st arbitrary: t1 t2
    rule: wf_induct_rule [OF wf_measures [of "[\<lambda>st. unlinked (uheap st), asize]"]])
  case (1 st)
  obtain res where res: "unify_round limit st t1 t2 = Some res" "round_post h0 st t1 t2 res"
    using unify_round_post [OF 1(2)] by blast
  show ?case
  proof (cases res)
    case (Inl r)
    then have "fst r \<noteq> UNIFY_TRUE" "snd r = st" using res(2) by (auto simp: round_post_def split: prod.splits)
    then show ?thesis using res(1) Inl 1(2)
      by (subst unify_loop.simps) (cases r, auto simp: ustate_ok_def)
  next
    case (Inr st1)
    note post = res(2) [unfolded Inr round_post_def sum.case]
    have ok1: "ustate_ok h0 st1 (upairs st1)" using post by blast
    show ?thesis
    proof (cases "\<exists>a l r a'. agenda st1 = Some a \<and> nextTermAgendaLR a = Some (l, r, a')")
      case False
      then have "upairs st1 = {}"
        using next_agenda_None [of "the (agenda st1)"]
        by (cases "agenda st1"; cases "nextTermAgendaLR (the (agenda st1))") (auto simp: upairs_def)
      moreover have "unify_loop limit st t1 t2 = Some (UNIFY_TRUE, st1)"
        using res(1) Inr False by (subst unify_loop.simps) (auto split: option.splits)
      ultimately show ?thesis using ok1 post by (auto simp: ustate_ok_def)
    next
      case True
      then obtain a l r a' where a: "agenda st1 = Some a" "nextTermAgendaLR a = Some (l, r, a')" by blast
      have aok: "agenda_ok a" using ok1 a by (simp add: ustate_ok_def)
      note n = next_agenda [OF a(2) aok]
      define st2 where "st2 = st1\<lparr>agenda := Some a'\<rparr>"
      have sel: "uheap st2 = uheap st1" "upairs st2 = apairs a'" "asize st2 = agenda_size a'"
        by (simp_all add: st2_def upairs_def asize_def)
      have "upairs st1 = insert (l, r) (apairs a')" using n a by (simp add: upairs_def)
      then have ok2: "ustate_ok h0 st2 (insert (l, r) (upairs st2))"
        using ok1 n(2) by (simp add: ustate_ok_def sel) (simp add: st2_def)
      have "agenda st1 = agenda st \<Longrightarrow> asize st = agenda_size a" using a(1) by (metis asize_def option.simps(5))
      then have "(st2, st) \<in> measures [\<lambda>st. unlinked (uheap st), asize]"
        using post n(3) by (auto simp: sel)
      from 1(1) [OF this ok2] obtain rc st' where st':
        "unify_loop limit st2 l r = Some (rc, st')" "\<exists>A. unify_inv h0 (uheap st') (lstack st') A"
        "rc = UNIFY_TRUE \<longrightarrow> unify_inv h0 (uheap st') (lstack st') {} \<and>
           (\<forall>x y. base (uheap st1) x y \<longrightarrow> base (uheap st') x y)" by (auto simp: sel)
      moreover have "unify_loop limit st t1 t2 = unify_loop limit st2 l r"
        using res(1) Inr a by (subst unify_loop.simps) (simp add: st2_def)
      ultimately show ?thesis using post by auto
    qed
  qed
qed

section \<open>Equal terms\<close>

text \<open>
  Two cells of a heap without links denote the same (possibly infinite) term: the same variable, equal
  constants, or compounds with the same functor and pairwise equal arguments.
\<close>

coinductive unified :: "heap \<Rightarrow> addr \<Rightarrow> addr \<Rightarrow> bool" for h where
  same: "derefs h x r \<Longrightarrow> derefs h y r \<Longrightarrow> unified h x y"
| const: "derefs h x r \<Longrightarrow> derefs h y s \<Longrightarrow> cell h r = cell h s \<Longrightarrow> \<not> canBind (cell h r) \<Longrightarrow>
    \<not> isTerm (cell h r) \<Longrightarrow> unified h x y"
| indirect: "derefs h x r \<Longrightarrow> derefs h y s \<Longrightarrow> cell h r = WIndirect t a \<Longrightarrow> cell h s = WIndirect t b \<Longrightarrow>
    ind h a = ind h b \<Longrightarrow> unified h x y"
| compound: "derefs h x r \<Longrightarrow> derefs h y s \<Longrightarrow> cell h r = WTerm f \<Longrightarrow> cell h s = WTerm g \<Longrightarrow>
    func h f = Some (Functor fd) \<Longrightarrow> func h g = Some (Functor fd) \<Longrightarrow>
    (\<And>i. i < arity fd \<Longrightarrow> unified h (argTermP f i) (argTermP g i)) \<Longrightarrow> unified h x y"

lemma base_refl:
  assumes "unify_inv h0 h L A"
  shows "base h z z"
proof -
  obtain r where "derefs h z r" using assms unfolding unify_inv_def heap_ok_def by blast
  then show ?thesis by (intro base_intro) (auto simp: agree_def)
qed

lemma linked_args:
  assumes inv: "unify_inv h0 h L {}" and "froot (func h) f u fd" "i < arity fd"
  shows "base h (argTermP f i) (argTermP u i)"
  using assms(2,3)
proof (induction rule: froot.induct)
  case (here f fd)
  show ?case by (rule base_refl [OF inv])
next
  case (step f g u fd)
  have "func h0 f = Some (Functor fd)"
    using inv froot.step [OF step(1,2)] unfolding unify_inv_def by blast
  then have "pending h {} (argTermP f i) (argTermP g i)"
    using inv step(1,4) unfolding unify_inv_def by blast
  then show ?case using pending_empty base_trans step by blast
qed

lemma base_unified:
  assumes inv: "unify_inv h0 h L {}" and hf: "cell hf = cell h" "ind hf = ind h" "func hf = func h0"
  shows "base h x y \<Longrightarrow> unified hf x y"
proof (coinduction arbitrary: x y)
  case (unified x y)
  have dr: "derefs hf = derefs h" by (rule derefs_cong) (simp add: hf)
  have fdef: "func hf f = Some (Functor fd)" if "froot (func h) f u fd" for f u fd
    using inv that unfolding unify_inv_def hf by blast
  note refl = base_refl [OF inv]
  obtain r s where rs: "derefs h x r" "derefs h y s" "agree h r s" using unified by (auto simp: base_def)
  from rs(3) show ?case unfolding agree_def
  proof (elim disjE conjE exE)
    assume "r = s"
    then show ?thesis using rs by (auto simp: dr)
  next
    assume c: "cell h r = cell h s" "\<not> canBind (cell h r)"
    show ?thesis
    proof (cases "isTerm (cell h r)")
      case True
      then obtain f where WTerm: "cell h r = WTerm f" by (cases "cell h r") auto
      then obtain u fd where "froot (func h) f u fd" using inv unfolding unify_inv_def heap_ok_def by blast
      note f = fdef [OF this]
      have "derefs hf x r" "derefs hf y s" "cell hf r = WTerm f" "cell hf s = WTerm f"
        using rs c WTerm by (simp_all add: dr hf)
      with f refl show ?thesis by (intro disjI2) blast
    next
      case False
      have "derefs hf x r" "derefs hf y s" "cell hf r = cell hf s" "\<not> canBind (cell hf r)" "\<not> isTerm (cell hf r)"
        using rs c False by (simp_all add: dr hf)
      then show ?thesis by - (rule disjI2, rule disjI1, blast)
    qed
  next
    fix t a b
    assume "cell h r = WIndirect t a" "cell h s = WIndirect t b" "ind h a = ind h b"
    then show ?thesis using rs by (auto simp: dr hf)
  next
    fix f g u fd
    assume c: "cell h r = WTerm f" "cell h s = WTerm g" "froot (func h) f u fd" "froot (func h) g u fd"
    have "base h (argTermP f i) (argTermP g i)" if "i < arity fd" for i
      using linked_args [OF inv c(3) that] linked_args [OF inv c(4) that] base_sym base_trans by blast
    moreover have "derefs hf x r" "derefs hf y s" "cell hf r = WTerm f" "cell hf s = WTerm g"
      using rs c by (simp_all add: dr hf)
    ultimately show ?thesis using fdef [OF c(3)] fdef [OF c(4)] by (intro disjI2) blast
  qed
qed

section \<open>Properties\<close>

text \<open>C1: on every heap without unfinished operations, cyclic terms included, \<^theory_text>\<open>do_unify\<close> returns;
  it has undone all its links, changed nothing but variables and left every reference chain finite;
  when it reports success the two terms are the same possibly infinite term.\<close>
theorem do_unify_correct:
  assumes "heap_ok h" "no_links h"
  shows "\<exists>rc h'. do_unify limit h t1 t2 = Some (rc, h') \<and> func h' = func h \<and> ind h' = ind h \<and>
    (\<forall>x. \<not> canBind (cell h x) \<longrightarrow> cell h' x = cell h x) \<and> (\<forall>x. \<exists>r. derefs h' x r) \<and>
    (rc = UNIFY_TRUE \<longrightarrow> unified h' t1 t2)"
proof -
  define st where "st = \<lparr>uheap = h, lstack = [], agenda = None\<rparr>"
  have "func h f = Some (Functor fd)" if "froot (func h) f u fd" for f u fd
    using that assms(2) by (cases rule: froot.cases) (auto simp: no_links_def)
  then have ok: "ustate_ok h st (insert (t1, t2) (upairs st))"
    using assms by (auto simp: ustate_ok_def unify_inv_def st_def no_links_def)
  obtain rc st' A where st': "unify_loop limit st t1 t2 = Some (rc, st')"
    "unify_inv h (uheap st') (lstack st') A"
    "rc = UNIFY_TRUE \<longrightarrow> unify_inv h (uheap st') (lstack st') {} \<and> base (uheap st') t1 t2"
    using unify_loop_post [OF ok] by blast
  define h' where "h' = exitCyclic (lstack st') (uheap st')"
  have h': "cell h' = cell (uheap st')" "ind h' = ind (uheap st')" "func h' = func h"
    using st'(2) by (simp_all add: h'_def exitCyclic_def unify_inv_def)
  have "derefs h' = derefs (uheap st')" by (rule derefs_cong) (simp add: h')
  moreover have "do_unify limit h t1 t2 = Some (rc, h')"
    using st'(1) by (simp add: do_unify_def st_def h'_def)
  moreover have "rc = UNIFY_TRUE \<Longrightarrow> unified h' t1 t2"
    using st'(3) base_unified [OF _ h'] by blast
  ultimately show ?thesis using st'(2) h' by (auto simp: unify_inv_def heap_ok_def)
qed

text \<open>Two cyclic terms \<open>X = f(X)\<close>, one with a period of one and one with a period of two cells.\<close>

definition cyclic_heap :: heap where
  "cyclic_heap = \<lparr>
     cell = (\<lambda>_. WVar)(0 := WTerm 10, 1 := WTerm 20, 11 := WTerm 10, 21 := WTerm 30, 31 := WTerm 20),
     func = (\<lambda>_. None)(10 := Some (Functor \<lparr>fname = 7, arity = 1\<rparr>),
       20 := Some (Functor \<lparr>fname = 7, arity = 1\<rparr>), 30 := Some (Functor \<lparr>fname = 7, arity = 1\<rparr>)),
     ind = (\<lambda>_. IInt64 0), mark_bar = 0, lBase = 100, gfree = 50, tfree = 50, trail = [], wakeup = []\<rparr>"

theorem do_unify_correct_witness:
  "\<exists>h'. do_unify 10 cyclic_heap 0 1 = Some (UNIFY_TRUE, h') \<and> unified h' 0 1"
proof -
  have "derefs cyclic_heap x x" for x by (rule derefs.here) (simp add: cyclic_heap_def)
  then have ok: "heap_ok cyclic_heap"
    unfolding heap_ok_def
    by (auto simp: cyclic_heap_def split: if_splits intro!: exI froot.here)
  have "no_links cyclic_heap" by (simp add: no_links_def cyclic_heap_def)
  from do_unify_correct [OF ok this, of 10 0 1] obtain rc h' where
    h': "do_unify 10 cyclic_heap 0 1 = Some (rc, h')" "rc = UNIFY_TRUE \<longrightarrow> unified h' 0 1" by blast
  have "map_option fst (do_unify 10 cyclic_heap 0 1) = Some UNIFY_TRUE" by code_simp
  with h' show ?thesis by auto
qed

end
