(* ===== verification/PL_Compare.thy ===== *)
theory PL_Compare
  imports PL_Unify PL_Arith
begin

text \<open>
  The standard order of terms of pl-prims.c: comparison of atoms, strings, numbers and compounds
  (with the links that make it terminate on cyclic terms), compare/3 and the comparison predicates.
\<close>

section \<open>Text and atoms\<close>

text \<open>The first difference within \<open>l\<close> characters (both texts have that many).\<close>

fun text_diff :: "nat \<Rightarrow> nat list \<Rightarrow> nat list \<Rightarrow> int" where
  "text_diff (Suc l) (a # s) (b # q) =
     (if a = b then text_diff l s q else if b < a then CMP_GREATER else CMP_LESS)"
| "text_diff _ _ _ = CMP_EQUAL"

text \<open>\<^theory_text>\<open>PL_cmp_text\<close>: the lengths are signed, the four encodings read the same characters.\<close>

definition PL_cmp_text :: "nat list \<Rightarrow> nat \<Rightarrow> nat list \<Rightarrow> nat \<Rightarrow> nat \<Rightarrow> int" where
  "PL_cmp_text t1 o1 t2 o2 len =
     (let l0 = int len;
          r1 = int (length t1) - int o1;
          (l1, ifeq1) = (if r1 < l0 then (r1, CMP_LESS) else (l0, 0));
          r2 = int (length t2) - int o2;
          (l, ifeq) = (if r2 < l1 then (r2, if ifeq1 = 0 then CMP_GREATER else ifeq1) else (l1, ifeq1))
      in if l = 0 then ifeq
         else let d = text_diff (nat l) (drop o1 t1) (drop o2 t2) in
              if d = CMP_EQUAL then ifeq else d)"

record blob_type =
  rank :: int
  is_text :: bool

record atom =
  atype :: blob_type
  chars :: "nat list"

text \<open>The atom table and the \<^theory_text>\<open>compare\<close> callbacks of the blob types.\<close>

record atom_table =
  atomValue :: "atom_t \<Rightarrow> atom"
  bcompare :: "blob_type \<Rightarrow> (atom_t \<Rightarrow> atom_t \<Rightarrow> int) option"

definition text_order :: "nat list \<Rightarrow> nat list \<Rightarrow> int" where
  "text_order s1 s2 =
     (let l = (if length s1 \<le> length s2 then length s1 else length s2); v = text_diff l s1 s2 in
      if v \<noteq> 0 then (if v < 0 then CMP_LESS else CMP_GREATER)
      else if length s1 = length s2 then CMP_EQUAL
      else if length s1 < length s2 then CMP_LESS else CMP_GREATER)"


definition compareAtoms :: "atom_table \<Rightarrow> atom_t \<Rightarrow> atom_t \<Rightarrow> int" where
  "compareAtoms T w1 w2 =
     (let a1 = atomValue T w1; a2 = atomValue T w2 in
      if atype a1 = atype a2 then
        (case bcompare T (atype a1) of
           Some f \<Rightarrow> f w1 w2
         | None \<Rightarrow> text_order (chars a1) (chars a2))
      else if is_text (atype a1) \<and> is_text (atype a2) then
        let len = (if length (chars a2) < length (chars a1) then length (chars a1)
                   else length (chars a2)) in
        PL_cmp_text (chars a1) 0 (chars a2) 0 len
      else if rank (atype a1) = rank (atype a2) then CMP_EQUAL
      else if rank (atype a1) < rank (atype a2) then CMP_LESS else CMP_GREATER)"

section \<open>Primitives\<close>

definition CMP_ERROR :: int where "CMP_ERROR = -2"
definition CMP_COMPOUND :: int where "CMP_COMPOUND = -3"

text \<open>The environment of a comparison: atoms, numbers, the NaN test and value, the ISO flag.\<close>

record cmp_env =
  atoms :: atom_table
  nums :: "(int, int64) host"
  isnan :: "int64 \<Rightarrow> bool"
  NaN_value :: "int64 \<Rightarrow> int64"
  PLFLAG_ISO :: bool

definition get_integer :: "heap \<Rightarrow> word \<Rightarrow> (int, int64) number" where
  "get_integer h w = (case w of
     WInt i \<Rightarrow> V_INTEGER i
   | WIndirect _ a \<Rightarrow>
       (case ind h a of IInt64 i \<Rightarrow> V_INTEGER i | IMpz z \<Rightarrow> V_MPZ z | _ \<Rightarrow> V_INTEGER 0)
   | _ \<Rightarrow> V_INTEGER 0)"

definition valFloat :: "heap \<Rightarrow> word \<Rightarrow> int64" where
  "valFloat h w = (case w of
     WIndirect _ a \<Rightarrow> (case ind h a of IDouble d \<Rightarrow> d | _ \<Rightarrow> 0) | _ \<Rightarrow> 0)"

definition get_number :: "heap \<Rightarrow> word \<Rightarrow> (int, int64) number" where
  "get_number h w = (if tag w = 3 then get_integer h w else V_FLOAT (valFloat h w))"

definition string_chars :: "heap \<Rightarrow> word \<Rightarrow> nat list" where
  "string_chars h w = (case w of
     WIndirect _ a \<Rightarrow> (case ind h a of IChars s \<Rightarrow> s | _ \<Rightarrow> []) | _ \<Rightarrow> [])"

definition compareStrings :: "heap \<Rightarrow> word \<Rightarrow> word \<Rightarrow> int" where
  "compareStrings h w1 w2 =
     (let t1 = string_chars h w1; t2 = string_chars h w2;
          len = (if length t2 < length t1 then length t1 else length t2) in
      PL_cmp_text t1 0 t2 0 len)"

definition compare_floats :: "cmp_env \<Rightarrow> int64 \<Rightarrow> int64 \<Rightarrow> int" where
  "compare_floats env f1 f2 =
     (let lt = dbl_lt (nums env); signbit = dbl_signbit (nums env) in
      if isnan env f1 then
        if isnan env f2 then
          let nf1 = NaN_value env f1; nf2 = NaN_value env f2 in
          if lt nf1 nf2 then CMP_LESS
          else if lt nf2 nf1 then CMP_GREATER
          else if signbit nf1 \<noteq> signbit nf2 then (if signbit nf1 then CMP_LESS else CMP_GREATER)
          else CMP_EQUAL
        else CMP_LESS
      else if isnan env f2 then CMP_GREATER
      else if lt f1 f2 then CMP_LESS
      else if lt f2 f1 then CMP_GREATER
      else if signbit f1 then CMP_LESS else CMP_GREATER)"

definition cmp_addr :: "addr \<Rightarrow> addr \<Rightarrow> int" where
  "cmp_addr p1 p2 = (if p1 = p2 then CMP_EQUAL else if p1 < p2 then CMP_LESS else CMP_GREATER)"

definition compare_primitives :: "cmp_env \<Rightarrow> heap \<Rightarrow> addr \<Rightarrow> addr \<Rightarrow> bool \<Rightarrow> int" where
  "compare_primitives env h p1 p2 eq =
     (let w1 = cell h p1; w2 = cell h p2; t1 = tag w1; t2 = tag w2 in
      if w1 = w2 then (if isVar w1 then cmp_addr p1 p2 else CMP_EQUAL)
      else if t1 \<noteq> t2 \<and> \<not> PLFLAG_ISO env \<and> \<not> eq \<and> (t1 = 3 \<and> t2 = 2 \<or> t1 = 2 \<and> t2 = 3) then
        let rc = cmpNumbers (nums env) (get_number h w1) (get_number h w2) in
        if rc = CMP_EQUAL then (if t1 = 2 then CMP_LESS else CMP_GREATER) else rc
      else if t1 \<noteq> t2 \<and> (1 < t1 \<or> 1 < t2) then (if t1 < t2 then CMP_LESS else CMP_GREATER)
      else if t1 \<le> 1 then cmp_addr p1 p2
      else if t1 = 3 then
        let n1 = get_integer h w1; n2 = get_integer h w2 in
        if eq \<and> numtype n1 \<noteq> numtype n2 then CMP_NOTEQ else cmpNumbers (nums env) n1 n2
      else if t1 = 2 then
        if equalIndirect h w1 w2 then CMP_EQUAL
        else if eq then CMP_NOTEQ
        else compare_floats env (valFloat h w1) (valFloat h w2)
      else if t1 = 5 then
        if eq then CMP_NOTEQ
        else (case (w1, w2) of
           (WAtom a1, WAtom a2) \<Rightarrow> compareAtoms (atoms env) a1 a2 | _ \<Rightarrow> CMP_ERROR)
      else if t1 = 4 then compareStrings h w1 w2
      else if t1 = 6 then CMP_COMPOUND
      else CMP_ERROR)"

definition compare_functors :: "cmp_env \<Rightarrow> functor_t \<Rightarrow> functor_t \<Rightarrow> bool \<Rightarrow> int" where
  "compare_functors env fd1 fd2 eq =
     (if eq then CMP_NOTEQ
      else if arity fd1 \<noteq> arity fd2 then
        (if arity fd2 < arity fd1 then CMP_GREATER else CMP_LESS)
      else compareAtoms (atoms env) (fname fd1) (fname fd2))"

section \<open>Compounds\<close>

text \<open>
  The label \<^theory_text>\<open>compound\<close>: link the two functor cells and push the arguments, or report that memory
  is exhausted.
\<close>

definition compare_push :: "nat \<Rightarrow> ustate \<Rightarrow> addr \<Rightarrow> addr \<Rightarrow> functor_t \<Rightarrow> int \<times> ustate + ustate" where
  "compare_push limit st f1 f2 fd =
     (let st' = st\<lparr>uheap := linkTermsCyclic (uheap st) f1 f2, lstack := f1 # lstack st\<rparr>;
          a = (case agenda st of None \<Rightarrow> [] | Some a \<Rightarrow> a) in
      case pushWorkAgendaLR limit a (arity fd) (argTermP f1 0) (argTermP f2 0) of
        None \<Rightarrow> Inl (CMP_ERROR, st')
      | Some a' \<Rightarrow> Inr (st'\<lparr>agenda := Some a'\<rparr>))"

definition compare_round :: "cmp_env \<Rightarrow> nat \<Rightarrow> bool \<Rightarrow> ustate \<Rightarrow> addr \<Rightarrow> addr \<Rightarrow>
    (int \<times> ustate + ustate) option" where
  "compare_round env limit eq st p1 p2 =
     (let h = uheap st in
      case (deRef h p1, deRef h p2) of
        (Some p1, Some p2) \<Rightarrow>
          let rc = compare_primitives env h p1 p2 eq in
          if rc \<noteq> CMP_COMPOUND then
            (if rc = CMP_EQUAL then Some (Inr st) else Some (Inl (rc, st)))
          else (case (cell h p1, cell h p2) of
             (WTerm f1, WTerm f2) \<Rightarrow>
               (case (fdeRef h f1, fdeRef h f2) of
                  (Some (r1, fd1), Some (r2, fd2)) \<Rightarrow>
                    if r1 = r2 then Some (Inr st)
                    else if fd1 \<noteq> fd2 then Some (Inl (compare_functors env fd1 fd2 eq, st))
                    else Some (compare_push limit st r1 r2 fd1)
                | _ \<Rightarrow> None)
           | _ \<Rightarrow> None)
      | _ \<Rightarrow> None)"

partial_function (option) do_compare :: "cmp_env \<Rightarrow> nat \<Rightarrow> bool \<Rightarrow> ustate \<Rightarrow> (int \<times> ustate) option" where
  "do_compare env limit eq st =
     (case nextTermAgendaLR (case agenda st of None \<Rightarrow> [] | Some a \<Rightarrow> a) of
        None \<Rightarrow> Some (CMP_EQUAL, st)
      | Some (p1, p2, a') \<Rightarrow>
          (case compare_round env limit eq (st\<lparr>agenda := Some a'\<rparr>) p1 p2 of
             None \<Rightarrow> None
           | Some (Inl res) \<Rightarrow> Some res
           | Some (Inr st') \<Rightarrow> do_compare env limit eq st'))"

declare do_compare.simps [code]

definition compareStandard :: "cmp_env \<Rightarrow> nat \<Rightarrow> heap \<Rightarrow> addr \<Rightarrow> addr \<Rightarrow> bool \<Rightarrow> (int \<times> heap) option" where
  "compareStandard env limit h p1 p2 eq =
     (case (deRef h p1, deRef h p2) of
        (Some p1, Some p2) \<Rightarrow>
          let rc = compare_primitives env h p1 p2 eq in
          if rc \<noteq> CMP_COMPOUND then Some (rc, h)
          else (case (cell h p1, cell h p2) of
             (WTerm f1, WTerm f2) \<Rightarrow>
               (case (func h f1, func h f2) of
                  (Some (Functor fd1), Some (Functor fd2)) \<Rightarrow>
                    if fd1 \<noteq> fd2 then Some (compare_functors env fd1 fd2 eq, h)
                    else
                      (case compare_push limit \<lparr>uheap = h, lstack = [], agenda = Some []\<rparr> f1 f2 fd1 of
                         Inl (rc, st) \<Rightarrow> Some (rc, exitCyclic (lstack st) (uheap st))
                       | Inr st \<Rightarrow>
                           (case do_compare env limit eq st of
                              None \<Rightarrow> None
                            | Some (rc, st') \<Rightarrow> Some (rc, exitCyclic (lstack st') (uheap st'))))
                | _ \<Rightarrow> None)
           | _ \<Rightarrow> None)
      | _ \<Rightarrow> None)"

section \<open>Predicates\<close>

definition std_test :: "(int \<Rightarrow> bool) \<Rightarrow> (int \<times> heap) option \<Rightarrow> bool option" where
  "std_test P res = (case res of
     None \<Rightarrow> None
   | Some (rc, _) \<Rightarrow> Some (if rc = CMP_ERROR then False else P rc))"

definition std_lt :: "cmp_env \<Rightarrow> nat \<Rightarrow> heap \<Rightarrow> addr \<Rightarrow> addr \<Rightarrow> bool option" where
  "std_lt env limit h p1 p2 = std_test (\<lambda>rc. rc < 0) (compareStandard env limit h p1 p2 False)"

definition std_leq :: "cmp_env \<Rightarrow> nat \<Rightarrow> heap \<Rightarrow> addr \<Rightarrow> addr \<Rightarrow> bool option" where
  "std_leq env limit h p1 p2 = std_test (\<lambda>rc. rc \<le> 0) (compareStandard env limit h p1 p2 False)"

definition std_gt :: "cmp_env \<Rightarrow> nat \<Rightarrow> heap \<Rightarrow> addr \<Rightarrow> addr \<Rightarrow> bool option" where
  "std_gt env limit h p1 p2 = std_test (\<lambda>rc. 0 < rc) (compareStandard env limit h p1 p2 False)"

definition std_geq :: "cmp_env \<Rightarrow> nat \<Rightarrow> heap \<Rightarrow> addr \<Rightarrow> addr \<Rightarrow> bool option" where
  "std_geq env limit h p1 p2 = std_test (\<lambda>rc. 0 \<le> rc) (compareStandard env limit h p1 p2 False)"

definition std_eq :: "cmp_env \<Rightarrow> nat \<Rightarrow> heap \<Rightarrow> addr \<Rightarrow> addr \<Rightarrow> bool option" where
  "std_eq env limit h p1 p2 =
     std_test (\<lambda>rc. rc = CMP_EQUAL) (compareStandard env limit h p1 p2 True)"

definition std_neq :: "cmp_env \<Rightarrow> nat \<Rightarrow> heap \<Rightarrow> addr \<Rightarrow> addr \<Rightarrow> bool option" where
  "std_neq env limit h p1 p2 =
     std_test (\<lambda>rc. rc \<noteq> CMP_EQUAL) (compareStandard env limit h p1 p2 True)"

text \<open>
  \<^theory_text>\<open>compare/3\<close>: the order argument is at \<open>d\<close>, the two terms at \<open>p1\<close> and the next cell;
  the atoms \<open><\<close>, \<open>=\<close> and \<open>>\<close> are a parameter.
\<close>

record order_atoms =
  ATOM_smaller :: atom_t
  ATOM_equals :: atom_t
  ATOM_larger :: atom_t

datatype compare_result = CmpBool bool | CmpUnify atom_t | CmpDomainError | CmpTypeError

definition compare3 ::
  "cmp_env \<Rightarrow> nat \<Rightarrow> order_atoms \<Rightarrow> heap \<Rightarrow> addr \<Rightarrow> addr \<Rightarrow> compare_result option" where
  "compare3 env limit C h d p1 =
     (case deRef h d of
        None \<Rightarrow> None
      | Some d \<Rightarrow>
          let order = (\<lambda>f. case compareStandard env limit h p1 (Suc p1) False of
                None \<Rightarrow> None
              | Some (val, _) \<Rightarrow> Some (if val = CMP_ERROR then CmpBool False else f val)) in
          if canBind (cell h d) then
            order (\<lambda>val. CmpUnify (if val < 0 then ATOM_smaller C
                                    else if 0 < val then ATOM_larger C else ATOM_equals C))
          else (case cell h d of
             WAtom a \<Rightarrow>
               if a = ATOM_equals C then
                 map_option (\<lambda>(val, _). CmpBool (val = CMP_EQUAL))
                   (compareStandard env limit h p1 (Suc p1) True)
               else if a \<noteq> ATOM_smaller C \<and> a \<noteq> ATOM_larger C then Some CmpDomainError
               else if a = ATOM_smaller C then order (\<lambda>val. CmpBool (val < 0))
               else order (\<lambda>val. CmpBool (0 < val))
           | _ \<Rightarrow> Some CmpTypeError))"

section \<open>The order of texts and atoms\<close>

fun lexcmp :: "nat list \<Rightarrow> nat list \<Rightarrow> int" where
  "lexcmp [] [] = 0"
| "lexcmp [] (_ # _) = -1"
| "lexcmp (_ # _) [] = 1"
| "lexcmp (a # s) (b # t) = (if a = b then lexcmp s t else if b < a then 1 else -1)"

lemma text_order_lexcmp: "text_order s t = lexcmp s t"
  by (induction s t rule: lexcmp.induct) (auto simp: text_order_def cmp_consts Let_def split: if_splits)


lemma text_diff_take: "text_diff l s t = text_diff l (take l s) (take l t)"
  by (induction l s t rule: text_diff.induct) auto

lemma PL_cmp_text_whole:
  "PL_cmp_text s 0 t 0 (if length t < length s then length s else length t) = lexcmp s t"
proof -
  have "text_order s t = PL_cmp_text s 0 t 0 (if length t < length s then length s else length t)"
  proof -
    have v: "text_diff l s t \<in> {0, 1, -1}" for l
      by (induction l s t rule: text_diff.induct) (auto simp: cmp_consts)
    show ?thesis using v [of "min (length s) (length t)"] v [of "length s"] v [of "length t"]
      by (auto simp: PL_cmp_text_def text_order_def Let_def cmp_consts min_def split: if_splits)
  qed
  then show ?thesis by (simp add: text_order_lexcmp)
qed



lemma lexcmp_eq_0: "lexcmp s t = 0 \<longleftrightarrow> s = t"
  by (induction s t rule: lexcmp.induct) auto







section \<open>Identity of terms\<close>

text \<open>
  What the comparison relies on in a heap: an attributed variable owns its value cell, indirect data
  has the type of its tag, an integer that has a tagged representation has no indirect one, and GMP
  comparison recognises equal integers.
\<close>

definition canonical :: "cmp_env \<Rightarrow> heap \<Rightarrow> bool" where
  "canonical env h \<longleftrightarrow>
     (\<forall>r s a. cell h r = WAttVar a \<longrightarrow> cell h s = WAttVar a \<longrightarrow> r = s) \<and>
     (\<forall>r a. cell h r = WIndirect I_INTEGER a \<longrightarrow>
        (\<exists>i. ind h a = IInt64 i \<and> (\<forall>s. cell h s \<noteq> WInt i)) \<or> (\<exists>z. ind h a = IMpz z)) \<and>
     (\<forall>r a. cell h r = WIndirect I_FLOAT a \<longrightarrow> (\<exists>d. ind h a = IDouble d)) \<and>
     (\<forall>r a. cell h r = WIndirect I_STRING a \<longrightarrow> (\<exists>s. ind h a = IChars s)) \<and>
     (\<forall>a b. mpz_cmp (nums env) a b = 0 \<longleftrightarrow> a = b)"

lemma canonicalD:
  assumes "canonical env h"
  shows "cell h r = WAttVar a \<Longrightarrow> cell h s = WAttVar a \<Longrightarrow> r = s"
    "cell h r = WIndirect I_INTEGER a \<Longrightarrow>
        (\<exists>i. ind h a = IInt64 i \<and> (\<forall>s. cell h s \<noteq> WInt i)) \<or> (\<exists>z. ind h a = IMpz z)"
    "cell h r = WIndirect I_FLOAT a \<Longrightarrow> \<exists>d. ind h a = IDouble d"
    "cell h r = WIndirect I_STRING a \<Longrightarrow> \<exists>s. ind h a = IChars s"
    "mpz_cmp (nums env) x y = 0 \<longleftrightarrow> x = y"
  using assms unfolding canonical_def by blast+

lemma canonical_cong: "cell h = cell h' \<Longrightarrow> ind h = ind h' \<Longrightarrow> canonical env h = canonical env h'"
  by (simp add: canonical_def)

lemma compareStrings_eq:
  "ind h a = IChars s \<Longrightarrow> ind h b = IChars t \<Longrightarrow>
   compareStrings h (WIndirect I_STRING a) (WIndirect I_STRING b) = lexcmp s t"
  by (simp add: compareStrings_def string_chars_def Let_def PL_cmp_text_whole split del: if_split)

lemma cmpNumbers_int:
  assumes "canonical env h"
  shows "cmpNumbers (nums env) (V_INTEGER i) (V_INTEGER j) \<in> {-1, 0, 1}"
    "cmpNumbers (nums env) (V_INTEGER i) (V_INTEGER j) = 0 \<longleftrightarrow> i = j"
    "cmpNumbers (nums env) (V_MPZ x) (V_MPZ y) \<in> {-1, 0, 1}"
    "cmpNumbers (nums env) (V_MPZ x) (V_MPZ y) = 0 \<longleftrightarrow> x = y"
  using canonicalD(5) [OF assms, of x y]
  by (auto simp: cmpNumbers_def cmp_same_def cmp_consts Let_def split: if_splits)

lemma tag_indirect: "tag (WIndirect t a) = tag (WIndirect t b)"
  by (cases t) simp_all

lemma tag_cases: "tag w = 6 \<longleftrightarrow> isTerm w" "tag w = 7 \<longleftrightarrow> isRef w" "tag w \<le> 1 \<longleftrightarrow> canBind w"
  by (cases w rule: tag.cases; simp add: canBind_def isVar_def)+

text \<open>On the ends of two reference chains, equal primitives are those the heap equates.\<close>

lemma prim_equal:
  assumes can: "canonical env h" and nr: "\<not> isRef (cell h r)" "\<not> isRef (cell h s)"
  shows "compare_primitives env h r s True =
    (if (\<exists>f g. cell h r = WTerm f \<and> cell h s = WTerm g \<and> f \<noteq> g) then CMP_COMPOUND
     else if agree h r s then CMP_EQUAL else compare_primitives env h r s True) \<and>
   (\<not> (\<exists>f g. cell h r = WTerm f \<and> cell h s = WTerm g \<and> f \<noteq> g) \<longrightarrow> \<not> agree h r s \<longrightarrow>
      compare_primitives env h r s True \<notin> {CMP_COMPOUND, CMP_EQUAL})"
proof -
  note defs = compare_primitives_def Let_def agree_def cmp_addr_def cmp_consts CMP_ERROR_def CMP_COMPOUND_def
          equalIndirect_def get_integer_def canBind_def isVar_def
  have n3: "cmpNumbers (nums env) (V_INTEGER i) (V_INTEGER j) \<noteq> - 3"
    "cmpNumbers (nums env) (V_MPZ x) (V_MPZ y) \<noteq> - 3" for i j x y
    using cmpNumbers_int(1) [OF can, of i j] cmpNumbers_int(3) [OF can, of x y] by auto
  have l3: "lexcmp a b \<noteq> - 3" for a b by (induction a b rule: lexcmp.induct) auto
  show ?thesis
  proof (cases "cell h r = cell h s")
    case True
    then show ?thesis using canonicalD(1) [OF can, of r _ s] nr
      by (cases "cell h s") (auto simp: defs split: if_splits)
  next
    case ne: False
    show ?thesis
    proof (cases "tag (cell h r) = tag (cell h s)")
      case False
      then show ?thesis using ne tag_indirect
        by (auto simp: defs split: if_splits)
    next
      case True
      moreover have "r \<noteq> s" using ne by auto
      ultimately show ?thesis using ne nr
        by (cases "cell h r" rule: tag.cases; cases "cell h s" rule: tag.cases)
          (auto simp: defs n3 l3 lexcmp_eq_0 compareStrings_eq cmpNumbers_int(2,4) [OF can] dest!: canonicalD(2-4) [OF can])
    qed
  qed
qed

text \<open>\<^const>\<open>unified\<close> is an equivalence; \<open>same_end\<close> is one step of it.\<close>

definition same_end :: "heap \<Rightarrow> (addr \<Rightarrow> addr \<Rightarrow> bool) \<Rightarrow> addr \<Rightarrow> addr \<Rightarrow> bool" where
  "same_end h R r s \<longleftrightarrow> r = s \<or> (cell h r = cell h s \<and> \<not> canBind (cell h r) \<and> \<not> isTerm (cell h r)) \<or>
     (\<exists>t a b. cell h r = WIndirect t a \<and> cell h s = WIndirect t b \<and> ind h a = ind h b) \<or>
     (\<exists>f g fd. cell h r = WTerm f \<and> cell h s = WTerm g \<and> func h f = Some (Functor fd) \<and>
        func h g = Some (Functor fd) \<and> (\<forall>i<arity fd. R (argTermP f i) (argTermP g i)))"

lemma unified_iff:
  "unified h x y \<longleftrightarrow> (\<exists>r s. derefs h x r \<and> derefs h y s \<and> same_end h (unified h) r s)"
proof
  assume "unified h x y"
  then show "\<exists>r s. derefs h x r \<and> derefs h y s \<and> same_end h (unified h) r s"
    unfolding same_end_def by (cases rule: unified.cases) (blast+)
next
  assume "\<exists>r s. derefs h x r \<and> derefs h y s \<and> same_end h (unified h) r s"
  then show "unified h x y"
    unfolding same_end_def by (elim exE conjE disjE) (blast intro: unified.intros)+
qed

lemma unified_coind:
  assumes "X x y" and step: "\<And>x y. X x y \<Longrightarrow> \<exists>r s. derefs h x r \<and> derefs h y s \<and> same_end h X r s"
  shows "unified h x y"
  using assms(1)
proof (coinduction arbitrary: x y)
  case unified
  from step [OF this] show ?case unfolding same_end_def
  proof (elim exE conjE disjE)
    fix r s f g fd
    assume "derefs h x r" "derefs h y s" "cell h r = WTerm f" "cell h s = WTerm g"
      "func h f = Some (Functor fd)" "func h g = Some (Functor fd)"
      "\<forall>i<arity fd. X (argTermP f i) (argTermP g i)"
    then show ?thesis by (intro disjI2) blast
  next
    fix r s t a b
    assume "derefs h x r" "derefs h y s" "cell h r = WIndirect t a" "cell h s = WIndirect t b"
      "ind h a = ind h b"
    then show ?thesis by - (rule disjI2, rule disjI2, rule disjI1, blast)
  next
    fix r s
    assume "derefs h x r" "derefs h y s" "cell h r = cell h s" "\<not> canBind (cell h r)" "\<not> isTerm (cell h r)"
    then show ?thesis by - (rule disjI2, rule disjI1, blast)
  next
    fix r s
    assume "derefs h x r" "derefs h y s" "r = s"
    then show ?thesis by - (rule disjI1, blast)
  qed
qed

lemma same_end_trans:
  assumes "same_end h R r s" "same_end h R s t"
    and "\<And>x y. R x y \<Longrightarrow> S x y" "\<And>x y z. R x y \<Longrightarrow> R y z \<Longrightarrow> S x z"
  shows "same_end h S r t"
  using assms(1) unfolding same_end_def [of h R r s]
proof (elim disjE exE conjE)
  assume "r = s"
  then show ?thesis using assms(2,3) unfolding same_end_def by blast
next
  assume c: "cell h r = cell h s" "\<not> canBind (cell h r)" "\<not> isTerm (cell h r)"
  then show ?thesis using assms(2) unfolding same_end_def by fastforce
next
  fix ty a b
  assume "cell h r = WIndirect ty a" "cell h s = WIndirect ty b" "ind h a = ind h b"
  then show ?thesis using assms(2) unfolding same_end_def by (metis isTerm.simps(4) word.distinct word.inject(3))
next
  fix f g fd
  assume c: "cell h r = WTerm f" "cell h s = WTerm g" "func h f = Some (Functor fd)"
    "func h g = Some (Functor fd)" "\<forall>i<arity fd. R (argTermP f i) (argTermP g i)"
  from assms(2) show ?thesis unfolding same_end_def [of h R s t]
  proof (elim disjE exE conjE)
    assume "s = t"
    then show ?thesis using c assms(3) unfolding same_end_def by blast
  next
    fix f' g' fd'
    assume "cell h s = WTerm f'" "cell h t = WTerm g'" "func h f' = Some (Functor fd')"
      "func h g' = Some (Functor fd')" "\<forall>i<arity fd'. R (argTermP f' i) (argTermP g' i)"
    then have "cell h t = WTerm g'" "func h g' = Some (Functor fd)"
      "\<forall>i<arity fd. S (argTermP f i) (argTermP g' i)" using c assms(4) by auto
    then show ?thesis using c unfolding same_end_def by blast
  next
    assume "cell h s = cell h t" "\<not> isTerm (cell h s)"
    then show ?thesis using c(2) by (metis isTerm.simps(1))
  qed (use c in auto)
qed

lemma unified_refl:
  assumes "heap_ok h"
  shows "unified h x x"
  using assms unified.same [of h x _ x] unfolding heap_ok_def by blast

lemma unified_sym: "unified h x y \<Longrightarrow> unified h y x"
proof (coinduction arbitrary: x y)
  case unified
  then show ?case by (cases rule: unified.cases) metis+
qed

lemma unified_trans:
  assumes ok: "heap_ok h" and "unified h x y" "unified h y z"
  shows "unified h x z"
proof (rule unified_coind [of "\<lambda>x z. \<exists>y. unified h x y \<and> unified h y z"])
  show "\<exists>y. unified h x y \<and> unified h y z" using assms by blast
next
  fix x z
  assume "\<exists>y. unified h x y \<and> unified h y z"
  then obtain y r s s' t where "derefs h x r" "derefs h y s" "same_end h (unified h) r s"
    "derefs h y s'" "derefs h z t" "same_end h (unified h) s' t"
    unfolding unified_iff [of h x] unified_iff [of h _ z] by blast
  moreover from this have "s' = s" using derefs_unique by blast
  ultimately show "\<exists>r t. derefs h x r \<and> derefs h z t \<and>
      same_end h (\<lambda>x z. \<exists>y. unified h x y \<and> unified h y z) r t"
    using same_end_trans [of h "unified h" r s t "\<lambda>x z. \<exists>y. unified h x y \<and> unified h y z"]
      unified_refl [OF ok] by blast
qed

text \<open>
  One round of a comparison for equality, when all pairs still to be compared and all linked functor
  cells are equal in the initial heap \<open>h0\<close>.
\<close>

definition args_eq :: "heap \<Rightarrow> addr \<Rightarrow> addr \<Rightarrow> bool" where
  "args_eq h f g \<longleftrightarrow> (\<exists>fd. func h f = Some (Functor fd) \<and> func h g = Some (Functor fd) \<and>
     (\<forall>i<arity fd. unified h (argTermP f i) (argTermP g i)))"

definition links_eq :: "heap \<Rightarrow> (addr \<Rightarrow> fword option) \<Rightarrow> bool" where
  "links_eq h0 F \<longleftrightarrow> (\<forall>f g. F f = Some (FRef g) \<longrightarrow> args_eq h0 f g) \<and>
     (\<forall>f fd. F f = Some (Functor fd) \<longrightarrow> func h0 f = Some (Functor fd))"

lemma args_eq_sym: "args_eq h f g \<Longrightarrow> args_eq h g f"
  unfolding args_eq_def using unified_sym by blast

lemma args_eq_trans:
  assumes "heap_ok h" "args_eq h f g" "args_eq h g k"
  shows "args_eq h f k"
  using assms unfolding args_eq_def using unified_trans by fastforce

lemma froot_args_eq:
  assumes "heap_ok h0" "links_eq h0 F" "froot F f r fd"
  shows "args_eq h0 f r"
  using assms(3)
proof (induction rule: froot.induct)
  case (here f fd)
  then show ?case using assms unified_refl unfolding args_eq_def links_eq_def by blast
next
  case (step f g r fd)
  then show ?case using assms args_eq_trans unfolding links_eq_def by blast
qed

definition all_eq :: "heap \<Rightarrow> ustate \<Rightarrow> bool" where
  "all_eq h0 st \<longleftrightarrow> links_eq h0 (func (uheap st)) \<and> (\<forall>(x, y) \<in> upairs st. unified h0 x y)"

lemma all_eq_link:
  assumes "heap_ok h0" "all_eq h0 st" "unified h0 t1 t2" "cell (uheap st) = cell h0"
    and d: "derefs h0 t1 p" "derefs h0 t2 q" "cell h0 p = WTerm f1" "cell h0 q = WTerm f2"
    and f: "froot (func (uheap st)) f1 r1 fd1" "froot (func (uheap st)) f2 r2 fd2"
    and a: "apairs a = frame_pairs (argTermP r1 0, argTermP r2 0, arity fd1) \<union> upairs st"
  shows "fd1 = fd2"
    and "all_eq h0 (st\<lparr>uheap := linkTermsCyclic (uheap st) r1 r2, lstack := r1 # lstack st, agenda := Some a\<rparr>)"
proof -
  have "args_eq h0 f1 f2"
  proof -
    from assms(3) obtain r s where rs: "derefs h0 t1 r" "derefs h0 t2 s" "same_end h0 (unified h0) r s"
      unfolding unified_iff [of h0 t1] by blast
    then have "r = p" "s = q" using d derefs_unique by blast+
    with rs(3) d show ?thesis
      using froot_args_eq [OF assms(1) _ f(1)] assms(2) unified_refl [OF assms(1)]
      unfolding same_end_def args_eq_def all_eq_def by (auto)
  qed
  then have eq: "args_eq h0 r1 r2"
    using froot_args_eq [OF assms(1) _ f(1)] froot_args_eq [OF assms(1) _ f(2)] assms(2)
      args_eq_sym args_eq_trans [OF assms(1)] unfolding all_eq_def by blast
  have fd: "func h0 r1 = Some (Functor fd1)" "func h0 r2 = Some (Functor fd2)"
    using froot_end [OF f(1)] froot_end [OF f(2)] assms(2) unfolding all_eq_def links_eq_def by blast+
  show "fd1 = fd2" using eq fd unfolding args_eq_def by auto
  have "unified h0 x y" if "(x, y) \<in> frame_pairs (argTermP r1 0, argTermP r2 0, arity fd1)" for x y
    using that eq fd unfolding args_eq_def by (auto simp: frame_pairs_def argTermP_def)
  then show "all_eq h0 (st\<lparr>uheap := linkTermsCyclic (uheap st) r1 r2, lstack := r1 # lstack st, agenda := Some a\<rparr>)"
    using assms(2) eq a unfolding all_eq_def links_eq_def by (auto simp: linkTermsCyclic_def upairs_def)
qed

definition cmp_post :: "heap \<Rightarrow> ustate \<Rightarrow> addr \<Rightarrow> addr \<Rightarrow> int \<times> ustate + ustate \<Rightarrow> bool" where
  "cmp_post h0 st t1 t2 res = (case res of
     Inl (rc, st') \<Rightarrow> rc \<noteq> CMP_EQUAL \<and> cell (uheap st') = cell (uheap st) \<and>
       (\<exists>A. unify_inv h0 (uheap st') (lstack st') A) \<and>
       (all_eq h0 st \<and> unified h0 t1 t2 \<longrightarrow> rc = CMP_ERROR)
   | Inr st' \<Rightarrow> round_post h0 st t1 t2 (Inr st') \<and> cell (uheap st') = cell (uheap st) \<and>
       (all_eq h0 st \<and> unified h0 t1 t2 \<longrightarrow> all_eq h0 st'))"

lemma upairs_agenda: "upairs st = apairs (case agenda st of None \<Rightarrow> [] | Some a \<Rightarrow> a)"
  by (simp add: upairs_def split: option.split)

lemma compare_push_post:
  assumes ok: "ustate_ok h0 st (insert (t1, t2) (upairs st))" and h0: "heap_ok h0"
    and cells: "cell (uheap st) = cell h0"
    and d: "derefs (uheap st) t1 p" "derefs (uheap st) t2 q"
    and w: "cell (uheap st) p = WTerm f1" "cell (uheap st) q = WTerm f2"
    and f: "froot (func (uheap st)) f1 r1 fd" "froot (func (uheap st)) f2 r2 fd" "r1 \<noteq> r2"
  shows "cmp_post h0 st t1 t2 (compare_push limit st r1 r2 fd)"
proof -
  let ?a = "case agenda st of None \<Rightarrow> [] | Some a \<Rightarrow> a"
  let ?h = "linkTermsCyclic (uheap st) r1 r2"
  have sel: "cell ?h = cell (uheap st)" by (simp add: linkTermsCyclic_def)
  have aok: "agenda_ok ?a" using ok by (auto simp: ustate_ok_def agenda_ok_def split: option.split)
  show ?thesis
  proof (cases "pushWorkAgendaLR limit ?a (arity fd) (argTermP r1 0) (argTermP r2 0)")
    case None
    have "unify_inv h0 (uheap st) (lstack st) (insert (t1, t2) (upairs st))" using ok by (simp add: ustate_ok_def)
    from link_step(1) [OF this froot_end [OF f(1)] froot_end [OF f(2)] f(3) subset_refl] None sel
    show ?thesis by (auto simp: cmp_post_def compare_push_def Let_def CMP_ERROR_def cmp_consts)
  next
    case (Some a)
    note pa = push_agenda [OF Some aok, folded upairs_agenda]
    have dr: "derefs (uheap st) = derefs h0" by (rule derefs_cong) (simp add: cells)
    have "round_post h0 st t1 t2
        (Inr (st\<lparr>uheap := ?h, lstack := r1 # lstack st, agenda := Some a\<rparr>))"
      by (rule round_link [OF ok d w f pa])
    moreover have "all_eq h0 (st\<lparr>uheap := ?h, lstack := r1 # lstack st, agenda := Some a\<rparr>)"
      if "all_eq h0 st" "unified h0 t1 t2"
      by (rule all_eq_link(2) [OF h0 that cells _ _ _ _ f(1,2) pa(1)]) (use d w in \<open>simp_all add: dr cells\<close>)
    ultimately show ?thesis using Some sel
      by (simp add: cmp_post_def compare_push_def Let_def)
  qed
qed

text \<open>Equal cells of \<open>h0\<close> agree, or are different compounds.\<close>

lemma unified_agree:
  assumes "unified h0 t1 t2" "derefs h0 t1 p" "derefs h0 t2 q"
    and "\<not> (\<exists>f g. cell h0 p = WTerm f \<and> cell h0 q = WTerm g \<and> f \<noteq> g)"
    and h: "cell h = cell h0" "ind h = ind h0"
  shows "agree h p q"
proof -
  from assms(1) obtain r s where rs: "derefs h0 t1 r" "derefs h0 t2 s" "same_end h0 (unified h0) r s"
    unfolding unified_iff [of h0 t1] by blast
  then have "r = p" "s = q" using assms(2,3) derefs_unique by blast+
  with rs(3) assms(4) show ?thesis unfolding same_end_def agree_def h
    by (elim disjE exE conjE) (auto simp: canBind_def isVar_def)
qed

lemma compare_round_post:
  assumes ok: "ustate_ok h0 st (insert (t1, t2) (upairs st))" and h0: "heap_ok h0"
    and cells: "cell (uheap st) = cell h0" and can: "canonical env h0"
  shows "\<exists>res. compare_round env limit True st t1 t2 = Some res \<and> cmp_post h0 st t1 t2 res"
proof -
  let ?h = "uheap st"
  have ind: "ind ?h = ind h0" using ok by (simp add: ustate_ok_def unify_inv_def)
  have can': "canonical env ?h" using can canonical_cong [OF cells ind] by simp
  have dh: "derefs ?h = derefs h0" by (rule derefs_cong) (simp add: cells)
  obtain p q where d: "derefs ?h t1 p" "derefs ?h t2 q"
    using ok by (auto simp: ustate_ok_def unify_inv_def heap_ok_def) metis
  then have dr: "deRef ?h t1 = Some p" "deRef ?h t2 = Some q" by (simp_all add: deRef_iff)
  note pe = prim_equal [OF can' derefs_end [OF d(1)] derefs_end [OF d(2)]]
  have inv: "\<exists>A. unify_inv h0 ?h (lstack st) A" using ok by (auto simp: ustate_ok_def)
  note defs = compare_round_def dr Let_def
  show ?thesis
  proof (cases "\<exists>f g. cell ?h p = WTerm f \<and> cell ?h q = WTerm g \<and> f \<noteq> g")
    case True
    then obtain f1 f2 where w: "cell ?h p = WTerm f1" "cell ?h q = WTerm f2" by blast
    then obtain r1 fd1 r2 fd2 where f: "froot (func ?h) f1 r1 fd1" "froot (func ?h) f2 r2 fd2"
      using ok by (auto simp: ustate_ok_def unify_inv_def heap_ok_def) metis
    then have fd: "fdeRef ?h f1 = Some (r1, fd1)" "fdeRef ?h f2 = Some (r2, fd2)" by (simp_all add: fdeRef_iff)
    have rc: "compare_primitives env ?h p q True = CMP_COMPOUND" using pe True by metis
    consider "r1 = r2" | "r1 \<noteq> r2" "fd1 \<noteq> fd2" | "r1 \<noteq> r2" "fd1 = fd2" by blast
    then show ?thesis
    proof cases
      case 1
      then have "fd1 = fd2" using froot_end [OF f(1)] froot_end [OF f(2)] by simp
      then have "agree ?h p q" using w f 1 unfolding agree_def by blast
      from round_skip [OF ok base_intro [OF d this]] 1 w fd rc show ?thesis
        by (simp add: defs cmp_post_def)
    next
      case 2
      have "\<not> (all_eq h0 st \<and> unified h0 t1 t2)"
        using all_eq_link(1) [OF h0 _ _ cells _ _ _ _ f, of t1 t2 p q
          "[(argTermP r1 0, argTermP r2 0, arity fd1)] @ (case agenda st of None \<Rightarrow> [] | Some a \<Rightarrow> a)"]
          d w 2 by (auto simp: dh cells upairs_agenda)
      then show ?thesis using 2 w fd rc inv
        by (auto simp: defs cmp_post_def compare_functors_def cmp_consts)
    next
      case 3
      then show ?thesis using compare_push_post [OF ok h0 cells d w f(1) f(2) [folded 3(2)] 3(1), of limit]
          3 w fd rc by (simp add: defs)
    qed
  next
    case nt: False
    show ?thesis
    proof (cases "agree ?h p q")
      case True
      then have "compare_primitives env ?h p q True = CMP_EQUAL" using pe nt by metis
      with round_skip [OF ok base_intro [OF d True]] show ?thesis
        by (simp add: defs cmp_post_def CMP_COMPOUND_def cmp_consts)
    next
      case False
      then have "compare_primitives env ?h p q True \<notin> {CMP_COMPOUND, CMP_EQUAL}" using pe nt by metis
      moreover have "\<not> unified h0 t1 t2"
        using unified_agree [OF _ _ _ _ cells ind, of t1 t2 p q] d nt False by (auto simp: dh cells)
      ultimately show ?thesis using inv by (simp add: defs cmp_post_def)
    qed
  qed
qed

lemma do_compare_post:
  assumes "ustate_ok h0 st (upairs st)" "heap_ok h0" "cell (uheap st) = cell h0" "canonical env h0"
  shows "\<exists>rc st'. do_compare env limit True st = Some (rc, st') \<and> cell (uheap st') = cell h0 \<and>
    (\<exists>A. unify_inv h0 (uheap st') (lstack st') A) \<and>
    (rc = CMP_EQUAL \<longrightarrow> unify_inv h0 (uheap st') (lstack st') {} \<and>
       (\<forall>x y. base (uheap st) x y \<or> (x, y) \<in> upairs st \<longrightarrow> base (uheap st') x y)) \<and>
    (all_eq h0 st \<longrightarrow> rc = CMP_EQUAL \<or> rc = CMP_ERROR)"
  using assms
proof (induction st rule: wf_induct_rule [OF wf_measures [of "[\<lambda>st. unlinked (uheap st), asize]"]])
  case (1 st)
  let ?a = "case agenda st of None \<Rightarrow> [] | Some a \<Rightarrow> a"
  have aok: "agenda_ok ?a" using 1(2) by (auto simp: ustate_ok_def agenda_ok_def split: option.split)
  show ?case
  proof (cases "nextTermAgendaLR ?a")
    case None
    then have "upairs st = {}" using next_agenda_None by (simp add: upairs_agenda)
    with None 1(2,4) show ?thesis by (subst do_compare.simps) (auto simp: ustate_ok_def)
  next
    case (Some lra)
    obtain l r a' where lra: "lra = (l, r, a')" by (cases lra)
    note n = next_agenda [OF Some [unfolded lra] aok]
    define st1 where "st1 = st\<lparr>agenda := Some a'\<rparr>"
    have sel: "uheap st1 = uheap st" "lstack st1 = lstack st" "upairs st1 = apairs a'"
      "asize st1 = agenda_size a'" by (simp_all add: st1_def upairs_def asize_def)
    have up: "upairs st = insert (l, r) (upairs st1)" using n(1) by (simp add: upairs_agenda [of st] sel)
    have ok1: "ustate_ok h0 st1 (insert (l, r) (upairs st1))"
      using 1(2) n(2) by (simp add: ustate_ok_def sel up) (simp add: st1_def)
    have eq1: "all_eq h0 st \<longleftrightarrow> all_eq h0 st1 \<and> unified h0 l r" by (auto simp: all_eq_def sel up)
    obtain res where res: "compare_round env limit True st1 l r = Some res" "cmp_post h0 st1 l r res"
      using compare_round_post [OF ok1 1(3) _ 1(5)] 1(4) by (auto simp: sel)
    show ?thesis
    proof (cases res)
      case (Inl r')
      then show ?thesis using res eq1 Some lra 1(4)
        by (subst do_compare.simps) (cases r', auto simp: cmp_post_def sel simp flip: st1_def)
    next
      case (Inr st2)
      note post = res(2) [unfolded cmp_post_def Inr sum.case round_post_def, simplified]
      have "asize st1 < asize st" using n(3) sel(4) by (auto simp: asize_def agenda_size_def split: option.splits)
      moreover have "agenda st2 = agenda st1 \<Longrightarrow> asize st2 = asize st1" by (simp add: asize_def)
      ultimately have m: "(st2, st) \<in> measures [\<lambda>st. unlinked (uheap st), asize]"
        using post by (auto simp: sel)
      have st2: "ustate_ok h0 st2 (upairs st2)" "cell (uheap st2) = cell h0" using post 1(4) sel by auto
      obtain rc st' where st': "do_compare env limit True st2 = Some (rc, st')" "cell (uheap st') = cell h0"
        "\<exists>A. unify_inv h0 (uheap st') (lstack st') A"
        "rc = CMP_EQUAL \<Longrightarrow> unify_inv h0 (uheap st') (lstack st') {}"
        "\<And>x y. rc = CMP_EQUAL \<Longrightarrow> base (uheap st2) x y \<or> (x, y) \<in> upairs st2 \<Longrightarrow> base (uheap st') x y"
        "all_eq h0 st2 \<Longrightarrow> rc = CMP_EQUAL \<or> rc = CMP_ERROR"
        using 1(1) [OF m st2(1) 1(3) st2(2) 1(5)] by blast
      have "do_compare env limit True st = Some (rc, st')"
        using st'(1) Some lra res(1) Inr by (subst do_compare.simps) (simp flip: st1_def)
      moreover have "base (uheap st') x y" if "rc = CMP_EQUAL" "base (uheap st) x y \<or> (x, y) \<in> upairs st" for x y
      proof -
        have "base (uheap st2) x y \<or> (x, y) \<in> upairs st2" using that(2) post unfolding up sel by blast
        then show ?thesis using st'(5) that(1) by blast
      qed
      ultimately show ?thesis using st' eq1 post by blast
    qed
  qed
qed

text \<open>Two compounds with the same functor: the loop starts with their arguments.\<close>

lemma std_eq_start:
  assumes "heap_ok h" "no_links h"
  shows "unify_inv h h [] A" "ustate_ok h \<lparr>uheap = h, lstack = [], agenda = Some []\<rparr> B"
    "all_eq h \<lparr>uheap = h, lstack = [], agenda = Some []\<rparr>"
    "froot (func h) f u fd \<Longrightarrow> func h f = Some (Functor fd) \<and> u = f"
proof -
  show nf: "func h f = Some (Functor fd) \<and> u = f" if "froot (func h) f u fd" for f u fd
    using that assms(2) by (cases rule: froot.cases) (auto simp: no_links_def)
  show inv: "unify_inv h h [] A" for A
    using assms nf by (auto simp: unify_inv_def no_links_def)
  show "ustate_ok h \<lparr>uheap = h, lstack = [], agenda = Some []\<rparr> B"
    using inv by (simp add: ustate_ok_def agenda_ok_def)
  show "all_eq h \<lparr>uheap = h, lstack = [], agenda = Some []\<rparr>" using assms(2)
    by (auto simp: all_eq_def links_eq_def upairs_def no_links_def)
qed

lemma std_eq_compound:
  assumes ok: "heap_ok h" "no_links h" "canonical env h" and d: "derefs h x p" "derefs h y q"
    and w: "cell h p = WTerm f1" "cell h q = WTerm f2" "f1 \<noteq> f2"
    and fn: "func h f1 = Some (Functor fd)" "func h f2 = Some (Functor fd)"
  shows "\<exists>rc h'. compareStandard env limit h x y True = Some (rc, h') \<and>
    cell h' = cell h \<and> func h' = func h \<and> ind h' = ind h \<and>
    (rc = CMP_EQUAL \<longrightarrow> unified h x y) \<and> (unified h x y \<longrightarrow> rc = CMP_EQUAL \<or> rc = CMP_ERROR)"
proof -
  define st0 where "st0 = \<lparr>uheap = h, lstack = [], agenda = Some []\<rparr>"
  have dr: "deRef h x = Some p" "deRef h y = Some q" using d by (simp_all add: deRef_iff)
  have rc: "compare_primitives env h p q True = CMP_COMPOUND"
    using prim_equal [OF ok(3) derefs_end [OF d(1)] derefs_end [OF d(2)]] w by metis
  note defs = compareStandard_def dr rc w fn Let_def st0_def [symmetric]
  note eq0 = std_eq_start(3) [OF ok(1,2), folded st0_def]
  have ok0: "ustate_ok h st0 (insert (x, y) (upairs st0))" unfolding st0_def by (rule std_eq_start(2) [OF ok(1,2)])
  have post: "cmp_post h st0 x y (compare_push limit st0 f1 f2 fd)"
    by (rule compare_push_post [OF ok0 ok(1), of p q f1 f2])
      (use d w fn in \<open>auto simp: st0_def intro: froot.here\<close>)
  show ?thesis
  proof (cases "compare_push limit st0 f1 f2 fd")
    case (Inl res)
    obtain rc st1 where res: "res = (rc, st1)" by (cases res)
    have st1: "rc \<noteq> CMP_EQUAL" "cell (uheap st1) = cell h" "unified h x y \<Longrightarrow> rc = CMP_ERROR"
      "\<exists>A. unify_inv h (uheap st1) (lstack st1) A"
      using post eq0 unfolding Inl res cmp_post_def by (simp_all add: st0_def)
    then show ?thesis using Inl res by (auto simp: defs exitCyclic_def unify_inv_def)
  next
    case (Inr st1)
    have st1: "ustate_ok h st1 (upairs st1)" "cell (uheap st1) = cell h" "base (uheap st1) x y"
      "unified h x y \<Longrightarrow> all_eq h st1"
      using post eq0 unfolding Inr by (auto simp: cmp_post_def round_post_def st0_def)
    obtain rc st' A where st': "do_compare env limit True st1 = Some (rc, st')" "cell (uheap st') = cell h"
      "unify_inv h (uheap st') (lstack st') A"
      "rc = CMP_EQUAL \<Longrightarrow> unify_inv h (uheap st') (lstack st') {} \<and> base (uheap st') x y"
      "all_eq h st1 \<Longrightarrow> rc = CMP_EQUAL \<or> rc = CMP_ERROR"
      using do_compare_post [OF st1(1) ok(1) st1(2) ok(3), of limit] st1(3) by blast
    have ind: "ind (uheap st') = ind h" using st'(3) by (simp add: unify_inv_def)
    have "rc = CMP_EQUAL \<Longrightarrow> unified h x y"
      using base_unified [of h "uheap st'" "lstack st'" h x y] st' ind by simp
    then show ?thesis using st' st1(4) Inr
      by (auto simp: defs exitCyclic_def unify_inv_def)
  qed
qed

section \<open>Properties\<close>

text \<open>C2: the comparison behind \<^theory_text>\<open>==\<close> (\<^theory_text>\<open>std_eq\<close>) and its negation returns on every heap
  without unfinished operations, cyclic terms included; it leaves the heap as it was; it reports
  equality only for identical (possibly infinite) terms, and for those nothing but equality or the
  exhaustion of memory.\<close>
theorem std_eq_correct:
  assumes "heap_ok h" "no_links h" "canonical env h"
  shows "\<exists>rc h'. compareStandard env limit h x y True = Some (rc, h') \<and>
    cell h' = cell h \<and> func h' = func h \<and> ind h' = ind h \<and>
    (rc = CMP_EQUAL \<longrightarrow> unified h x y) \<and> (unified h x y \<longrightarrow> rc = CMP_EQUAL \<or> rc = CMP_ERROR)"
proof -
  obtain p q where d: "derefs h x p" "derefs h y q" using assms(1) unfolding heap_ok_def by blast
  then have dr: "deRef h x = Some p" "deRef h y = Some q" by (simp_all add: deRef_iff)
  note pe = prim_equal [OF assms(3) derefs_end [OF d(1)] derefs_end [OF d(2)]]
  show ?thesis
  proof (cases "\<exists>f g. cell h p = WTerm f \<and> cell h q = WTerm g \<and> f \<noteq> g")
    case False
    have "agree h p q \<longleftrightarrow> compare_primitives env h p q True = CMP_EQUAL"
      "compare_primitives env h p q True \<noteq> CMP_COMPOUND"
      using pe False by (auto simp: CMP_COMPOUND_def cmp_consts split: if_splits)
    moreover have "agree h p q \<Longrightarrow> unified h x y"
      using base_unified [OF std_eq_start(1) [OF assms(1,2)] refl refl refl] base_intro [OF d] by blast
    ultimately show ?thesis using unified_agree [OF _ d False refl refl]
      by (auto simp: compareStandard_def dr Let_def)
  next
    case True
    then obtain f1 f2 where w: "cell h p = WTerm f1" "cell h q = WTerm f2" "f1 \<noteq> f2" by blast
    then obtain fd1 fd2 where fn: "func h f1 = Some (Functor fd1)" "func h f2 = Some (Functor fd2)"
      using assms(1) std_eq_start(4) [OF assms(1,2)] unfolding heap_ok_def by metis
    show ?thesis
    proof (cases "fd1 = fd2")
      case False
      have "\<not> unified h x y"
      proof
        assume "unified h x y"
        then obtain r s where rs: "derefs h x r" "derefs h y s" "same_end h (unified h) r s"
          unfolding unified_iff [of h x] by blast
        then have "r = p" "s = q" using d derefs_unique by blast+
        with rs(3) w fn False show False unfolding same_end_def by auto
      qed
      moreover have "compare_primitives env h p q True = CMP_COMPOUND" using pe True by metis
      ultimately show ?thesis using False dr w fn by (auto simp: compareStandard_def Let_def compare_functors_def cmp_consts)
    qed (use std_eq_compound [OF assms d w] fn in blast)
  qed
qed

text \<open>A host whose doubles are read as the integers their bits denote.\<close>

definition bits_host :: "(int, int64) host" where
  "bits_host = \<lparr>
     o_gmp = True, iso_flag = False, long_bits = 64, global_limit = 2 ^ 20,
     mpz_of_int64 = sint, mpz_of_double = sint, mpz_get_d = word_of_int,
     mpz_add = (+), mpz_sub = (-), mpz_mul = (*),
     mpz_tdiv_q = (sdiv), mpz_tdiv_r = (smod), mpz_fdiv_q = (div), mpz_fdiv_r = (mod),
     mpz_gcd = gcd, mpz_neg = uminus, mpz_com = (\<lambda>a. - a - 1), mpz_abs = abs, mpz_sgn = sgn,
     mpz_cmp = (-), mpz_cmp_si = (-), mpz_get_si = id,
     mpz_cmp_ui = (\<lambda>a n. a - int n), mpz_get_ui = nat,
     mpz_add_ui = (\<lambda>a n. a + int n), mpz_sub_ui = (\<lambda>a n. a - int n),
     mpz_mul_2exp = (\<lambda>a n. a * 2 ^ n), mpz_fdiv_q_2exp = (\<lambda>a n. a div 2 ^ n),
     mpz_sizeinbase_2 = (\<lambda>a. 64), mpz_scan1_0 = (\<lambda>a. 0), mpz_popcount = (\<lambda>a. 0), mpz_tstbit = bit,
     dbl_of_int64 = id, dbl_to_int64 = id, dbl_in_int64_range = (\<lambda>_. True),
     dbl_class = (\<lambda>f. FP_FINITE), dbl_add = (+), dbl_sub = (-), dbl_mul = (*), dbl_neg = uminus,
     dbl_signbit = (\<lambda>f. f <s 0), dbl_copysign = (\<lambda>a b. a),
     dbl_lt = (<s), dbl_eq = (=) \<rparr>"

text \<open>An atom table whose atoms are texts, and the environment with it.\<close>

definition text_table :: "(atom_t \<Rightarrow> nat list) \<Rightarrow> atom_table" where
  "text_table s = \<lparr>atomValue = (\<lambda>a. \<lparr>atype = \<lparr>rank = int (a mod 2), is_text = True\<rparr>, chars = s a\<rparr>),
     bcompare = (\<lambda>_. None)\<rparr>"

definition sample_env :: cmp_env where
  "sample_env = \<lparr>atoms = text_table (\<lambda>a. [a]), nums = bits_host, isnan = (\<lambda>_. False), NaN_value = id,
     PLFLAG_ISO = False\<rparr>"

theorem std_eq_correct_witness:
  "\<exists>h'. compareStandard sample_env 10 cyclic_heap 0 1 True = Some (CMP_EQUAL, h') \<and>
    unified cyclic_heap 0 1"
proof -
  have "derefs cyclic_heap x x" for x by (rule derefs.here) (simp add: cyclic_heap_def)
  then have ok: "heap_ok cyclic_heap"
    unfolding heap_ok_def
    by (auto simp: cyclic_heap_def split: if_splits intro!: exI froot.here)
  have nl: "no_links cyclic_heap" by (simp add: no_links_def cyclic_heap_def)
  have can: "canonical sample_env cyclic_heap"
    by (simp add: canonical_def cyclic_heap_def sample_env_def bits_host_def)
  from std_eq_correct [OF ok nl can, of 10 0 1] obtain rc h' where
    h': "compareStandard sample_env 10 cyclic_heap 0 1 True = Some (rc, h')"
    "rc = CMP_EQUAL \<longrightarrow> unified cyclic_heap 0 1" by blast
  have "map_option fst (compareStandard sample_env 10 cyclic_heap 0 1 True) = Some CMP_EQUAL"
    by (simp add: compareStandard_def compare_primitives_def compare_round_def compare_push_def
      do_compare.simps deRef.simps fdeRef.simps cyclic_heap_def CMP_COMPOUND_def CMP_ERROR_def cmp_consts
      pushWorkAgendaLR_def linkTermsCyclic_def argTermP_def isVar_def Let_def)
  with h' show ?thesis by auto
qed



end
