(* ===== verification/PL_SegStack.thy ===== *)
theory PL_SegStack
  imports PL_Unify
begin

text \<open>
  Segmented stacks (pl-segstack.c, pl-segstack.h): a stack in a doubly linked list of chunks that are
  allocated when needed; the first one may be part of the client's data. The agendas of pl-termwalk.c
  are built on it. Offsets are in bytes from the start of the data of a chunk; the chunks are listed
  from the last to the first. \<open>mem\<close> tells whether \<^theory_text>\<open>PL_malloc\<close> succeeds.
\<close>

section \<open>Data\<close>

record 'a segchunk =
  ctop :: nat
  csize :: nat
  allocated :: bool
  cdata :: "nat \<Rightarrow> 'a"

record 'a segstack =
  unit_size :: nat
  chunks :: "'a segchunk list"
  sbase :: nat
  stop :: nat
  smax :: nat

definition SEGSTACK_CHUNKSIZE :: nat where "SEGSTACK_CHUNKSIZE = 1024"

text \<open>The offset of \<^theory_text>\<open>data\<close> in a chunk with 64-bit pointers.\<close>

definition CHUNK_HEADER :: nat where "CHUNK_HEADER = 40"

definition initSegStack :: "nat \<Rightarrow> nat \<Rightarrow> (nat \<Rightarrow> 'a) \<Rightarrow> 'a segstack" where
  "initSegStack unit len data =
     (if 0 < len then
        \<lparr>unit_size = unit, chunks = [\<lparr>ctop = 0, csize = len, allocated = False, cdata = data\<rparr>],
         sbase = 0, stop = 0, smax = len - CHUNK_HEADER\<rparr>
      else \<lparr>unit_size = unit, chunks = [], sbase = 0, stop = 0, smax = 0\<rparr>)"

definition emptySegStack :: "'a segstack \<Rightarrow> bool" where
  "emptySegStack s \<longleftrightarrow> stop s = sbase s \<and> (case chunks s of _ # _ # _ \<Rightarrow> False | _ \<Rightarrow> True)"

section \<open>Push and pop\<close>

definition write_unit :: "'a segstack \<Rightarrow> 'a \<Rightarrow> 'a segstack" where
  "write_unit s x = (case chunks s of
     [] \<Rightarrow> s
   | c # cs \<Rightarrow> s\<lparr>chunks := c\<lparr>cdata := (cdata c)(stop s := x)\<rparr> # cs, stop := stop s + unit_size s\<rparr>)"

definition pushSegStack' :: "bool \<Rightarrow> 'a segstack \<Rightarrow> 'a \<Rightarrow> 'a segstack option" where
  "pushSegStack' mem s x =
     (if stop s + unit_size s \<le> smax s then Some (write_unit s x)
      else if \<not> mem then None
      else
        let chunk = \<lparr>ctop = 0, csize = SEGSTACK_CHUNKSIZE, allocated = True, cdata = (\<lambda>_. x)\<rparr>;
            old = (case chunks s of [] \<Rightarrow> [] | c # cs \<Rightarrow> c\<lparr>ctop := stop s\<rparr> # cs) in
        Some (s\<lparr>chunks := chunk # old, sbase := 0, smax := SEGSTACK_CHUNKSIZE - CHUNK_HEADER,
                stop := unit_size s\<rparr>))"

definition pushSegStack :: "bool \<Rightarrow> 'a segstack \<Rightarrow> 'a \<Rightarrow> 'a segstack option" where
  "pushSegStack mem s x =
     (if stop s + unit_size s \<le> smax s then Some (write_unit s x) else pushSegStack' mem s x)"

definition read_unit :: "'a segstack \<Rightarrow> ('a \<times> 'a segstack) option" where
  "read_unit s = (case chunks s of
     [] \<Rightarrow> None
   | c # _ \<Rightarrow> Some (cdata c (stop s - unit_size s), s\<lparr>stop := stop s - unit_size s\<rparr>))"

text \<open>Discard the last chunk; there is a previous one.\<close>

definition drop_chunk :: "'a segstack \<Rightarrow> 'a segstack" where
  "drop_chunk s = (case tl (chunks s) of
     [] \<Rightarrow> s
   | c # cs \<Rightarrow> s\<lparr>chunks := c # cs, sbase := 0, smax := csize c - CHUNK_HEADER, stop := ctop c\<rparr>)"

lemma drop_chunk_length: "tl (chunks s) \<noteq> [] \<Longrightarrow> length (chunks (drop_chunk s)) < length (chunks s)"
  by (cases "chunks s") (auto simp: drop_chunk_def split: list.split)

function popSegStack' :: "'a segstack \<Rightarrow> ('a \<times> 'a segstack) option" where
  "popSegStack' s =
     (if sbase s + unit_size s \<le> stop s then read_unit s
      else if tl (chunks s) \<noteq> [] then popSegStack' (drop_chunk s)
      else None)"
  by pat_completeness auto
termination
  by (relation "measure (\<lambda>s. length (chunks s))") (auto dest: drop_chunk_length)

declare popSegStack'.simps [simp del]

definition popSegStack :: "'a segstack \<Rightarrow> ('a \<times> 'a segstack) option" where
  "popSegStack s =
     (if sbase s + unit_size s \<le> stop s then read_unit s
      else if tl (chunks s) = [] then None
      else popSegStack' s)"

definition topOfSegStack :: "'a segstack \<Rightarrow> 'a option" where
  "topOfSegStack s =
     (if sbase s + unit_size s \<le> stop s then
        map_option (\<lambda>c. cdata c (stop s - unit_size s)) (case chunks s of [] \<Rightarrow> None | c # _ \<Rightarrow> Some c)
      else (case chunks s of
         _ # c # _ \<Rightarrow> if unit_size s \<le> ctop c then Some (cdata c (ctop c - unit_size s)) else None
       | _ \<Rightarrow> None))"

text \<open>\<^const>\<open>None\<close> is the failed assertion of \<^theory_text>\<open>popTopOfSegStack_\<close>.\<close>

function popTopOfSegStack' :: "'a segstack \<Rightarrow> 'a segstack option" where
  "popTopOfSegStack' s =
     (if sbase s + unit_size s \<le> stop s then Some (s\<lparr>stop := stop s - unit_size s\<rparr>)
      else if tl (chunks s) \<noteq> [] then popTopOfSegStack' (drop_chunk s)
      else None)"
  by pat_completeness auto
termination
  by (relation "measure (\<lambda>s. length (chunks s))") (auto dest: drop_chunk_length)

declare popTopOfSegStack'.simps [simp del]

definition quickPopTopOfSegStack :: "'a segstack \<Rightarrow> 'a segstack option" where
  "quickPopTopOfSegStack s =
     (if sbase s + unit_size s \<le> stop s then Some (s\<lparr>stop := stop s - unit_size s\<rparr>) else None)"

definition popTopOfSegStack :: "'a segstack \<Rightarrow> 'a segstack option" where
  "popTopOfSegStack s =
     (case quickPopTopOfSegStack s of Some s' \<Rightarrow> Some s' | None \<Rightarrow> popTopOfSegStack' s)"

section \<open>Scanning and clearing\<close>

text \<open>The cells a scan calls the function on, in order.\<close>

function scan_chunk :: "nat \<Rightarrow> nat \<Rightarrow> nat \<Rightarrow> (nat \<Rightarrow> 'a) \<Rightarrow> 'a list" where
  "scan_chunk u t b f = (if b + u \<le> t \<and> 0 < u then f (t - u) # scan_chunk u (t - u) b f else [])"
  by pat_completeness auto
termination
  by (relation "measure (\<lambda>(u, t, b, f). t)") auto

declare scan_chunk.simps [simp del]

definition scanSegStack :: "'a segstack \<Rightarrow> 'a list" where
  "scanSegStack s = (case chunks s of
     [] \<Rightarrow> []
   | c # cs \<Rightarrow>
       if sbase s = 0 then
         scan_chunk (unit_size s) (if stop s \<le> csize c - CHUNK_HEADER then stop s else ctop c) 0 (cdata c) @
         concat (map (\<lambda>c. scan_chunk (unit_size s) (ctop c) 0 (cdata c)) cs)
       else concat (map (\<lambda>c. scan_chunk (unit_size s) (ctop c) 0 (cdata c)) (c # cs)))"

text \<open>
  \<^theory_text>\<open>topsOfSegStack\<close>: the part of the current chunk, and the part of the previous one; more than
  these two chunks hold is not read right by the code, and is \<^const>\<open>None\<close> here.
\<close>

definition topsOfSegStack :: "'a segstack \<Rightarrow> nat \<Rightarrow> 'a list option" where
  "topsOfSegStack s count =
     (case chunks s of
        [] \<Rightarrow> None
      | c # cs \<Rightarrow>
          let a = take count (scan_chunk (unit_size s) (stop s) (sbase s) (cdata c));
              rest = count - length a in
          if rest = 0 then Some a
          else (case cs of
             [] \<Rightarrow> None
           | d # _ \<Rightarrow>
               let b = take rest (scan_chunk (unit_size s) (ctop d) 0 (cdata d)) in
               if length b = rest then Some (a @ b) else None))"

definition clearSegStack' :: "'a segstack \<Rightarrow> 'a segstack" where
  "clearSegStack' s =
     (let c = last (chunks s) in
      if \<not> allocated c
      then s\<lparr>chunks := [c], sbase := ctop c, stop := ctop c, smax := csize c - CHUNK_HEADER\<rparr>
      else \<lparr>unit_size = 0, chunks = [], sbase = 0, stop = 0, smax = 0\<rparr>)"

definition clearSegStack :: "'a segstack \<Rightarrow> 'a segstack" where
  "clearSegStack s = (if chunks s = [] then s else clearSegStack' s)"

section \<open>Refinement of a list\<close>

text \<open>The units below offset \<open>t\<close>, the last one first.\<close>

definition units :: "nat \<Rightarrow> nat \<Rightarrow> (nat \<Rightarrow> 'a) \<Rightarrow> 'a list" where
  "units u t f = map (\<lambda>i. f (i * u)) (rev [0..<t div u])"

definition contents :: "'a segstack \<Rightarrow> 'a list" where
  "contents s = (case chunks s of
     [] \<Rightarrow> []
   | c # cs \<Rightarrow> units (unit_size s) (stop s) (cdata c) @
       concat (map (\<lambda>c. units (unit_size s) (ctop c) (cdata c)) cs))"

text \<open>Closed chunks are not empty and hold whole units; the current one starts at its data.\<close>

definition seg_ok :: "'a segstack \<Rightarrow> bool" where
  "seg_ok s \<longleftrightarrow> 0 < unit_size s \<and> unit_size s \<le> SEGSTACK_CHUNKSIZE - CHUNK_HEADER \<and> sbase s = 0 \<and>
     unit_size s dvd stop s \<and>
     (case chunks s of
        [] \<Rightarrow> stop s = 0 \<and> smax s = 0
      | c # cs \<Rightarrow> smax s = csize c - CHUNK_HEADER \<and> unit_size s \<le> smax s \<and> stop s \<le> smax s \<and>
          (\<forall>d\<in>set cs. unit_size s dvd ctop d \<and> 0 < ctop d \<and> unit_size s \<le> csize d - CHUNK_HEADER \<and>
             ctop d \<le> csize d - CHUNK_HEADER))"

lemma units_0 [simp]: "units u 0 f = []" "t < u \<Longrightarrow> units u t f = []"
  by (simp_all add: units_def)

lemma units_step: "0 < u \<Longrightarrow> u dvd t \<Longrightarrow> units u (t + u) f = f t # units u t f"
  by (simp add: units_def dvd_div_mult_self)

lemma units_last: "0 < u \<Longrightarrow> u dvd t \<Longrightarrow> u \<le> t \<Longrightarrow> units u t f = f (t - u) # units u (t - u) f"
  using units_step [of u "t - u" f] by (simp add: dvd_diff_nat)

lemma units_upd: "0 < u \<Longrightarrow> u dvd t \<Longrightarrow> units u t (f(t := x)) = units u t f"
  by (auto simp: units_def dvd_def)

lemma units_empty_iff: "0 < u \<Longrightarrow> u dvd t \<Longrightarrow> units u t f = [] \<longleftrightarrow> t = 0"
  by (auto simp: units_def dvd_def)

lemma push_seg:
  assumes "seg_ok s" "pushSegStack mem s x = Some s'"
  shows "seg_ok s' \<and> contents s' = x # contents s"
proof (cases "stop s + unit_size s \<le> smax s")
  case True
  then have s': "s' = write_unit s x" using assms(2) by (simp add: pushSegStack_def)
  obtain c cs where "chunks s = c # cs" using True assms(1) by (cases "chunks s") (auto simp: seg_ok_def)
  then show ?thesis using True assms(1)
    by (simp add: s' write_unit_def seg_ok_def contents_def units_step units_upd)
next
  case False
  have "units (unit_size s) (unit_size s) (\<lambda>_. x) = [x]"
    using assms(1) units_step [of "unit_size s" 0 "\<lambda>_. x"] by (simp add: seg_ok_def)
  moreover have "0 < stop s" if "chunks s = c # cs" for c cs
    using False assms(1) that by (auto simp: seg_ok_def)
  ultimately show ?thesis using False assms
    by (auto simp: pushSegStack_def pushSegStack'_def seg_ok_def contents_def Let_def
        split: if_splits list.splits)
qed

lemma read_seg:
  assumes "seg_ok s" "unit_size s \<le> stop s"
  shows "\<exists>x s'. read_unit s = Some (x, s') \<and> seg_ok s' \<and> contents s = x # contents s'"
proof -
  obtain c cs where c: "chunks s = c # cs" using assms by (cases "chunks s") (auto simp: seg_ok_def)
  have u: "0 < unit_size s" "unit_size s dvd stop s" using assms by (auto simp: seg_ok_def)
  show ?thesis using units_last [OF u assms(2)] c assms
    by (auto simp: read_unit_def contents_def seg_ok_def dvd_diff_nat)
qed

text \<open>An exhausted chunk is discarded only if there is a previous one, which is not empty.\<close>

lemma drop_seg:
  assumes "seg_ok s" "stop s < unit_size s" "tl (chunks s) \<noteq> []"
  shows "seg_ok (drop_chunk s) \<and> contents (drop_chunk s) = contents s \<and>
    unit_size (drop_chunk s) \<le> stop (drop_chunk s) \<and> unit_size (drop_chunk s) = unit_size s \<and>
    sbase (drop_chunk s) = 0"
proof -
  obtain c d cs where c: "chunks s = c # d # cs"
    using assms(3) by (cases "chunks s"; cases "tl (chunks s)") auto
  then show ?thesis using assms
    by (auto simp: drop_chunk_def seg_ok_def contents_def dest: dvd_imp_le)
qed

lemma exhausted_seg:
  assumes "seg_ok s" "stop s < unit_size s" "tl (chunks s) = []"
  shows "contents s = []"
  using assms by (cases "chunks s") (auto simp: contents_def)

lemma pop_seg:
  assumes "seg_ok s"
  shows "case popSegStack s of
      None \<Rightarrow> contents s = [] | Some (x, s') \<Rightarrow> seg_ok s' \<and> contents s = x # contents s'"
proof -
  have b: "sbase s = 0" using assms by (simp add: seg_ok_def)
  consider "unit_size s \<le> stop s" | "stop s < unit_size s" "tl (chunks s) = []"
    | "stop s < unit_size s" "tl (chunks s) \<noteq> []" by linarith
  then show ?thesis
  proof cases
    case 1
    then show ?thesis using read_seg [OF assms] b by (auto simp: popSegStack_def)
  next
    case 2
    then show ?thesis using exhausted_seg [OF assms] b by (simp add: popSegStack_def)
  next
    case 3
    note d = drop_seg [OF assms 3]
    have "popSegStack s = read_unit (drop_chunk s)"
      using 3 b d by (simp add: popSegStack_def popSegStack'.simps [of s] popSegStack'.simps [of "drop_chunk s"])
    then show ?thesis using read_seg [of "drop_chunk s"] d by auto
  qed
qed

interpretation segstack: lifo seg_ok contents "pushSegStack mem" popSegStack for mem
proof
  fix s s' :: "'a segstack" and x
  show "seg_ok s \<Longrightarrow> pushSegStack mem s x = Some s' \<Longrightarrow> seg_ok s' \<and> contents s' = x # contents s"
    by (rule push_seg)
  show "seg_ok s \<Longrightarrow> popSegStack s = None \<longleftrightarrow> contents s = []"
    using pop_seg [of s] by (auto split: option.splits)
  show "seg_ok s \<Longrightarrow> popSegStack s = Some (x, s') \<Longrightarrow> seg_ok s' \<and> contents s = x # contents s'"
    using pop_seg [of s] by auto
qed

lemma init_seg:
  assumes "0 < u" "u \<le> SEGSTACK_CHUNKSIZE - CHUNK_HEADER" "len = 0 \<or> u \<le> len - CHUNK_HEADER"
  shows "seg_ok (initSegStack u len data) \<and> contents (initSegStack u len data) = []"
  using assms by (auto simp: initSegStack_def seg_ok_def contents_def)

lemma contents_top:
  assumes "seg_ok s" "unit_size s \<le> stop s"
  shows "\<exists>c cs r. chunks s = c # cs \<and> contents s = cdata c (stop s - unit_size s) # r"
proof -
  obtain c cs where c: "chunks s = c # cs" using assms by (cases "chunks s") (auto simp: seg_ok_def)
  have u: "0 < unit_size s" "unit_size s dvd stop s" using assms by (auto simp: seg_ok_def)
  show ?thesis using units_last [OF u assms(2), of "cdata c"] c by (auto simp: contents_def)
qed

lemma top_seg:
  assumes "seg_ok s"
  shows "topOfSegStack s = (case contents s of [] \<Rightarrow> None | x # _ \<Rightarrow> Some x)"
proof -
  have b: "sbase s = 0" using assms by (simp add: seg_ok_def)
  consider "unit_size s \<le> stop s" | "stop s < unit_size s" "tl (chunks s) = []"
    | "stop s < unit_size s" "tl (chunks s) \<noteq> []" by linarith
  then show ?thesis
  proof cases
    case 1
    then show ?thesis using contents_top [OF assms 1] b by (auto simp: topOfSegStack_def)
  next
    case 2
    then show ?thesis using exhausted_seg [OF assms] b
      by (cases "chunks s") (auto simp: topOfSegStack_def)
  next
    case 3
    then obtain c d cs where c: "chunks s = c # d # cs"
      by (cases "chunks s"; cases "tl (chunks s)") auto
    note d = drop_seg [OF assms 3]
    have "unit_size s \<le> ctop d" using d c by (simp add: drop_chunk_def)
    with contents_top [of "drop_chunk s"] d c b 3 show ?thesis
      by (auto simp: topOfSegStack_def drop_chunk_def)
  qed
qed

lemma empty_seg:
  assumes "seg_ok s"
  shows "emptySegStack s \<longleftrightarrow> contents s = []"
proof (cases "chunks s")
  case Nil
  then show ?thesis using assms by (simp add: emptySegStack_def contents_def seg_ok_def)
next
  case (Cons c cs)
  have u: "0 < unit_size s" "unit_size s dvd stop s" "sbase s = 0" using assms by (auto simp: seg_ok_def)
  show ?thesis using Cons assms
    by (cases cs) (auto simp: emptySegStack_def contents_def u units_empty_iff seg_ok_def)
qed

lemma pop_top_seg:
  assumes "seg_ok s"
  shows "popTopOfSegStack s = map_option snd (popSegStack s)"
proof -
  have b: "sbase s = 0" using assms by (simp add: seg_ok_def)
  have read: "unit_size t \<le> stop t \<Longrightarrow> seg_ok t \<Longrightarrow>
      read_unit t = Some (fst (the (read_unit t)), t\<lparr>stop := stop t - unit_size t\<rparr>)" for t :: "'a segstack"
    by (auto simp: read_unit_def seg_ok_def split: list.splits)
  consider "unit_size s \<le> stop s" | "stop s < unit_size s" "tl (chunks s) = []"
    | "stop s < unit_size s" "tl (chunks s) \<noteq> []" by linarith
  then show ?thesis
  proof cases
    case 1
    then show ?thesis using read [OF 1 assms] b
      by (simp add: popTopOfSegStack_def quickPopTopOfSegStack_def popSegStack_def) (metis option.map(2) snd_conv)
  next
    case 2
    then show ?thesis using b
      by (simp add: popTopOfSegStack_def quickPopTopOfSegStack_def popSegStack_def
        popTopOfSegStack'.simps [of s])
  next
    case 3
    note d = drop_seg [OF assms 3]
    have "popSegStack s = read_unit (drop_chunk s)"
      using 3 b d by (simp add: popSegStack_def popSegStack'.simps [of s] popSegStack'.simps [of "drop_chunk s"])
    moreover have "popTopOfSegStack s = Some ((drop_chunk s)\<lparr>stop := stop (drop_chunk s) - unit_size s\<rparr>)"
      using 3 b d by (simp add: popTopOfSegStack_def quickPopTopOfSegStack_def
        popTopOfSegStack'.simps [of s] popTopOfSegStack'.simps [of "drop_chunk s"])
    ultimately show ?thesis using read [of "drop_chunk s"] d by (metis option.map(2) snd_conv)
  qed
qed

lemma scan_chunk_units: "0 < u \<Longrightarrow> u dvd t \<Longrightarrow> scan_chunk u t 0 f = units u t f"
proof (induction u t "0::nat" f rule: scan_chunk.induct)
  case (1 u t f)
  then show ?case
    by (subst scan_chunk.simps) (auto simp: units_last dvd_diff_nat dest: dvd_imp_le)
qed

lemma scan_seg:
  assumes "seg_ok s"
  shows "scanSegStack s = contents s"
proof (cases "chunks s")
  case (Cons c cs)
  have u: "0 < unit_size s" "unit_size s dvd stop s" "sbase s = 0" using assms by (auto simp: seg_ok_def)
  have "scan_chunk (unit_size s) (ctop d) 0 (cdata d) = units (unit_size s) (ctop d) (cdata d)" if "d \<in> set cs" for d
    using assms Cons that by (intro scan_chunk_units) (auto simp: seg_ok_def)
  then have "map (\<lambda>d. scan_chunk (unit_size s) (ctop d) 0 (cdata d)) cs =
      map (\<lambda>d. units (unit_size s) (ctop d) (cdata d)) cs" by simp
  then have "concat (map (\<lambda>d. scan_chunk (unit_size s) (ctop d) 0 (cdata d)) cs) =
      concat (map (\<lambda>d. units (unit_size s) (ctop d) (cdata d)) cs)" by (rule arg_cong)
  moreover have "stop s \<le> csize c - CHUNK_HEADER" using assms Cons by (simp add: seg_ok_def)
  ultimately show ?thesis using Cons u
    by (simp add: scanSegStack_def contents_def scan_chunk_units)
qed (simp add: scanSegStack_def contents_def)

lemma tops_seg:
  assumes "seg_ok s" "topsOfSegStack s n = Some xs"
  shows "xs = take n (contents s)"
proof (cases "chunks s")
  case (Cons c cs)
  have u: "0 < unit_size s" "unit_size s dvd stop s" "sbase s = 0" using assms by (auto simp: seg_ok_def)
  have "scan_chunk (unit_size s) (ctop d) 0 (cdata d) = units (unit_size s) (ctop d) (cdata d)" if "d \<in> set cs" for d
    using assms(1) Cons that by (intro scan_chunk_units) (auto simp: seg_ok_def)
  then show ?thesis using assms(2) Cons
    by (cases cs) (auto simp: topsOfSegStack_def contents_def u scan_chunk_units Let_def min_def split: if_splits)
qed (use assms in \<open>simp add: topsOfSegStack_def\<close>)

text \<open>Clearing works for a stack of allocated chunks, and for one that never left its first chunk.\<close>

lemma clear_seg:
  assumes "seg_ok s" "(\<forall>c\<in>set (chunks s). allocated c) \<or> (\<exists>c. chunks s = [c] \<and> ctop c = 0)"
  shows "contents (clearSegStack s) = []"
  using assms by (cases "chunks s") (auto simp: clearSegStack_def clearSegStack'_def contents_def Let_def)

text \<open>
  A first chunk that is part of the client's data and has been closed keeps its old top: after a clear,
  popping what has been pushed since brings the old contents back.
\<close>

definition overflown :: "nat segstack option" where
  "overflown = push_list (pushSegStack True) [1, 2, 3] (initSegStack 24 90 (\<lambda>_. 0))"

lemma cleared_stack_returns_old_data:
  "map_option contents overflown = Some [3, 2, 1]"
  "map_option fst (Option.bind (Option.bind overflown (\<lambda>s. pushSegStack True (clearSegStack s) 7))
     (pop_list popSegStack 3)) = Some [7, 2, 1]"
  by code_simp+

section \<open>Agendas\<close>

text \<open>
  The agendas of pl-termwalk.c: the current work, a position and the number of cells from there, and a
  stack of works. \<open>step\<close> is the increment of a position: of the cell of a \<^theory_text>\<open>term_agenda\<close>, of
  both cells of a \<^theory_text>\<open>term_agendaLR\<close>.
\<close>

definition next_work :: "('n \<Rightarrow> 'n) \<Rightarrow> ('s \<Rightarrow> (('n \<times> nat) \<times> 's) option) \<Rightarrow> ('n \<times> nat) \<times> 's \<Rightarrow>
    ('n \<times> ('n \<times> nat) \<times> 's) option" where
  "next_work step pop a = (case a of ((p, n), s) \<Rightarrow>
     if 0 < n then Some (p, (step p, n - 1), s)
     else (case pop s of
        None \<Rightarrow> None
      | Some ((p, n), s') \<Rightarrow> Some (p, (step p, n - 1), s')))"

definition push_work :: "('s \<Rightarrow> 'n \<times> nat \<Rightarrow> 's option) \<Rightarrow> ('n \<times> nat) \<times> 's \<Rightarrow> nat \<Rightarrow> 'n \<Rightarrow>
    (('n \<times> nat) \<times> 's) option" where
  "push_work push a amount start = (case a of ((p, n), s) \<Rightarrow>
     if 0 < n then map_option (\<lambda>s'. ((start, amount), s')) (push s (p, n))
     else Some ((start, amount), s))"

definition term_agendaLR_init :: "nat \<Rightarrow> addr \<Rightarrow> addr \<Rightarrow> (nat \<Rightarrow> (addr \<times> addr) \<times> nat) \<Rightarrow>
    ((addr \<times> addr) \<times> nat) \<times> ((addr \<times> addr) \<times> nat) segstack" where
  "term_agendaLR_init count left right mem = (((left, right), count), initSegStack 24 256 mem)"

definition stepLR :: "addr \<times> addr \<Rightarrow> addr \<times> addr" where
  "stepLR p = (Suc (fst p), Suc (snd p))"

definition term_agendaLR_next :: "((addr \<times> addr) \<times> nat) \<times> ((addr \<times> addr) \<times> nat) segstack \<Rightarrow>
    ((addr \<times> addr) \<times> ((addr \<times> addr) \<times> nat) \<times> ((addr \<times> addr) \<times> nat) segstack) option" where
  "term_agendaLR_next = next_work stepLR popSegStack"

definition term_agendaLR_push :: "bool \<Rightarrow> ((addr \<times> addr) \<times> nat) \<times> ((addr \<times> addr) \<times> nat) segstack \<Rightarrow>
    nat \<Rightarrow> addr \<Rightarrow> addr \<Rightarrow> (((addr \<times> addr) \<times> nat) \<times> ((addr \<times> addr) \<times> nat) segstack) option" where
  "term_agendaLR_push mem a amount left right = push_work (pushSegStack mem) a amount (left, right)"

text \<open>The same steps on a list of works, the current one first.\<close>

fun next_list :: "('n \<Rightarrow> 'n) \<Rightarrow> ('n \<times> nat) list \<Rightarrow> ('n \<times> ('n \<times> nat) list) option" where
  "next_list step ((p, Suc n) # ws) = Some (p, (step p, n) # ws)"
| "next_list step ((_, 0) # (p, n) # ws) = Some (p, (step p, n - 1) # ws)"
| "next_list step _ = None"

fun push_on_list :: "('n \<times> nat) list \<Rightarrow> nat \<Rightarrow> 'n \<Rightarrow> ('n \<times> nat) list" where
  "push_on_list ((p, Suc n) # ws) amount start = (start, amount) # (p, Suc n) # ws"
| "push_on_list ws amount start = (start, amount) # tl ws"

locale work_stack = lifo ok contents push pop
  for ok :: "'s \<Rightarrow> bool" and contents :: "'s \<Rightarrow> ('n \<times> nat) list"
    and push :: "'s \<Rightarrow> 'n \<times> nat \<Rightarrow> 's option" and pop :: "'s \<Rightarrow> (('n \<times> nat) \<times> 's) option" +
  fixes step :: "'n \<Rightarrow> 'n"
begin

lemma next_refines:
  assumes "ok s"
  shows "map_option (\<lambda>(p, w, s'). (p, w # contents s')) (next_work step pop (w, s)) =
      next_list step (w # contents s)"
    and "next_work step pop (w, s) = Some (p, w', s') \<Longrightarrow> ok s'"
  using pop_None [OF assms] pop_Some [OF assms] assms
  by (cases w; cases "snd w"; cases "pop s"; force simp: next_work_def)+

lemma push_refines:
  assumes "ok s" "push_work push (w, s) amount start = Some (w', s')"
  shows "ok s' \<and> w' # contents s' = push_on_list (w # contents s) amount start"
  using assms push_contents [OF assms(1)]
  by (cases w; cases "snd w") (force simp: push_work_def)+

end

interpretation agenda: work_stack seg_ok contents "pushSegStack mem" popSegStack step for mem step
  by unfold_locales

text \<open>The agenda of unification and comparison is the list model of this one.\<close>

definition frames :: "((addr \<times> addr) \<times> nat) list \<Rightarrow> agendaLR" where
  "frames = map (\<lambda>((l, r), n). (l, r, n))"

lemma next_frames:
  "nextTermAgendaLR (frames ws) =
   map_option (\<lambda>((l, r), ws'). (l, r, frames ws')) (next_list stepLR ws)"
  by (cases "(stepLR, ws)" rule: next_list.cases) (auto simp: frames_def stepLR_def)

lemma push_frames:
  "length ws < limit \<Longrightarrow>
   pushWorkAgendaLR limit (frames ws) amount l r = Some (frames (push_on_list ws amount (l, r)))"
  by (cases "(ws, amount, (l, r))" rule: push_on_list.cases)
    (auto simp: frames_def pushWorkAgendaLR_def split: nat.split)

section \<open>Agendas as lists of cells\<close>

definition cells :: "(addr \<times> nat) list \<Rightarrow> addr list" where
  "cells ws = concat (map (\<lambda>(p, n). [p..<p + n]) ws)"

definition works_ok :: "(addr \<times> nat) list \<Rightarrow> bool" where
  "works_ok ws \<longleftrightarrow> list_all (\<lambda>(p, n). 0 < n) (tl ws)"

lemma next_cells:
  assumes "works_ok ws"
  shows "case next_list Suc ws of None \<Rightarrow> cells ws = []
    | Some (p, ws') \<Rightarrow> works_ok ws' \<and> cells ws = p # cells ws'"
  using assms
proof (cases "(Suc, ws)" rule: next_list.cases)
  case (2 step u p n ws')
  then obtain m where "n = Suc m" using assms by (cases n) (auto simp: works_ok_def)
  then show ?thesis using 2 assms by (simp add: works_ok_def cells_def upt_conv_Cons del: upt_Suc)
qed (use assms in \<open>auto simp: works_ok_def cells_def upt_conv_Cons simp del: upt_Suc\<close>)

lemma push_cells:
  assumes "works_ok ws"
  shows "works_ok (push_on_list ws n p) \<and> cells (push_on_list ws n p) = [p..<p + n] @ cells ws"
  using assms
  by (cases "(ws, n, p)" rule: push_on_list.cases) (auto simp: works_ok_def cells_def)

section \<open>Properties\<close>

text \<open>C12: a segmented stack is a list: pushing puts an element on top, popping and
  \<^theory_text>\<open>popTopOfSegStack\<close> take it off, the top and emptiness tests agree with the list, a scan meets
  every live element from the last to the first, over all chunk boundaries.\<close>
theorem segstack_refines_list:
  assumes "seg_ok s"
  shows "(\<forall>s'. pushSegStack mem s x = Some s' \<longrightarrow> seg_ok s' \<and> contents s' = x # contents s) \<and>
    pushSegStack True s x \<noteq> None \<and>
    (case popSegStack s of None \<Rightarrow> contents s = [] | Some (y, s') \<Rightarrow> seg_ok s' \<and> contents s = y # contents s') \<and>
    popTopOfSegStack s = map_option snd (popSegStack s) \<and>
    topOfSegStack s = (case contents s of [] \<Rightarrow> None | y # _ \<Rightarrow> Some y) \<and>
    (emptySegStack s \<longleftrightarrow> contents s = []) \<and> scanSegStack s = contents s \<and>
    (\<forall>xs. topsOfSegStack s n = Some xs \<longrightarrow> xs = take n (contents s))"
proof -
  have "pushSegStack True s x \<noteq> None" by (simp add: pushSegStack_def pushSegStack'_def Let_def)
  then show ?thesis
    using push_seg [OF assms] pop_seg [OF assms] pop_top_seg [OF assms] top_seg [OF assms]
      empty_seg [OF assms] scan_seg [OF assms] tops_seg [OF assms] by blast
qed

theorem segstack_refines_list_witness:
  "\<exists>s. overflown = Some s \<and> scanSegStack s = [3, 2, 1]"
proof -
  obtain s where s: "overflown = Some s" "seg_ok s" "contents s = [3, 2, 1]"
  proof -
    have i: "seg_ok (initSegStack 24 90 (\<lambda>_. 0 :: nat)) \<and> contents (initSegStack 24 90 (\<lambda>_. 0 :: nat)) = []"
      by (rule init_seg) (simp_all add: SEGSTACK_CHUNKSIZE_def CHUNK_HEADER_def)
    obtain s where "overflown = Some s"
      using cleared_stack_returns_old_data(1) by (cases overflown) auto
    moreover from this have "seg_ok s \<and> contents s = rev [1, 2, 3] @ []"
      using segstack.push_list_contents [of "initSegStack 24 90 (\<lambda>_. 0 :: nat)" True "[1, 2, 3]" s] i
      unfolding overflown_def by metis
    ultimately show ?thesis using that by simp
  qed
  from segstack_refines_list [OF s(2), of True 0 0] have "scanSegStack s = contents s" by blast
  with s(3) have "scanSegStack s = [3, 2, 1]" by simp
  with s(1) show ?thesis by blast
qed

text \<open>C30: the agenda of \<^theory_text>\<open>do_unify\<close> and \<^theory_text>\<open>do_compare\<close> on a segmented stack behaves as
  the list agenda those operations are modelled with, as long as memory lasts.\<close>
theorem term_agendaLR_refines:
  assumes "seg_ok s"
  shows "nextTermAgendaLR (frames (w # contents s)) =
      map_option (\<lambda>((l, r), w', s'). (l, r, frames (w' # contents s'))) (term_agendaLR_next (w, s)) \<and>
    (\<forall>w' s'. term_agendaLR_push mem (w, s) n l r = Some (w', s') \<longrightarrow> length (contents s) + 1 < limit \<longrightarrow>
      pushWorkAgendaLR limit (frames (w # contents s)) n l r = Some (frames (w' # contents s')))"
proof
  have "next_list stepLR (w # contents s) =
      map_option (\<lambda>(p, w, s'). (p, w # contents s')) (term_agendaLR_next (w, s))"
    using agenda.next_refines(1) [OF assms, of stepLR w] by (simp add: term_agendaLR_next_def)
  then show "nextTermAgendaLR (frames (w # contents s)) =
      map_option (\<lambda>((l, r), w', s'). (l, r, frames (w' # contents s'))) (term_agendaLR_next (w, s))"
    by (cases "term_agendaLR_next (w, s)") (auto simp: next_frames)
  show "\<forall>w' s'. term_agendaLR_push mem (w, s) n l r = Some (w', s') \<longrightarrow> length (contents s) + 1 < limit \<longrightarrow>
      pushWorkAgendaLR limit (frames (w # contents s)) n l r = Some (frames (w' # contents s'))"
    using agenda.push_refines [OF assms] push_frames [of "w # contents s" limit n l r]
    by (simp add: term_agendaLR_push_def)
qed

theorem term_agendaLR_refines_witness:
  "nextTermAgendaLR [(10, 20, 2)] =
    map_option (\<lambda>((l, r), w', s'). (l, r, frames (w' # contents s')))
      (term_agendaLR_next (term_agendaLR_init 2 10 20 (\<lambda>_. ((0, 0), 0))))"
proof -
  have i: "seg_ok (initSegStack 24 256 (\<lambda>_. ((0::nat, 0::nat), 0::nat))) \<and>
      contents (initSegStack 24 256 (\<lambda>_. ((0::nat, 0::nat), 0::nat))) = []"
    by (rule init_seg) (simp_all add: SEGSTACK_CHUNKSIZE_def CHUNK_HEADER_def)
  then show ?thesis
    using term_agendaLR_refines [of "initSegStack 24 256 (\<lambda>_. ((0, 0), 0))" "((10, 20), 2)"]
    by (simp add: term_agendaLR_init_def frames_def)
qed

end
