(* ===== verification/PL_RecCodec.thy ===== *)
theory PL_RecCodec
  imports PL_Arith
begin

text \<open>
  The variable-length integers of the recorded database (pl-rec.c): sizes as groups of seven bits, most
  significant first, and signed 64-bit integers as a byte count and that many bytes. Reading past the
  end of the buffer, which is undefined in C, is \<^const>\<open>None\<close>.
\<close>

section \<open>Sizes\<close>

type_synonym size_t = "64 word"

text \<open>The loop over \<^theory_text>\<open>zips\<close>; the first argument is \<^theory_text>\<open>zips + 1\<close>.\<close>

fun uint_zips :: "nat \<Rightarrow> bool \<Rightarrow> size_t \<Rightarrow> byte list" where
  "uint_zips 0 leading val = []"
| "uint_zips (Suc zips) leading val =
     (let d = ucast (drop_bit (zips * 7) val AND 0x7f) :: cint in
      if d \<noteq> 0 \<or> \<not> leading
      then ucast (if zips \<noteq> 0 then d OR 0x80 else d) # uint_zips zips False val
      else uint_zips zips leading val)"

definition addUintBuffer :: "size_t \<Rightarrow> byte list" where
  "addUintBuffer val =
     (if val AND NOT 0x7f = 0 then [ucast val]
      else uint_zips ((8 * 8 + 7 - 1) div 7) True val)"

fun size_loop :: "size_t \<Rightarrow> byte list \<Rightarrow> (size_t \<times> byte list) option" where
  "size_loop r [] = None"
| "size_loop r (b # data) =
     (let d = scast b :: size_t; r = push_bit 7 r OR (d AND 0x7f) in
      if d AND 0x80 \<noteq> 0 then size_loop r data else Some (r, data))"

definition fetchSizeInt :: "byte list \<Rightarrow> (size_t \<times> byte list) option" where
  "fetchSizeInt data = size_loop 0 data"

fun skipSizeInt :: "byte list \<Rightarrow> byte list option" where
  "skipSizeInt [] = None"
| "skipSizeInt (b # data) = (if b AND 0x80 \<noteq> 0 then skipSizeInt data else Some data)"

text \<open>
  \<^theory_text>\<open>readSizeInt\<close> reads from a stream into a buffer, of which it uses at most ten bytes; a stream is
  the list of its remaining bytes.
\<close>

datatype read_size = RS_EOF | RS_TOO_LONG | RS_OK "byte list" size_t "byte list"

fun read_size_loop :: "byte list \<Rightarrow> size_t \<Rightarrow> byte list \<Rightarrow> read_size" where
  "read_size_loop to r [] = RS_EOF"
| "read_size_loop to r (b # inp) =
     (let to = to @ [b] in
      if 10 < length to then RS_TOO_LONG
      else
        let r = push_bit 7 r OR (ucast b AND 0x7f) in
        if b AND 0x80 \<noteq> 0 then read_size_loop to r inp else RS_OK to r inp)"

definition readSizeInt :: "byte list \<Rightarrow> read_size" where
  "readSizeInt inp = read_size_loop [] 0 inp"

section \<open>Integers\<close>

text \<open>The byte count of a value, and its bytes from the most significant one.\<close>

definition int64_size :: "int64 \<Rightarrow> int" where
  "int64_size v =
     (if v = 0 then 1
      else if v = PLMININT then 8
      else let a = (if 0 <s v then v else - v) in (MSB64 a + 9) div 8)"

fun int64_bytes :: "nat \<Rightarrow> int64 \<Rightarrow> byte list" where
  "int64_bytes 0 v = []"
| "int64_bytes (Suc i) v = ucast (ucast (signed_drop_bit (i * 8) v) AND 0xff :: cint) # int64_bytes i v"

definition addInt64 :: "int64 \<Rightarrow> byte list" where
  "addInt64 v = word_of_int (int64_size v) # int64_bytes (nat (int64_size v)) v"

fun fetch_bytes :: "nat \<Rightarrow> int64 \<Rightarrow> byte list \<Rightarrow> (int64 \<times> byte list) option" where
  "fetch_bytes 0 val data = Some (val, data)"
| "fetch_bytes (Suc n) val [] = None"
| "fetch_bytes (Suc n) val (b # data) = fetch_bytes n (push_bit 8 val OR (scast b AND 0xff)) data"

text \<open>The shifts by 64 and more that other byte counts would need are undefined.\<close>

definition fetchInt64 :: "byte list \<Rightarrow> (int64 \<times> byte list) option" where
  "fetchInt64 data = (case data of
     [] \<Rightarrow> None
   | b # data \<Rightarrow>
       let bytes = scast b :: cint; shift = (8 - bytes) * 8 in
       if 1 \<le> unat bytes \<and> unat bytes \<le> 8 then
         map_option (\<lambda>(val, data). (signed_drop_bit (unat shift) (push_bit (unat shift) val), data))
           (fetch_bytes (unat bytes) 0 data)
       else None)"

section \<open>Round trips\<close>

lemma low7: "(x::'a::len word) AND 0x7f = take_bit 7 x"
  by (simp add: take_bit_eq_mask mask_numeral)

lemma flag7: "(x::'a::len word) AND 0x80 = 0 \<longleftrightarrow> \<not> bit x 7"
proof -
  have "(x AND 0x80 = 0) \<longleftrightarrow> (\<forall>n. \<not> (bit x n \<and> n = 7))"
    by (auto simp: bit_eq_iff bit_simps const_bits) (auto dest: bit_imp_le_length)
  then show ?thesis by blast
qed

lemma zip_byte:
  "(ucast (ucast (take_bit 7 (x::size_t)) OR 0x80 :: cint) :: byte) = ucast (take_bit 7 x) OR 0x80"
  "(ucast (ucast (take_bit 7 (x::size_t)) :: cint) :: byte) = ucast (take_bit 7 x)"
  "(ucast (take_bit 7 (x::size_t)) :: cint) = 0 \<longleftrightarrow> take_bit 7 x = 0"
proof -
  show "(ucast (ucast (take_bit 7 (x::size_t)) OR 0x80 :: cint) :: byte) = ucast (take_bit 7 x) OR 0x80"
    "(ucast (ucast (take_bit 7 (x::size_t)) :: cint) :: byte) = ucast (take_bit 7 x)"
    by (rule bit_word_eqI; auto simp: bit_simps const_bits)+
  have "take_bit 7 x = ucast (ucast (take_bit 7 x) :: cint)"
    by (rule bit_word_eqI) (auto simp: bit_simps)
  then show "(ucast (take_bit 7 (x::size_t)) :: cint) = 0 \<longleftrightarrow> take_bit 7 x = 0"
    by (metis unsigned_0)
qed

lemma byte_flag:
  "bit (scast (ucast (take_bit 7 (x::size_t)) OR 0x80 :: byte) :: size_t) 7"
  "take_bit 7 (scast (ucast (take_bit 7 (x::size_t)) OR 0x80 :: byte) :: size_t) = take_bit 7 x"
  "\<not> bit (scast (ucast (take_bit 7 (x::size_t)) :: byte) :: size_t) 7"
  "take_bit 7 (scast (ucast (take_bit 7 (x::size_t)) :: byte) :: size_t) = take_bit 7 x"
     apply (auto simp: bit_simps const_bits)
   apply (rule bit_word_eqI; auto simp: bit_simps const_bits min_def)+
  done

lemma glue7: "push_bit 7 (push_bit (7 * z) r OR take_bit (7 * z) (drop_bit 7 v)) OR take_bit 7 (v::size_t)
   = push_bit (7 * Suc z) r OR take_bit (7 * Suc z) v"
  by (rule bit_word_eqI) (auto simp: bit_simps less_diff_conv2)

lemma size_loop_zips:
  "size_loop r (uint_zips (Suc z) False val @ rest) =
     Some (push_bit (7 * Suc z) r OR take_bit (7 * Suc z) val, rest)"
proof (induction z arbitrary: r)
  case 0
  then show ?case
    by (simp add: Let_def low7 flag7 zip_byte byte_flag)
next
  case (Suc z)
  have "push_bit (7 * Suc z) (push_bit 7 r OR take_bit 7 (drop_bit (7 * Suc z) val)) OR take_bit (7 * Suc z) val =
      push_bit (7 * Suc (Suc z)) r OR take_bit (7 * Suc (Suc z)) val"
    by (rule bit_word_eqI) (auto simp: bit_simps)
  then show ?case
    using Suc.IH [of "push_bit 7 r OR take_bit 7 (drop_bit (7 * Suc z) val)"]
    by (simp add: Let_def low7 flag7 zip_byte byte_flag mult.commute [of _ 7] del: mult_Suc_right)
qed

lemma size_loop_leading:
  assumes "take_bit (7 * z) val \<noteq> 0"
  shows "size_loop 0 (uint_zips z True val @ rest) = Some (take_bit (7 * z) val, rest)"
  using assms
proof (induction z)
  case (Suc z)
  have split: "take_bit (7 * Suc z) val = push_bit (7 * z) (take_bit 7 (drop_bit (7 * z) val)) OR take_bit (7 * z) val"
    by (rule bit_word_eqI) (auto simp: bit_simps)
  show ?case
  proof (cases "take_bit 7 (drop_bit (7 * z) val) = 0")
    case True
    then show ?thesis using Suc split
      by (simp add: Let_def low7 zip_byte mult.commute [of _ 7] del: mult_Suc_right)
  next
    case False
    then have "uint_zips (Suc z) True val = uint_zips (Suc z) False val"
      by (simp add: Let_def low7 zip_byte mult.commute [of _ 7])
    then show ?thesis using size_loop_zips [of 0 z val rest] by simp
  qed
qed simp

lemma fetch_addUint: "fetchSizeInt (addUintBuffer val @ rest) = Some (val, rest)"
proof (cases "val AND NOT 0x7f = 0")
  case True
  have "take_bit 7 val = val"
  proof (rule bit_word_eqI)
    fix n assume "n < LENGTH(64)"
    have "\<not> bit (val AND NOT 0x7f) n" using True by simp
    then show "bit (take_bit 7 val) n = bit val n"
      by (auto simp: bit_simps const_bits dest: bit_imp_le_length)
  qed
  then have "take_bit 7 (scast (ucast val :: byte)) = val" "\<not> bit (scast (ucast val :: byte) :: size_t) 7"
    using byte_flag(3,4) [of val] by simp_all
  then show ?thesis using True
    by (simp add: addUintBuffer_def fetchSizeInt_def Let_def low7 flag7)
next
  case False
  have "take_bit (7 * 10) val = val" by (rule bit_word_eqI) (simp add: bit_simps)
  moreover have "val \<noteq> 0" using False by auto
  ultimately show ?thesis using False size_loop_leading [of 10 val rest]
    by (simp add: addUintBuffer_def fetchSizeInt_def)
qed

interpretation size_codec: byte_codec addUintBuffer fetchSizeInt "\<lambda>_. True"
  by unfold_locales (rule fetch_addUint)

lemma scast_flag: "bit (scast (b::byte) :: size_t) 7 = bit b 7"
  by (simp add: bit_simps)

lemma size_loop_skip: "size_loop r s = Some (x, t) \<Longrightarrow> skipSizeInt s = Some t"
  by (induction r s rule: size_loop.induct) (auto simp: Let_def flag7 scast_flag split: if_splits)

lemma skip_addUint: "skipSizeInt (addUintBuffer val @ rest) = Some rest"
  using fetch_addUint [of val rest] size_loop_skip unfolding fetchSizeInt_def by blast

lemma size_loop_length: "size_loop q s = Some (y, t) \<Longrightarrow> length t < length s"
  by (induction q s rule: size_loop.induct) (fastforce simp: Let_def split: if_splits)+

lemma size_loop_read:
  assumes "size_loop r (pre @ t) = Some (x, t)" "length to + length pre \<le> 10"
  shows "read_size_loop to r (pre @ t) = RS_OK (to @ pre) x t"
  using assms
proof (induction pre arbitrary: to r)
  case Nil
  then show ?case using size_loop_length by fastforce
next
  case (Cons b pre)
  have low: "ucast b AND 0x7f = (scast b AND 0x7f :: size_t)"
    by (rule bit_word_eqI) (auto simp: bit_simps const_bits min_def)
  show ?case
  proof (cases "bit b 7")
    case True
    then show ?thesis using Cons by (simp add: Let_def flag7 scast_flag low)
  next
    case False
    then show ?thesis using Cons by (simp add: Let_def flag7 scast_flag low)
  qed
qed

lemma addUint_length: "length (addUintBuffer val) \<le> 10"
proof -
  have "length (uint_zips n l val) \<le> n" for n l
    by (induction n arbitrary: l) (auto simp: Let_def intro: le_SucI)
  then show ?thesis by (simp add: addUintBuffer_def)
qed

lemma read_addUint: "readSizeInt (addUintBuffer val @ rest) = RS_OK (addUintBuffer val) val rest"
  using size_loop_read [of 0 "addUintBuffer val" rest val "[]"] fetch_addUint [of val rest] addUint_length
  by (simp add: readSizeInt_def fetchSizeInt_def)

subsection \<open>Signed integers\<close>

lemma fetch_int64_bytes:
  "8 * n \<le> 64 \<Longrightarrow> fetch_bytes n val (int64_bytes n v @ rest) =
     Some (push_bit (8 * n) val OR take_bit (8 * n) v, rest)"
proof (induction n arbitrary: val)
  case (Suc n)
  define b :: byte where "b = ucast (ucast (signed_drop_bit (n * 8) v) AND 0xff :: cint)"
  have "scast b AND 0xff = take_bit 8 (drop_bit (8 * n) v)"
  proof (rule bit_word_eqI)
    fix m :: nat
    consider "m < 7" | "m = 7" | "8 \<le> m" by linarith
    then show "bit (scast b AND (0xff :: int64)) m = bit (take_bit 8 (drop_bit (8 * n) v)) m"
      unfolding b_def using Suc.prems
      by cases (auto simp: bit_simps const_bits min_def mult.commute add.commute eval_nat_numeral)
  qed
  moreover have "push_bit (8 * n) (push_bit 8 val OR take_bit 8 (drop_bit (8 * n) v)) OR take_bit (8 * n) v =
      push_bit (8 * Suc n) val OR take_bit (8 * Suc n) v"
    by (intro bit_word_eqI) (auto simp: bit_simps add.commute)
  ultimately have "push_bit (8 * n) (push_bit 8 val OR (scast b AND 0xff)) OR take_bit (8 * n) v =
      push_bit (8 * Suc n) val OR take_bit (8 * Suc n) v" by simp
  then show ?case using Suc by (simp add: b_def)
qed simp

lemma sint_eq_signed_take:
  assumes "0 < n" "n \<le> 64" "- (2 ^ (n - 1)) \<le> sint v" "sint v < 2 ^ (n - 1)"
  shows "signed_drop_bit (64 - n) (push_bit (64 - n) (take_bit n (v::int64))) = v"
proof -
  have "signed_take_bit (n - 1) (sint v) = sint v"
    using assms by (intro signed_take_bit_int_eq_self) auto
  moreover have "bit (signed_take_bit (n - 1) (sint v)) m = bit (sint v) (min (n - 1) m)" for m
    by (simp add: bit_signed_take_bit_iff)
  ultimately have b: "bit (sint v) (min (n - 1) m) = bit (sint v) m" for m by metis
  have "bit v m = bit v (n - 1)" if "n \<le> m" "m < 64" for m
    using b [of m] that assms(1,2) by (simp add: bit_sint_iff min_def split: if_splits)
  then show ?thesis using assms(1,2)
    by (intro bit_word_eqI) (auto simp: bit_simps min_def)
qed

lemma int64_size_bounds:
  shows "1 \<le> int64_size v" "int64_size v \<le> 8"
    and "- (2 ^ (nat (8 * int64_size v) - 1)) \<le> sint v" "sint v < 2 ^ (nat (8 * int64_size v) - 1)"
proof -
  have "1 \<le> int64_size v \<and> int64_size v \<le> 8 \<and> - (2 ^ (nat (8 * int64_size v) - 1)) \<le> sint v \<and>
    sint v < 2 ^ (nat (8 * int64_size v) - 1)"
  proof (cases "v = 0 \<or> v = PLMININT")
    case True
    then show ?thesis using sint_range64 [of v] by (auto simp: int64_size_def)
  next
    case False
    define a where "a = (if 0 <s v then v else - v)"
    have a: "sint a = \<bar>sint v\<bar>" "0 <s a"
      using False sint_neg [of v] sint_eq_0 [of v] unfolding a_def
      by (auto simp: signed_cmp simp del: sint_eq_0)
    note m = MSB64_bounds [OF a(2)]
    define k where "k = (MSB64 a + 9) div 8"
    have k: "8 * k \<ge> MSB64 a + 2" "1 \<le> k" "k \<le> 8"
      unfolding k_def using m by presburger+
    have "sint a < 2 ^ nat (MSB64 a + 1)" using m by simp
    also have "\<dots> \<le> 2 ^ (nat (8 * k) - 1)" using k m by (intro power_increasing) auto
    finally have "\<bar>sint v\<bar> < 2 ^ (nat (8 * k) - 1)" by (simp add: a)
    moreover have "int64_size v = k" using False by (simp add: int64_size_def a_def k_def)
    ultimately show ?thesis using k by (simp add: abs_less_iff)
  qed
  then show "1 \<le> int64_size v" "int64_size v \<le> 8" "- (2 ^ (nat (8 * int64_size v) - 1)) \<le> sint v"
    "sint v < 2 ^ (nat (8 * int64_size v) - 1)" by simp_all
qed

lemma fetch_addInt64: "fetchInt64 (addInt64 v @ rest) = Some (v, rest)"
proof -
  obtain n where n: "int64_size v = int n" "1 \<le> n" "n \<le> 8"
    using int64_size_bounds(1,2) [of v] by (metis nat_le_iff nat_0_le of_nat_1 of_nat_le_iff of_nat_numeral order_trans zero_le_one)
  have c: "(scast (word_of_nat n :: byte) :: cint) = word_of_nat n"
    "unat (word_of_nat n :: cint) = n" "unat ((8 - word_of_nat n) * 8 :: cint) = 64 - 8 * n"
  proof -
    have "n \<in> {1, 2, 3, 4, 5, 6, 7, 8}" using n by auto
    then show "(scast (word_of_nat n :: byte) :: cint) = word_of_nat n"
      "unat (word_of_nat n :: cint) = n" "unat ((8 - word_of_nat n) * 8 :: cint) = 64 - 8 * n"
      by auto
  qed
  have "signed_drop_bit (64 - 8 * n) (push_bit (64 - 8 * n) (take_bit (8 * n) v)) = v"
    using int64_size_bounds(3,4) [of v] n by (intro sint_eq_signed_take) (auto simp: nat_mult_distrib)
  then show ?thesis
    using fetch_int64_bytes [of n 0 v rest] n c by (simp add: addInt64_def fetchInt64_def Let_def)
qed

interpretation int64_codec: byte_codec addInt64 fetchInt64 "\<lambda>_. True"
  by unfold_locales (rule fetch_addInt64)

section \<open>Properties\<close>

text \<open>C24: Sizes and 64-bit integers of any value are read back as they were written, whatever follows
  them; skipping a size and reading it from a stream agree with fetching it; a size takes at most the
  ten bytes of the buffer of \<^theory_text>\<open>readSizeInt\<close>, an integer at most nine.\<close>

theorem rec_codec_roundtrip:
  "fetchSizeInt (addUintBuffer n @ rest) = Some (n, rest) \<and>
   skipSizeInt (addUintBuffer n @ rest) = Some rest \<and>
   readSizeInt (addUintBuffer n @ rest) = RS_OK (addUintBuffer n) n rest \<and>
   fetchInt64 (addInt64 v @ rest) = Some (v, rest) \<and>
   length (addUintBuffer n) \<le> 10 \<and> length (addInt64 v) \<le> 9"
proof -
  have "length (int64_bytes k v) = k" for k by (induction k) simp_all
  then have "length (addInt64 v) \<le> 9"
    using int64_size_bounds(1,2) [of v] by (simp add: addInt64_def nat_le_iff)
  then show ?thesis
    using size_codec.dec_enc skip_addUint read_addUint int64_codec.dec_enc addUint_length
    by blast
qed

end
