(* ===== verification/PL_Records.thy ===== *)
theory PL_Records
  imports PL_SegStack PL_RecCodec
begin

text \<open>
  The recorded database (pl-rec.c): terms, with sharing, cycles and attributed variables, as byte
  strings, in the internal format of recorda/3 and findall/3 and in the external one of
  fast\_write/2. Compiling overwrites variables with their number and functor cells with the offset of
  the copy, and restores them. Reads past the end of the data and failed assertions are
  \<^const>\<open>None\<close>. Agendas are the lists that the segmented stacks implement (PL\_SegStack); memory for
  them and for buffers does not run out here.
\<close>

section \<open>Environment\<close>

text \<open>
  Atoms and functors as machine words, the text of atoms (\<^const>\<open>None\<close> for a blob that is no text;
  the flag tells wide characters), the atom table, GMP import and export, the version of the opcodes.
\<close>

record rec_env =
  atom_word :: "atom_t \<Rightarrow> size_t"
  word_atom :: "size_t \<Rightarrow> atom_t"
  functor_word :: "functor_t \<Rightarrow> size_t"
  word_functor :: "size_t \<Rightarrow> functor_t"
  ATOM_nil :: atom_t
  ATOM_dict :: atom_t
  FUNCTOR_dot2 :: functor_t
  atom_text :: "atom_t \<Rightarrow> (bool \<times> byte list) option"
  lookupAtom :: "byte list \<Rightarrow> atom_t"
  lookupUCSAtom :: "byte list \<Rightarrow> atom_t"
  mpz_export :: "int \<Rightarrow> byte list"
  mpz_import :: "byte list \<Rightarrow> int"

definition PL_TYPE_VARIABLE :: byte where "PL_TYPE_VARIABLE = 1"
definition PL_TYPE_ATOM :: byte where "PL_TYPE_ATOM = 2"
definition PL_TYPE_INTEGER :: byte where "PL_TYPE_INTEGER = 3"
definition PL_TYPE_TAGGED_INTEGER :: byte where "PL_TYPE_TAGGED_INTEGER = 4"
definition PL_TYPE_FLOAT :: byte where "PL_TYPE_FLOAT = 5"
definition PL_TYPE_STRING :: byte where "PL_TYPE_STRING = 6"
definition PL_TYPE_COMPOUND :: byte where "PL_TYPE_COMPOUND = 7"
definition PL_TYPE_CONS :: byte where "PL_TYPE_CONS = 8"
definition PL_TYPE_NIL :: byte where "PL_TYPE_NIL = 9"
definition PL_TYPE_DICT :: byte where "PL_TYPE_DICT = 10"
definition PL_TYPE_EXT_ATOM :: byte where "PL_TYPE_EXT_ATOM = 11"
definition PL_TYPE_EXT_WATOM :: byte where "PL_TYPE_EXT_WATOM = 12"
definition PL_TYPE_EXT_COMPOUND :: byte where "PL_TYPE_EXT_COMPOUND = 13"
definition PL_TYPE_EXT_FLOAT :: byte where "PL_TYPE_EXT_FLOAT = 14"
definition PL_TYPE_ATTVAR :: byte where "PL_TYPE_ATTVAR = 15"
definition PL_REC_ALLOCVAR :: byte where "PL_REC_ALLOCVAR = 16"
definition PL_REC_CYCLE :: byte where "PL_REC_CYCLE = 17"
definition PL_REC_MPZ :: byte where "PL_REC_MPZ = 18"
definition PL_TYPE_EXT_COMPOUND_V2 :: byte where "PL_TYPE_EXT_COMPOUND_V2 = 19"

lemmas opcode_defs =
  PL_TYPE_VARIABLE_def PL_TYPE_ATOM_def PL_TYPE_INTEGER_def PL_TYPE_TAGGED_INTEGER_def
  PL_TYPE_FLOAT_def PL_TYPE_STRING_def PL_TYPE_COMPOUND_def PL_TYPE_CONS_def PL_TYPE_NIL_def
  PL_TYPE_DICT_def PL_TYPE_EXT_ATOM_def PL_TYPE_EXT_WATOM_def PL_TYPE_EXT_COMPOUND_def
  PL_TYPE_EXT_FLOAT_def PL_TYPE_ATTVAR_def PL_REC_ALLOCVAR_def PL_REC_CYCLE_def PL_REC_MPZ_def
  PL_TYPE_EXT_COMPOUND_V2_def

section \<open>Primitive data\<close>

text \<open>Native words and doubles, on a machine that stores the least significant byte first.\<close>

definition word_bytes :: "size_t \<Rightarrow> byte list" where
  "word_bytes w = map (\<lambda>i. ucast (drop_bit (8 * i) w)) [0..<8]"

fun bytes_word :: "byte list \<Rightarrow> size_t" where
  "bytes_word [] = 0"
| "bytes_word (b # bs) = push_bit 8 (bytes_word bs) OR ucast b"

definition fetchBuf :: "nat \<Rightarrow> byte list \<Rightarrow> (byte list \<times> byte list) option" where
  "fetchBuf n data = (if n \<le> length data then Some (take n data, drop n data) else None)"

definition fetchWord :: "byte list \<Rightarrow> (size_t \<times> byte list) option" where
  "fetchWord data = map_option (\<lambda>(bs, data). (bytes_word bs, data)) (fetchBuf 8 data)"

text \<open>
  The data of a string object (\<^theory_text>\<open>globalWString\<close>): a byte B and 8-bit characters, or a byte W,
  three ignored bytes and 32-bit ones; its size in words leaves from one to eight bytes of padding.
\<close>

definition wchar_bytes :: "nat \<Rightarrow> byte list" where
  "wchar_bytes c = map (\<lambda>i. word_of_nat (c div 2 ^ (8 * i))) [0..<4]"

definition string_bytes :: "nat list \<Rightarrow> byte list" where
  "string_bytes s =
     (if list_all (\<lambda>c. c \<le> 0xff) s then 66 # map word_of_nat s
      else 87 # 0 # 0 # 0 # concat (map wchar_bytes s))"

fun wchars :: "byte list \<Rightarrow> nat list" where
  "wchars (a # b # c # d # bs) =
     (unat a + 2 ^ 8 * unat b + 2 ^ 16 * unat c + 2 ^ 24 * unat d) # wchars bs"
| "wchars _ = []"

definition bytes_string :: "byte list \<Rightarrow> nat list" where
  "bytes_string bs = (case bs of
     [] \<Rightarrow> [] | b # bs \<Rightarrow> if b = 66 then map unat bs else wchars (drop 3 bs))"

definition string_words :: "nat \<Rightarrow> nat" where
  "string_words len = (len + 8) div 8"

text \<open>GMP integers: a signed 32-bit byte count, most significant byte first, and the magnitude.\<close>

definition addMPZToBuffer :: "rec_env \<Rightarrow> int \<Rightarrow> byte list" where
  "addMPZToBuffer E z =
     (let size = length (mpz_export E z);
          hdrsize = (if z < 0 then - int size else int size) in
      map (\<lambda>i. word_of_int (hdrsize div 2 ^ (8 * i))) [3, 2, 1, 0] @ mpz_export E z)"

definition loadMPZFromCharp :: "rec_env \<Rightarrow> byte list \<Rightarrow> (int \<times> nat \<times> byte list) option" where
  "loadMPZFromCharp E data = (case data of
     a # b # c # d # data \<Rightarrow>
       let size = sint (push_bit 24 (ucast a) OR push_bit 16 (ucast b) OR push_bit 8 (ucast c) OR ucast d :: cint);
           neg = size < 0; size = nat \<bar>size\<bar>;
           wsize = (size + 7) div 8 in
       map_option (\<lambda>(bs, data). (if neg then - mpz_import E bs else mpz_import E bs, wsize, data))
         (fetchBuf size data)
   | _ \<Rightarrow> None)"

section \<open>Compiling\<close>

datatype var_entry = VarCell addr | AttVarCell addr word

text \<open>
  The compiler's state: the heap, in which \<open>links\<close> are the cells that hold a variable number (an
  atom-tagged word in global storage) and \<open>marks\<close> the functor cells that hold an offset; the code,
  the stack of variables, the stack of marked functor cells (\<^theory_text>\<open>LD->cycle.lstack\<close>), the size on
  the global stack, the number of variables, the atoms that have been locked.
\<close>

record compile_info =
  rheap :: heap
  links :: "addr \<Rightarrow> nat option"
  marks :: "addr \<Rightarrow> nat option"
  code :: "byte list"
  vars :: "var_entry list"
  lmarks :: "(addr \<times> functor_t) list"
  gsize :: nat
  nvars :: nat
  external :: bool
  lock :: bool
  locked :: "atom_t list"

definition emit :: "byte list \<Rightarrow> compile_info \<Rightarrow> compile_info" where
  "emit bs I = I\<lparr>code := code I @ bs\<rparr>"

definition grow :: "nat \<Rightarrow> compile_info \<Rightarrow> compile_info" where
  "grow n I = I\<lparr>gsize := gsize I + n\<rparr>"

definition size_int :: "nat \<Rightarrow> byte list" where
  "size_int n = addUintBuffer (word_of_nat n)"

definition addFloat :: "compile_info \<Rightarrow> int64 \<Rightarrow> byte list" where
  "addFloat I d = (if external I then PL_TYPE_EXT_FLOAT else PL_TYPE_FLOAT) # word_bytes d"

text \<open>The code of an atom; a blob that is no text cannot go to an external record.\<close>

definition addAtom :: "rec_env \<Rightarrow> atom_t \<Rightarrow> compile_info \<Rightarrow> compile_info option" where
  "addAtom E a I =
     (if a = ATOM_nil E then Some (emit [PL_TYPE_NIL] I)
      else if a = ATOM_dict E then Some (emit [PL_TYPE_DICT] I)
      else if external I then
        (case atom_text E a of
           None \<Rightarrow> None
         | Some (wide, name) \<Rightarrow>
             Some (emit ((if wide then PL_TYPE_EXT_WATOM else PL_TYPE_EXT_ATOM) #
                         size_int (length name) @ name) I))
      else
        let I = emit (PL_TYPE_ATOM # word_bytes (atom_word E a)) I in
        Some (if lock I then I\<lparr>locked := locked I @ [a]\<rparr> else I))"

definition addFunctor :: "rec_env \<Rightarrow> functor_t \<Rightarrow> compile_info \<Rightarrow> compile_info option" where
  "addFunctor E f I =
     (if f = FUNCTOR_dot2 E then Some (emit [PL_TYPE_CONS] I)
      else if external I then addAtom E (fname f) (emit (PL_TYPE_EXT_COMPOUND # size_int (arity f)) I)
      else Some (emit (PL_TYPE_COMPOUND # word_bytes (functor_word E f)) I))"

text \<open>How a cell's processing goes on: with the next one, with another cell, or with arguments.\<close>

datatype cont = Done | Again addr | Args addr nat

definition link_var :: "addr \<Rightarrow> compile_info \<Rightarrow> compile_info" where
  "link_var p I = I\<lparr>rheap := (rheap I)\<lparr>cell := (cell (rheap I))(p := WAtom (nvars I))\<rparr>,
     links := (links I)(p \<mapsto> nvars I), nvars := nvars I + 1\<rparr>"

definition mark_term :: "addr \<Rightarrow> functor_t \<Rightarrow> compile_info \<Rightarrow> compile_info" where
  "mark_term f fd I = I\<lparr>rheap := (rheap I)\<lparr>func := (func (rheap I))(f := None)\<rparr>,
     marks := (marks I)(f \<mapsto> gsize I), lmarks := (f, fd) # lmarks I\<rparr>"

definition compile_indirect :: "rec_env \<Rightarrow> ind_tag \<Rightarrow> addr \<Rightarrow> compile_info \<Rightarrow> compile_info option" where
  "compile_indirect E t a I =
     (case (t, ind (rheap I) a) of
        (I_INTEGER, IInt64 i) \<Rightarrow> Some (emit (PL_TYPE_INTEGER # addInt64 i) (grow 3 I))
      | (I_INTEGER, IMpz z) \<Rightarrow>
          Some (emit (PL_REC_MPZ # addMPZToBuffer E z) (grow ((length (mpz_export E z) + 7) div 8 + 3) I))
      | (I_STRING, IChars s) \<Rightarrow>
          Some (emit (PL_TYPE_STRING # size_int (length (string_bytes s)) @ string_bytes s)
            (grow (string_words (length (string_bytes s)) + 2) I))
      | (I_FLOAT, IDouble d) \<Rightarrow> Some (emit (addFloat I d) (grow 3 I))
      | _ \<Rightarrow> None)"

text \<open>
  The switch of \<^theory_text>\<open>compile_term_to_heap\<close> on the cell \<open>p\<close>, which is no reference. \<^term>\<open>Inl\<close> is
  the error of an atom that cannot be stored, \<^const>\<open>None\<close> malformed data.
\<close>

definition compile_cell :: "rec_env \<Rightarrow> compile_info \<Rightarrow> addr \<Rightarrow>
    (compile_info + compile_info \<times> cont) option" where
  "compile_cell E I p =
     (case links I p of
        Some n \<Rightarrow> Some (Inr (emit (PL_TYPE_VARIABLE # size_int n) I, Done))
      | None \<Rightarrow>
     (case cell (rheap I) p of
        WVar \<Rightarrow>
          let n = nvars I; I = link_var p I in
          Some (Inr (emit (PL_TYPE_VARIABLE # size_int n) (I\<lparr>vars := VarCell p # vars I\<rparr>), Done))
      | WAttVar a \<Rightarrow>
          let n = nvars I;
              I = (if code I = [] then grow 1 (emit [PL_REC_ALLOCVAR] I) else I);
              I = link_var p I in
          Some (Inr (grow 3 (emit (PL_TYPE_ATTVAR # size_int n)
            (I\<lparr>vars := AttVarCell p (WAttVar a) # vars I\<rparr>)), Again a))
      | WAtom a \<Rightarrow>
          Some (case addAtom E a I of None \<Rightarrow> Inl I | Some I \<Rightarrow> Inr (I, Done))
      | WInt i \<Rightarrow> Some (Inr (emit (PL_TYPE_TAGGED_INTEGER # addInt64 i) I, Done))
      | WIndirect t a \<Rightarrow> map_option (\<lambda>I. Inr (I, Done)) (compile_indirect E t a I)
      | WTerm f \<Rightarrow>
          (case marks I f of
             Some off \<Rightarrow> Some (Inr (emit (PL_REC_CYCLE # size_int off) I, Done))
           | None \<Rightarrow>
               (case func (rheap I) f of
                  Some (Functor fd) \<Rightarrow>
                    let I = grow (arity fd + 1) (mark_term f fd I) in
                    Some (case addFunctor E fd I of
                      None \<Rightarrow> Inl I
                    | Some I \<Rightarrow> Inr (I, Args (argTermP f 0) (arity fd)))
                | _ \<Rightarrow> None))
      | WRef _ \<Rightarrow> None))"

type_synonym agenda1 = "(addr \<times> nat) list"

partial_function (option) compile_loop ::
    "rec_env \<Rightarrow> compile_info \<Rightarrow> agenda1 \<Rightarrow> addr \<Rightarrow> (bool \<times> compile_info) option" where
  "compile_loop E I A p =
     (case deRef (rheap I) p of
        None \<Rightarrow> None
      | Some p \<Rightarrow>
          (case compile_cell E I p of
             None \<Rightarrow> None
           | Some (Inl I) \<Rightarrow> Some (False, I)
           | Some (Inr (I, Again a)) \<Rightarrow> compile_loop E I A a
           | Some (Inr (I, c)) \<Rightarrow>
               (case next_list Suc (case c of Args q n \<Rightarrow> push_on_list A n q | _ \<Rightarrow> A) of
                  None \<Rightarrow> Some (True, I)
                | Some (q, A) \<Rightarrow> compile_loop E I A q)))"

declare compile_loop.simps [code]

text \<open>\<^theory_text>\<open>restoreVars\<close> and \<^theory_text>\<open>unvisit\<close>.\<close>

fun restoreVars :: "var_entry list \<Rightarrow> heap \<Rightarrow> heap" where
  "restoreVars [] h = h"
| "restoreVars (VarCell p # vs) h = restoreVars vs (h\<lparr>cell := (cell h)(p := WVar)\<rparr>)"
| "restoreVars (AttVarCell p w # vs) h = restoreVars vs (h\<lparr>cell := (cell h)(p := w)\<rparr>)"

fun unvisit :: "(addr \<times> functor_t) list \<Rightarrow> heap \<Rightarrow> heap" where
  "unvisit [] h = h"
| "unvisit ((f, fd) # ms) h = unvisit ms (h\<lparr>func := (func h)(f := Some (Functor fd))\<rparr>)"

definition start_info :: "bool \<Rightarrow> bool \<Rightarrow> heap \<Rightarrow> compile_info" where
  "start_info ext lck h = \<lparr>rheap = h, links = (\<lambda>_. None), marks = (\<lambda>_. None), code = [], vars = [],
     lmarks = [], gsize = 0, nvars = 0, external = ext, lock = lck, locked = []\<rparr>"

text \<open>
  \<^theory_text>\<open>compile_term_to_heap\<close> from the top and the restoration of the heap; the agenda is
  initialised with the cell of the term.
\<close>

definition compile_term :: "rec_env \<Rightarrow> bool \<Rightarrow> bool \<Rightarrow> heap \<Rightarrow> addr \<Rightarrow> (bool \<times> compile_info \<times> heap) option" where
  "compile_term E ext lck h t =
     map_option (\<lambda>(rc, I). (rc, I, unvisit (lmarks I) (restoreVars (vars I) (rheap I))))
       (compile_loop E (start_info ext lck h) [(Suc t, 0)] t)"

record rrecord =
  rgsize :: cint
  rnvars :: nat
  rcode :: "byte list"

definition compileTermToHeap :: "rec_env \<Rightarrow> bool \<Rightarrow> bool \<Rightarrow> heap \<Rightarrow> addr \<Rightarrow> (rrecord \<times> atom_t list \<times> heap) option" where
  "compileTermToHeap E ext nolock h t =
     map_option (\<lambda>(_, I, h'). (\<lparr>rgsize = word_of_nat (gsize I), rnvars = nvars I, rcode = code I\<rparr>, locked I, h'))
       (compile_term E ext (\<not> (ext \<or> nolock)) h t)"

section \<open>Copying to the global stack\<close>

text \<open>
  The state of a copy: the heap, the base of the copy and the next free cell on the global stack, the
  remaining data, the map of opcodes of an old version, the array of variables (its size is that of
  the record), the list of attributed variables, the number of dicts.
\<close>

record copy_info =
  gheap :: heap
  gbase :: addr
  gstore :: addr
  cdata :: "byte list"
  version_map :: "byte list option"
  cvars :: "nat \<Rightarrow> addr option"
  cnvars :: nat
  attvars :: "addr option"
  dicts :: nat

definition v2_map :: "byte list" where
  "v2_map = [0, 1, 2, 3, 4, 5, 6, 7, 8, 9, 11, 12, PL_TYPE_EXT_COMPOUND_V2, 14, 15, 16, 17, 18]"

definition fetchOpCode :: "copy_info \<Rightarrow> (byte \<times> byte list) option" where
  "fetchOpCode C = (case cdata C of
     [] \<Rightarrow> None
   | op # data \<Rightarrow>
       (case version_map C of
          None \<Rightarrow> Some (op, data)
        | Some m \<Rightarrow> if unat op < length m then Some (m ! unat op, data) else None))"

definition fetch_nat :: "byte list \<Rightarrow> (nat \<times> byte list) option" where
  "fetch_nat data = map_option (\<lambda>(w, data). (unat w, data)) (fetchSizeInt data)"

text \<open>Sizes that the code keeps in an \<^theory_text>\<open>unsigned\<close> or an \<^theory_text>\<open>int\<close>.\<close>

definition fetch_uint :: "byte list \<Rightarrow> (nat \<times> byte list) option" where
  "fetch_uint data = map_option (\<lambda>(w, data). (unat (ucast w :: cint), data)) (fetchSizeInt data)"

definition fetch_int :: "byte list \<Rightarrow> (nat \<times> byte list) option" where
  "fetch_int data = (case fetch_uint data of
     None \<Rightarrow> None | Some (n, data) \<Rightarrow> if n < 2 ^ 31 then Some (n, data) else None)"

definition fetchAtom :: "rec_env \<Rightarrow> byte list \<Rightarrow> (atom_t \<times> byte list) option" where
  "fetchAtom E data = (case fetch_uint data of
     None \<Rightarrow> None
   | Some (len, data) \<Rightarrow> map_option (\<lambda>(bs, data). (lookupAtom E bs, data)) (fetchBuf len data))"

definition fetchAtomW :: "rec_env \<Rightarrow> byte list \<Rightarrow> (atom_t \<times> byte list) option" where
  "fetchAtomW E data = (case fetch_uint data of
     None \<Rightarrow> None
   | Some (len, data) \<Rightarrow> map_option (\<lambda>(bs, data). (lookupUCSAtom E bs, data)) (fetchBuf len data))"

definition put_cell :: "addr \<Rightarrow> word \<Rightarrow> copy_info \<Rightarrow> copy_info" where
  "put_cell p w C = C\<lparr>gheap := (gheap C)\<lparr>cell := (cell (gheap C))(p := w)\<rparr>\<rparr>"

text \<open>Indirect data of \<open>n\<close> words with its two header words.\<close>

definition put_indirect :: "addr \<Rightarrow> ind_tag \<Rightarrow> ind \<Rightarrow> nat \<Rightarrow> copy_info \<Rightarrow> copy_info" where
  "put_indirect p t d n C = (put_cell p (WIndirect t (gstore C)) C)
     \<lparr>gheap := (gheap C)\<lparr>cell := (cell (gheap C))(p := WIndirect t (gstore C)),
                         ind := (ind (gheap C))(gstore C := d)\<rparr>,
      gstore := gstore C + n + 2\<rparr>"

definition put_term :: "addr \<Rightarrow> functor_t \<Rightarrow> nat \<Rightarrow> copy_info \<Rightarrow> copy_info \<times> cont" where
  "put_term p fd n C =
     (C\<lparr>gheap := (gheap C)\<lparr>cell := (cell (gheap C))(p := WTerm (gstore C)),
                           func := (func (gheap C))(gstore C := Some (Functor fd))\<rparr>,
        gstore := gstore C + 1 + n\<rparr>,
      Args (gstore C + 1) n)"

definition copy_var :: "addr \<Rightarrow> nat \<Rightarrow> copy_info \<Rightarrow> copy_info option" where
  "copy_var p n C =
     (if n < cnvars C then
        (case cvars C n of
           None \<Rightarrow> Some ((put_cell p WVar C)\<lparr>cvars := (cvars C)(n \<mapsto> p)\<rparr>)
         | Some q \<Rightarrow>
             if q < p then Some (put_cell p (WRef q) C)
             else Some ((put_cell q (WRef p) (put_cell p (cell (gheap C) q) C))
               \<lparr>cvars := (cvars C)(n \<mapsto> p)\<rparr>))
      else None)"

definition register_attvar :: "addr \<Rightarrow> copy_info \<Rightarrow> copy_info" where
  "register_attvar gp C =
     (put_cell gp (case attvars C of Some a \<Rightarrow> WRef a | None \<Rightarrow> WVar) C)\<lparr>attvars := Some gp\<rparr>"

definition copy_attvar :: "addr \<Rightarrow> nat \<Rightarrow> copy_info \<Rightarrow> (copy_info \<times> cont) option" where
  "copy_attvar p n C =
     (if n < cnvars C then
        let g = gstore C;
            C = put_cell p (WRef (g + 1)) (put_cell (g + 1) (WAttVar (g + 2)) (register_attvar g C)) in
        Some (C\<lparr>cvars := (cvars C)(n \<mapsto> p), gstore := g + 3\<rparr>, Again (g + 2))
      else None)"

definition copy_functor :: "rec_env \<Rightarrow> byte list \<Rightarrow> copy_info \<Rightarrow> (functor_t \<times> copy_info) option" where
  "copy_functor E data C =
     (case fetch_int data of
        None \<Rightarrow> None
      | Some (n, data) \<Rightarrow>
          (case fetchOpCode (C\<lparr>cdata := data\<rparr>) of
             None \<Rightarrow> None
           | Some (op, data) \<Rightarrow>
               if op = PL_TYPE_EXT_ATOM then
                 map_option (\<lambda>(a, data). (\<lparr>fname = a, arity = n\<rparr>, C\<lparr>cdata := data\<rparr>)) (fetchAtom E data)
               else if op = PL_TYPE_EXT_WATOM then
                 map_option (\<lambda>(a, data). (\<lparr>fname = a, arity = n\<rparr>, C\<lparr>cdata := data\<rparr>)) (fetchAtomW E data)
               else if op = PL_TYPE_NIL then Some (\<lparr>fname = ATOM_nil E, arity = n\<rparr>, C\<lparr>cdata := data\<rparr>)
               else if op = PL_TYPE_DICT then
                 Some (\<lparr>fname = ATOM_dict E, arity = n\<rparr>, C\<lparr>cdata := data, dicts := dicts C + 1\<rparr>)
               else None))"

text \<open>A datum that has been fetched, and what to do with it.\<close>

definition fetched :: "copy_info \<Rightarrow> ('a \<times> byte list) option \<Rightarrow> ('a \<Rightarrow> copy_info \<Rightarrow> copy_info) \<Rightarrow>
    (copy_info \<times> cont) option" where
  "fetched C r f = map_option (\<lambda>(x, data). (f x (C\<lparr>cdata := data\<rparr>), Done)) r"

text \<open>The switch of \<^theory_text>\<open>copy_record\<close> for the cell \<open>p\<close>.\<close>

definition copy_cell :: "rec_env \<Rightarrow> copy_info \<Rightarrow> addr \<Rightarrow> (copy_info \<times> cont) option" where
  "copy_cell E C p =
     (case fetchOpCode C of
        None \<Rightarrow> None
      | Some (op, data) \<Rightarrow>
          if op = PL_TYPE_VARIABLE then
            (case fetch_nat data of
               None \<Rightarrow> None
             | Some (n, data) \<Rightarrow> map_option (\<lambda>C. (C, Done)) (copy_var p n (C\<lparr>cdata := data\<rparr>)))
          else if op = PL_REC_ALLOCVAR then
            Some ((put_cell p (WRef (gstore C)) (put_cell (gstore C) WVar (C\<lparr>cdata := data\<rparr>)))
                  \<lparr>gstore := gstore C + 1\<rparr>, Again (gstore C))
          else if op = PL_TYPE_ATTVAR then
            (case fetch_nat data of
               None \<Rightarrow> None | Some (n, data) \<Rightarrow> copy_attvar p n (C\<lparr>cdata := data\<rparr>))
          else if op = PL_TYPE_NIL then Some (put_cell p (WAtom (ATOM_nil E)) (C\<lparr>cdata := data\<rparr>), Done)
          else if op = PL_TYPE_DICT then Some (put_cell p (WAtom (ATOM_dict E)) (C\<lparr>cdata := data\<rparr>), Done)
          else if op = PL_TYPE_ATOM then
            fetched C (fetchWord data) (\<lambda>w. put_cell p (WAtom (word_atom E w)))
          else if op = PL_TYPE_EXT_ATOM then fetched C (fetchAtom E data) (\<lambda>a. put_cell p (WAtom a))
          else if op = PL_TYPE_EXT_WATOM then fetched C (fetchAtomW E data) (\<lambda>a. put_cell p (WAtom a))
          else if op = PL_TYPE_TAGGED_INTEGER then fetched C (fetchInt64 data) (\<lambda>i. put_cell p (WInt i))
          else if op = PL_TYPE_INTEGER then
            fetched C (fetchInt64 data) (\<lambda>i. put_indirect p I_INTEGER (IInt64 i) 1)
          else if op = PL_REC_MPZ then
            (case loadMPZFromCharp E data of
               None \<Rightarrow> None
             | Some (z, n, data) \<Rightarrow>
                 Some (put_indirect p I_INTEGER (IMpz z) (n + 1) (C\<lparr>cdata := data\<rparr>), Done))
          else if op = PL_TYPE_FLOAT \<or> op = PL_TYPE_EXT_FLOAT then
            fetched C (fetchWord data) (\<lambda>d. put_indirect p I_FLOAT (IDouble d) 1)
          else if op = PL_TYPE_STRING then
            (case fetchSizeInt data of
               None \<Rightarrow> None
             | Some (len, data) \<Rightarrow>
                 fetched C (fetchBuf (unat (ucast len :: cint)) data)
                   (\<lambda>bs. put_indirect p I_STRING (IChars (bytes_string bs)) (string_words (unat len))))
          else if op = PL_REC_CYCLE then fetched C (fetch_uint data) (\<lambda>off. put_cell p (WTerm (gbase C + off)))
          else if op = PL_TYPE_COMPOUND then
            (case fetchWord data of
               None \<Rightarrow> None
             | Some (w, data) \<Rightarrow> Some (put_term p (word_functor E w) (arity (word_functor E w)) (C\<lparr>cdata := data\<rparr>)))
          else if op = PL_TYPE_EXT_COMPOUND then
            map_option (\<lambda>(fd, C). put_term p fd (arity fd) C) (copy_functor E data C)
          else if op = PL_TYPE_EXT_COMPOUND_V2 then
            (case fetch_int data of
               None \<Rightarrow> None
             | Some (n, data) \<Rightarrow>
                 map_option (\<lambda>(a, data). put_term p \<lparr>fname = a, arity = n\<rparr> n (C\<lparr>cdata := data\<rparr>)) (fetchAtom E data))
          else if op = PL_TYPE_CONS then Some (put_term p (FUNCTOR_dot2 E) 2 (C\<lparr>cdata := data\<rparr>))
          else None)"

partial_function (option) copy_loop :: "rec_env \<Rightarrow> copy_info \<Rightarrow> agenda1 \<Rightarrow> addr \<Rightarrow> copy_info option" where
  "copy_loop E C A p =
     (case copy_cell E C p of
        None \<Rightarrow> None
      | Some (C, Again q) \<Rightarrow> copy_loop E C A q
      | Some (C, c) \<Rightarrow>
          (case next_list Suc (case c of Args q n \<Rightarrow> push_on_list A n q | _ \<Rightarrow> A) of
             None \<Rightarrow> Some C
           | Some (q, A) \<Rightarrow> copy_loop E C A q))"

declare copy_loop.simps [code]

definition copy_record :: "rec_env \<Rightarrow> copy_info \<Rightarrow> addr \<Rightarrow> copy_info option" where
  "copy_record E C p = copy_loop E C [] p"

text \<open>
  \<^theory_text>\<open>copyRecordToGlobal\<close> to the cell \<open>p\<close>, with \<open>gtop\<close> the top of the global stack, which has
  room for the record; the final assertion is checked.
\<close>

definition copyRecordToGlobal :: "rec_env \<Rightarrow> heap \<Rightarrow> addr option \<Rightarrow> addr \<Rightarrow> rrecord \<Rightarrow> addr \<Rightarrow> (heap \<times> addr) option" where
  "copyRecordToGlobal E h avs gtop r p =
     (case copy_record E \<lparr>gheap = h, gbase = gtop, gstore = gtop, cdata = rcode r, version_map = None,
         cvars = (\<lambda>_. None), cnvars = rnvars r, attvars = avs, dicts = 0\<rparr> p of
        None \<Rightarrow> None
      | Some C \<Rightarrow> if gstore C = gtop + unat (rgsize r) then Some (gheap C, gstore C) else None)"

section \<open>Atoms of a record\<close>

text \<open>
  \<^theory_text>\<open>scanAtomsRecord\<close>: the atoms it calls the function on, and the data left. The second argument
  is \<^theory_text>\<open>work\<close> before the test \<^theory_text>\<open>work--\<close>. The code skips the name of an external compound
  without its opcode.
\<close>

definition skipAtom :: "byte list \<Rightarrow> byte list option" where
  "skipAtom data = (case fetch_uint data of
     None \<Rightarrow> None | Some (len, data) \<Rightarrow> map_option snd (fetchBuf len data))"

definition skipLong :: "byte list \<Rightarrow> byte list option" where
  "skipLong data = (case data of
     [] \<Rightarrow> None | b # data \<Rightarrow> if 0 \<le>s b then map_option snd (fetchBuf (unat b) data) else None)"

definition skipMPZOnCharp :: "byte list \<Rightarrow> byte list option" where
  "skipMPZOnCharp data = (case data of
     a # b # c # d # data \<Rightarrow>
       let size = sint (push_bit 24 (ucast a) OR push_bit 16 (ucast b) OR push_bit 8 (ucast c) OR ucast d :: cint) in
       map_option snd (fetchBuf (nat \<bar>size\<bar>) data)
   | _ \<Rightarrow> None)"

text \<open>One item: the atom it holds, the number of items in it, the data after it.\<close>

definition scan_item :: "rec_env \<Rightarrow> byte \<Rightarrow> byte list \<Rightarrow> (atom_t list \<times> nat \<times> byte list) option" where
  "scan_item E op data =
     (let skip = map_option (\<lambda>data. ([], 0, data)) in
      if op = PL_TYPE_VARIABLE \<or> op = PL_REC_CYCLE then skip (skipSizeInt data)
      else if op = PL_REC_ALLOCVAR then Some ([], 1, data)
      else if op = PL_TYPE_ATTVAR then map_option (\<lambda>data. ([], 1, data)) (skipSizeInt data)
      else if op = PL_TYPE_NIL then Some ([ATOM_nil E], 0, data)
      else if op = PL_TYPE_DICT then Some ([ATOM_dict E], 0, data)
      else if op = PL_TYPE_ATOM then map_option (\<lambda>(w, data). ([word_atom E w], 0, data)) (fetchWord data)
      else if op = PL_TYPE_EXT_ATOM \<or> op = PL_TYPE_EXT_WATOM then skip (skipAtom data)
      else if op = PL_TYPE_TAGGED_INTEGER \<or> op = PL_TYPE_INTEGER then skip (skipLong data)
      else if op = PL_REC_MPZ then skip (skipMPZOnCharp data)
      else if op = PL_TYPE_FLOAT \<or> op = PL_TYPE_EXT_FLOAT then skip (map_option snd (fetchBuf 8 data))
      else if op = PL_TYPE_STRING then skip (skipAtom data)
      else if op = PL_TYPE_COMPOUND then
        map_option (\<lambda>(w, data). ([], arity (word_functor E w), data)) (fetchWord data)
      else if op = PL_TYPE_EXT_COMPOUND then
        (case fetch_nat data of
           None \<Rightarrow> None | Some (n, data) \<Rightarrow> map_option (\<lambda>data. ([], n, data)) (skipAtom data))
      else if op = PL_TYPE_CONS then Some ([], 2, data)
      else None)"

fun scan_atoms :: "nat \<Rightarrow> rec_env \<Rightarrow> nat \<Rightarrow> byte list \<Rightarrow> (atom_t list \<times> byte list) option" where
  "scan_atoms 0 E work data = None"
| "scan_atoms (Suc fuel) E work data = (case data of
     [] \<Rightarrow> None
   | op # data \<Rightarrow>
       (case scan_item E op data of
          None \<Rightarrow> None
        | Some (as, n, data) \<Rightarrow>
            if work + n = 0 then Some (as, data)
            else map_option (\<lambda>(bs, data). (as @ bs, data)) (scan_atoms fuel E (work + n - 1) data)))"

text \<open>Every item has an opcode byte: the length of the data is enough fuel.\<close>

definition scanAtomsRecord :: "rec_env \<Rightarrow> byte list \<Rightarrow> (atom_t list \<times> byte list) option" where
  "scanAtomsRecord E data = scan_atoms (length data) E 0 data"

section \<open>External records\<close>

definition REC_HDR :: byte where "REC_HDR = 0x02 OR push_bit 5 0x03"
definition REC_INT :: byte where "REC_INT = 0x04"
definition REC_ATOM :: byte where "REC_ATOM = 0x08"
definition REC_GROUND :: byte where "REC_GROUND = 0x10"

text \<open>\<^term>\<open>ExtFalse\<close> is a failure without an exception.\<close>

datatype ext_result = ExtRecord "byte list" heap | ExtFalse | ExtPermissionError heap

definition compile_external_record :: "rec_env \<Rightarrow> heap \<Rightarrow> addr \<Rightarrow> ext_result option" where
  "compile_external_record E h t =
     (case deRef h t of
        None \<Rightarrow> None
      | Some p \<Rightarrow>
          let int_record = (\<lambda>v. Some (ExtRecord ((REC_HDR OR REC_INT OR REC_GROUND) # addInt64 v) h));
              general =
                (case compile_term E True False h p of
                   None \<Rightarrow> None
                 | Some (False, I, h') \<Rightarrow> Some (ExtPermissionError h')
                 | Some (True, I, h') \<Rightarrow>
                     Some (ExtRecord ((if nvars I = 0 then REC_HDR OR REC_GROUND else REC_HDR)
                       # addUintBuffer (scast (word_of_nat (length (code I)) :: cint))
                       @ addUintBuffer (word_of_nat (gsize I))
                       @ (if 0 < nvars I then addUintBuffer (word_of_nat (nvars I)) else [])
                       @ code I) h')) in
          (case cell h p of
             WInt v \<Rightarrow> int_record v
           | WIndirect I_INTEGER a \<Rightarrow>
               (case ind h a of IInt64 v \<Rightarrow> int_record v | _ \<Rightarrow> general)
           | WAtom a \<Rightarrow>
               (case addAtom E a ((start_info True False h)\<lparr>code := [REC_HDR OR REC_ATOM OR REC_GROUND]\<rparr>) of
                  None \<Rightarrow> Some ExtFalse
                | Some I \<Rightarrow> Some (ExtRecord (code I) h))
           | _ \<Rightarrow> general))"

text \<open>Integers of up to 57 bits are tagged, the others indirect.\<close>

definition PL_put_int64 :: "heap \<Rightarrow> addr \<Rightarrow> addr \<Rightarrow> int64 \<Rightarrow> heap \<times> addr" where
  "PL_put_int64 h gtop p v =
     (if - (2 ^ 56) \<le> sint v \<and> sint v < 2 ^ 56 then (h\<lparr>cell := (cell h)(p := WInt v)\<rparr>, gtop)
      else (h\<lparr>cell := (cell h)(p := WIndirect I_INTEGER gtop), ind := (ind h)(gtop := IInt64 v)\<rparr>, gtop + 3))"

text \<open>
  The number in a result counts dicts; when it is not zero, the code sorts the keys of the dicts
  again (\<^theory_text>\<open>resortDictsInTerm\<close>), which is left to the reader of the result.
\<close>

datatype load_result = Loaded heap addr nat | Incompatible

definition PL_recorded_external :: "rec_env \<Rightarrow> heap \<Rightarrow> addr option \<Rightarrow> addr \<Rightarrow> byte list \<Rightarrow> addr \<Rightarrow> load_result option" where
  "PL_recorded_external E h avs gtop r p =
     (case r of
        [] \<Rightarrow> None
      | m # data \<Rightarrow>
          if m AND 0xe3 \<noteq> REC_HDR \<and> (m AND 0x03 \<noteq> 0x02 \<or> drop_bit 5 (m AND 0xe0) \<noteq> 2) then Some Incompatible
          else
            let vmap = (if m AND 0xe3 \<noteq> REC_HDR then Some v2_map else None);
                C = \<lparr>gheap = h, gbase = gtop, gstore = gtop, cdata = data, version_map = vmap,
                     cvars = (\<lambda>_. None), cnvars = 0, attvars = avs, dicts = 0\<rparr>;
                put_atom = (\<lambda>a. Some (Loaded (h\<lparr>cell := (cell h)(p := WAtom a)\<rparr>) gtop 0)) in
            if m AND REC_INT \<noteq> 0 then
              map_option (\<lambda>(v, _). case PL_put_int64 h gtop p v of (h, g) \<Rightarrow> Loaded h g 0) (fetchInt64 data)
            else if m AND REC_ATOM \<noteq> 0 then
              (case fetchOpCode C of
                 None \<Rightarrow> None
               | Some (op, data) \<Rightarrow>
                   if op = PL_TYPE_NIL then put_atom (ATOM_nil E)
                   else if op = PL_TYPE_DICT then put_atom (ATOM_dict E)
                   else if op = PL_TYPE_EXT_ATOM then Option.bind (fetchAtom E data) (put_atom \<circ> fst)
                   else if op = PL_TYPE_EXT_WATOM then Option.bind (fetchAtomW E data) (put_atom \<circ> fst)
                   else None)
            else
              (case skipSizeInt data of
                 None \<Rightarrow> None
               | Some data \<Rightarrow>
                   (case fetch_uint data of
                      None \<Rightarrow> None
                    | Some (gs, data) \<Rightarrow>
                        (case (if m AND REC_GROUND = 0 then fetch_uint data else Some (0, data)) of
                           None \<Rightarrow> None
                         | Some (nv, data) \<Rightarrow>
                             (case copy_record E (C\<lparr>cdata := data, cnvars := nv\<rparr>) p of
                                None \<Rightarrow> None
                              | Some C \<Rightarrow>
                                  if gstore C = gtop + gs then Some (Loaded (gheap C) (gstore C) (dicts C)) else None)))))"

text \<open>
  The test on a string for \<^theory_text>\<open>fast_term_serialized/2\<close>; \<open>len\<close> is its length. The case of an atom
  with an unknown opcode falls through to the general one.
\<close>

definition is_external :: "byte list \<Rightarrow> bool option" where
  "is_external r =
     (let len = length r;
          general = (\<lambda>m data.
            (case fetch_nat data of
               None \<Rightarrow> None
             | Some (codes, data) \<Rightarrow>
                 (case (case skipSizeInt data of
                          None \<Rightarrow> None
                        | Some data \<Rightarrow> if m AND REC_GROUND = 0 then skipSizeInt data else Some data) of
                    None \<Rightarrow> None
                  | Some data \<Rightarrow> Some (len = (len - length data) + codes)))) in
      case r of
        m # b # data \<Rightarrow>
          if m = (REC_HDR OR REC_INT OR REC_GROUND) then Some (int len = uint (scast b + 2 :: cint))
          else if m = (REC_HDR OR REC_ATOM OR REC_GROUND) then
            (if b = PL_TYPE_NIL \<or> b = PL_TYPE_DICT then Some (len = 2)
             else if b = PL_TYPE_EXT_WATOM \<or> b = PL_TYPE_EXT_ATOM then
               map_option (\<lambda>(bytes, data). len = (len - length data) + bytes) (fetch_nat data)
             else general m data)
          else if m = (REC_HDR OR REC_GROUND) \<or> m = REC_HDR then general m (b # data)
          else None
      | _ \<Rightarrow> Some False)"

end
