(* ===== verification/PL_RecordSim.thy ===== *)
theory PL_RecordSim
  imports PL_Records
begin

text \<open>
  Copying follows compiling: the data of records is read back as it was written, compiling keeps the
  heap up to the variable numbers and offsets that it undoes at the end (\<open>src_inv\<close>), and every step of
  the compiler is answered by one step of the copy, which keeps \<open>dst_inv\<close>. The two loops meet in
  \<open>copy_loop_sim\<close>.
\<close>

section \<open>Round trips of the data\<close>

lemma bytes_word_map:
  "bytes_word (map (\<lambda>i. ucast (drop_bit (8 * i) w)) [k..<k + n]) = take_bit (8 * n) (drop_bit (8 * k) w)"
proof (induction n arbitrary: k)
  case (Suc n)
  have "[k..<k + Suc n] = k # [Suc k..<Suc k + n]" by (simp add: upt_conv_Cons)
  moreover have "push_bit 8 (take_bit (8 * n) (drop_bit (8 * Suc k) w)) OR ucast (ucast (drop_bit (8 * k) w) :: byte) =
      take_bit (8 * Suc n) (drop_bit (8 * k) w)"
    by (rule bit_word_eqI) (auto simp: bit_simps)
  ultimately show ?case using Suc.IH [of "Suc k"] by simp
qed simp

lemma fetchWord_bytes [simp]: "fetchWord (word_bytes w @ r) = Some (w, r)"
proof -
  have "take_bit 64 w = w" by (rule bit_word_eqI) (simp add: bit_simps)
  then show ?thesis using bytes_word_map [of w 0 8]
    by (simp add: fetchWord_def fetchBuf_def word_bytes_def)
qed

lemma fetch_size [simp]:
  "n < 2 ^ 64 \<Longrightarrow> fetch_nat (size_int n @ r) = Some (n, r)"
  "n < 2 ^ 32 \<Longrightarrow> fetch_uint (size_int n @ r) = Some (n, r)"
  "n < 2 ^ 31 \<Longrightarrow> fetch_int (size_int n @ r) = Some (n, r)"
  "n < 2 ^ 64 \<Longrightarrow> skipSizeInt (size_int n @ r) = Some r"
proof -
  have u: "unat (word_of_nat n :: size_t) = n" if "n < 2 ^ 64" for n
    using that by (simp add: unat_of_nat take_bit_nat_eq_self)
  have c: "unat (ucast (word_of_nat n :: size_t) :: cint) = n" if "n < 2 ^ 32" for n
    using that by (simp add: unsigned_ucast_eq unat_of_nat take_bit_nat_eq_self)
  show "n < 2 ^ 64 \<Longrightarrow> fetch_nat (size_int n @ r) = Some (n, r)"
    by (simp add: fetch_nat_def size_int_def fetch_addUint u)
  show uint: "fetch_uint (size_int n @ r) = Some (n, r)" if "n < 2 ^ 32"
    using that by (simp add: fetch_uint_def size_int_def fetch_addUint c)
  show "n < 2 ^ 31 \<Longrightarrow> fetch_int (size_int n @ r) = Some (n, r)"
    using uint by (simp add: fetch_int_def)
  show "skipSizeInt (size_int n @ r) = Some r"
    by (simp add: size_int_def skip_addUint)
qed

lemma fetch_len:
  "n < 2 ^ 32 \<Longrightarrow> \<exists>w. fetchSizeInt (size_int n @ r) = Some (w, r) \<and> unat w = n \<and> unat (ucast w :: cint) = n"
  using fetch_size(1,2) [of n r] by (auto simp: fetch_nat_def fetch_uint_def)

lemma fetchBuf_append [simp]: "n = length bs \<Longrightarrow> fetchBuf n (bs @ r) = Some (bs, r)"
  by (simp add: fetchBuf_def)

lemma wchars_bytes:
  "\<forall>c\<in>set s. c < 2 ^ 32 \<Longrightarrow> wchars (concat (map wchar_bytes s)) = s"
proof (induction s)
  case (Cons c s)
  have "wchar_bytes c = [word_of_nat c, word_of_nat (c div 2 ^ 8), word_of_nat (c div 2 ^ 16), word_of_nat (c div 2 ^ 24)]"
    by (simp add: wchar_bytes_def upt_rec)
  moreover have "c mod 256 + 2 ^ 8 * (c div 2 ^ 8 mod 256) + 2 ^ 16 * (c div 2 ^ 16 mod 256) + 2 ^ 24 * (c div 2 ^ 24 mod 256) = c"
    if "c < 2 ^ 32" for c :: nat
  proof -
    define c1 where "c1 = c div 256"
    define c2 where "c2 = c1 div 256"
    define c3 where "c3 = c2 div 256"
    have "c div 2 ^ 8 = c1" "c div 2 ^ 16 = c2" "c div 2 ^ 24 = c3"
      by (simp_all add: c1_def c2_def c3_def flip: div_mult2_eq)
    moreover have "c3 < 256" using that by (simp add: c1_def c2_def c3_def flip: div_mult2_eq)
    moreover have "c = c mod 256 + 256 * c1" "c1 = c1 mod 256 + 256 * c2" "c2 = c2 mod 256 + 256 * c3"
      by (simp_all add: c1_def c2_def c3_def)
    ultimately show ?thesis by simp
  qed
  moreover have "c div 2 ^ 24 mod 256 = c div 2 ^ 24" if "c < 2 ^ 32" for c :: nat
    using that by (intro mod_less) (simp add: less_mult_imp_div_less)
  moreover have "c < 2 ^ 32" using Cons.prems by simp
  ultimately show ?case using Cons by (simp add: unat_of_nat take_bit_eq_mod)
qed simp

lemma bytes_string_bytes: "\<forall>c\<in>set s. c < 2 ^ 32 \<Longrightarrow> bytes_string (string_bytes s) = s"
proof (cases "list_all (\<lambda>c. c \<le> 0xff) s")
  case True
  then have "map (\<lambda>c. unat (word_of_nat c :: byte)) s = s"
    by (intro map_idI) (auto simp: list_all_iff unat_of_nat take_bit_nat_eq_self)
  then show ?thesis using True by (simp add: string_bytes_def bytes_string_def comp_def)
qed (simp add: string_bytes_def bytes_string_def wchars_bytes)

lemma load_addMPZ:
  assumes "mpz_import E (mpz_export E z) = \<bar>z\<bar>" "length (mpz_export E z) < 2 ^ 31" "mpz_export E z \<noteq> []"
  shows "loadMPZFromCharp E (addMPZToBuffer E z @ r) = Some (z, (length (mpz_export E z) + 7) div 8, r)"
    and "skipMPZOnCharp (addMPZToBuffer E z @ r) = Some r"
proof -
  define n where "n = (if z < 0 then - int (length (mpz_export E z)) else int (length (mpz_export E z)))"
  have "push_bit 24 (ucast (word_of_int (n div 2 ^ 24) :: byte)) OR push_bit 16 (ucast (word_of_int (n div 2 ^ 16) :: byte))
      OR push_bit 8 (ucast (word_of_int (n div 2 ^ 8) :: byte)) OR ucast (word_of_int n :: byte) = (word_of_int n :: cint)"
    unfolding drop_bit_eq_div [symmetric]
  proof (rule bit_word_eqI)
    fix m assume "m < LENGTH(32)"
    consider "m < 8" | "8 \<le> m" "m < 16" | "16 \<le> m" "m < 24" | "24 \<le> m" by linarith
    then show "bit (push_bit 24 (ucast (word_of_int (drop_bit 24 n) :: byte))
        OR push_bit 16 (ucast (word_of_int (drop_bit 16 n) :: byte))
        OR push_bit 8 (ucast (word_of_int (drop_bit 8 n) :: byte)) OR ucast (word_of_int n :: byte) :: cint) m
      = bit (word_of_int n :: cint) m"
      using \<open>m < LENGTH(32)\<close> by cases (auto simp: bit_simps)
  qed
  moreover have "sint (word_of_int n :: cint) = n"
    using assms(2) by (simp add: n_def sint_sbintrunc' signed_take_bit_int_eq_self)
  moreover have "n < 0 \<longleftrightarrow> z < 0 \<and> mpz_export E z \<noteq> []" "nat \<bar>n\<bar> = length (mpz_export E z)" by (auto simp: n_def)
  ultimately show "loadMPZFromCharp E (addMPZToBuffer E z @ r) = Some (z, (length (mpz_export E z) + 7) div 8, r)"
    "skipMPZOnCharp (addMPZToBuffer E z @ r) = Some r"
    using assms(1,3)
    by (auto simp: loadMPZFromCharp_def skipMPZOnCharp_def addMPZToBuffer_def Let_def simp flip: n_def)
qed


section \<open>The emitted code\<close>

text \<open>
  What a term's data must satisfy for the environment: atoms and functors have words and texts that
  are looked up again, GMP import undoes export, strings and numbers have a size that fits.
\<close>

definition atom_ok :: "rec_env \<Rightarrow> atom_t \<Rightarrow> bool" where
  "atom_ok E a \<longleftrightarrow> word_atom E (atom_word E a) = a \<and>
     (\<forall>w s. atom_text E a = Some (w, s) \<longrightarrow>
        length s < 2 ^ 32 \<and> (if w then lookupUCSAtom E s else lookupAtom E s) = a)"

definition indirect_ok :: "rec_env \<Rightarrow> ind_tag \<Rightarrow> ind \<Rightarrow> bool" where
  "indirect_ok E t d = (case (t, d) of
     (I_INTEGER, IInt64 _) \<Rightarrow> True
   | (I_INTEGER, IMpz z) \<Rightarrow> mpz_import E (mpz_export E z) = \<bar>z\<bar> \<and> mpz_export E z \<noteq> [] \<and>
       length (mpz_export E z) < 2 ^ 31
   | (I_FLOAT, IDouble _) \<Rightarrow> True
   | (I_STRING, IChars s) \<Rightarrow> (\<forall>c\<in>set s. c < 2 ^ 32) \<and> length (string_bytes s) < 2 ^ 32
   | _ \<Rightarrow> False)"

definition rec_data_ok :: "rec_env \<Rightarrow> heap \<Rightarrow> bool" where
  "rec_data_ok E h \<longleftrightarrow> arity (FUNCTOR_dot2 E) = 2 \<and>
     (\<forall>x a. cell h x = WAtom a \<longrightarrow> atom_ok E a) \<and>
     (\<forall>f fd. func h f = Some (Functor fd) \<longrightarrow>
        word_functor E (functor_word E fd) = fd \<and> atom_ok E (fname fd)) \<and>
     (\<forall>x t a. cell h x = WIndirect t a \<longrightarrow> indirect_ok E t (ind h a))"

lemma rec_data_okD:
  assumes "rec_data_ok E h"
  shows "arity (FUNCTOR_dot2 E) = 2" "cell h x = WAtom a \<Longrightarrow> atom_ok E a"
    "func h f = Some (Functor fd) \<Longrightarrow> word_functor E (functor_word E fd) = fd"
    "func h f = Some (Functor fd) \<Longrightarrow> atom_ok E (fname fd)"
    "cell h x = WIndirect t a' \<Longrightarrow> indirect_ok E t (ind h a')"
  using assms unfolding rec_data_ok_def by blast+

definition atom_code :: "rec_env \<Rightarrow> bool \<Rightarrow> atom_t \<Rightarrow> byte list option" where
  "atom_code E ext a =
     (if a = ATOM_nil E then Some [PL_TYPE_NIL]
      else if a = ATOM_dict E then Some [PL_TYPE_DICT]
      else if ext then map_option (\<lambda>(wide, name).
        (if wide then PL_TYPE_EXT_WATOM else PL_TYPE_EXT_ATOM) # size_int (length name) @ name) (atom_text E a)
      else Some (PL_TYPE_ATOM # word_bytes (atom_word E a)))"

definition functor_code :: "rec_env \<Rightarrow> bool \<Rightarrow> functor_t \<Rightarrow> byte list option" where
  "functor_code E ext f =
     (if f = FUNCTOR_dot2 E then Some [PL_TYPE_CONS]
      else if ext then map_option (\<lambda>bs. PL_TYPE_EXT_COMPOUND # size_int (arity f) @ bs) (atom_code E True (fname f))
      else Some (PL_TYPE_COMPOUND # word_bytes (functor_word E f)))"

definition indirect_code :: "rec_env \<Rightarrow> bool \<Rightarrow> ind \<Rightarrow> byte list" where
  "indirect_code E ext d = (case d of
     IInt64 i \<Rightarrow> PL_TYPE_INTEGER # addInt64 i
   | IMpz z \<Rightarrow> PL_REC_MPZ # addMPZToBuffer E z
   | IChars s \<Rightarrow> PL_TYPE_STRING # size_int (length (string_bytes s)) @ string_bytes s
   | IDouble d \<Rightarrow> (if ext then PL_TYPE_EXT_FLOAT else PL_TYPE_FLOAT) # word_bytes d)"

definition indirect_words :: "rec_env \<Rightarrow> ind \<Rightarrow> nat" where
  "indirect_words E d = (case d of
     IMpz z \<Rightarrow> (length (mpz_export E z) + 7) div 8 + 1
   | IChars s \<Rightarrow> string_words (length (string_bytes s))
   | _ \<Rightarrow> 1)"

definition add_locked :: "rec_env \<Rightarrow> atom_t \<Rightarrow> compile_info \<Rightarrow> compile_info" where
  "add_locked E a I =
     (if a \<noteq> ATOM_nil E \<and> a \<noteq> ATOM_dict E \<and> \<not> external I \<and> lock I then I\<lparr>locked := locked I @ [a]\<rparr> else I)"

lemma addAtom_code:
  "addAtom E a I = map_option (\<lambda>bs. add_locked E a (emit bs I)) (atom_code E (external I) a)"
  by (auto simp: addAtom_def atom_code_def emit_def add_locked_def Let_def split: option.splits)

lemma addFunctor_code:
  "addFunctor E f I = map_option (\<lambda>bs. emit bs I) (functor_code E (external I) f)"
  by (auto simp: addFunctor_def addAtom_code functor_code_def emit_def add_locked_def option.map_comp comp_def)

lemma compile_indirect_code:
  "indirect_ok E t (ind (rheap I) a) \<Longrightarrow> compile_indirect E t a I =
     Some (emit (indirect_code E (external I) (ind (rheap I) a))
       (grow (indirect_words E (ind (rheap I) a) + 2) I))"
  by (cases t; cases "ind (rheap I) a")
    (simp_all add: indirect_ok_def compile_indirect_def indirect_code_def indirect_words_def addFloat_def
      emit_def grow_def)

text \<open>Reading it back.\<close>

lemma copy_atom:
  assumes "atom_ok E a" "atom_code E ext a = Some bs" "cdata C = bs @ rest" "version_map C = None"
  shows "copy_cell E C p = Some (put_cell p (WAtom a) (C\<lparr>cdata := rest\<rparr>), Done)"
proof -
  consider "a = ATOM_nil E" | "a \<noteq> ATOM_nil E" "a = ATOM_dict E"
    | "a \<noteq> ATOM_nil E" "a \<noteq> ATOM_dict E" "\<not> ext" | "a \<noteq> ATOM_nil E" "a \<noteq> ATOM_dict E" "ext" by blast
  then show ?thesis
  proof cases
    case 4
    then obtain w s where "atom_text E a = Some (w, s)"
      "bs = (if w then PL_TYPE_EXT_WATOM else PL_TYPE_EXT_ATOM) # size_int (length s) @ s"
      using assms(2) by (auto simp: atom_code_def)
    moreover from this have "length s < 2 ^ 32 \<and> (if w then lookupUCSAtom E s else lookupAtom E s) = a"
      using assms(1) unfolding atom_ok_def by blast
    ultimately show ?thesis using assms(3,4)
      by (cases w) (simp_all add: copy_cell_def fetchOpCode_def fetchAtom_def fetchAtomW_def
        fetched_def opcode_defs)
  qed (use assms in \<open>auto simp: atom_code_def copy_cell_def fetchOpCode_def fetched_def atom_ok_def opcode_defs\<close>)
qed

lemma copy_indirect:
  assumes "indirect_ok E t d" "cdata C = indirect_code E ext d @ rest" "version_map C = None"
  shows "copy_cell E C p = Some (put_indirect p t d (indirect_words E d) (C\<lparr>cdata := rest\<rparr>), Done)"
proof (cases "\<exists>s. d = IChars s")
  case True
  then obtain s where s: "d = IChars s" "t = I_STRING" "\<forall>c\<in>set s. c < 2 ^ 32" "length (string_bytes s) < 2 ^ 32"
    using assms(1) by (cases t) (auto simp: indirect_ok_def)
  obtain w where w: "fetchSizeInt (size_int (length (string_bytes s)) @ string_bytes s @ rest) = Some (w, string_bytes s @ rest)"
    "unat w = length (string_bytes s)" "unat (ucast w :: cint) = length (string_bytes s)"
    using fetch_len [OF s(4)] by blast
  then show ?thesis using assms(2,3) s(1,2) bytes_string_bytes [OF s(3)]
    by (simp add: indirect_code_def indirect_words_def copy_cell_def fetchOpCode_def fetched_def opcode_defs)
next
  case False
  then show ?thesis using assms load_addMPZ [of E _ rest]
    by (cases t; cases d; cases ext)
      (simp_all add: indirect_ok_def indirect_code_def indirect_words_def copy_cell_def fetchOpCode_def
        fetched_def opcode_defs fetch_addInt64)
qed

lemma copy_functor_code:
  assumes "word_functor E (functor_word E fd) = fd" "atom_ok E (fname fd)" "arity (FUNCTOR_dot2 E) = 2"
    and "functor_code E ext fd = Some bs" "cdata C = bs @ rest" "version_map C = None" "arity fd < 2 ^ 31"
  shows "\<exists>d. copy_cell E C p = Some (put_term p fd (arity fd) (C\<lparr>cdata := rest, dicts := d\<rparr>))"
proof -
  have same: "C\<lparr>cdata := rest, dicts := dicts C\<rparr> = C\<lparr>cdata := rest\<rparr>" by simp
  consider "fd = FUNCTOR_dot2 E" | "fd \<noteq> FUNCTOR_dot2 E" "\<not> ext" | "fd \<noteq> FUNCTOR_dot2 E" "ext" by blast
  then show ?thesis
  proof cases
    case 1
    moreover have "bs = [PL_TYPE_CONS]" using 1 assms(4) by (simp add: functor_code_def)
    ultimately show ?thesis using assms(3,5,6)
      by (intro exI [of _ "dicts C"]) (simp add: copy_cell_def fetchOpCode_def opcode_defs same)
  next
    case 2
    have "bs = PL_TYPE_COMPOUND # word_bytes (functor_word E fd)" using 2 assms(4) by (simp add: functor_code_def)
    then show ?thesis using assms(1,5,6)
      by (intro exI [of _ "dicts C"]) (simp add: copy_cell_def fetchOpCode_def opcode_defs same)
  next
    case 3
    then obtain as where as: "atom_code E True (fname fd) = Some as"
      "bs = PL_TYPE_EXT_COMPOUND # size_int (arity fd) @ as" using assms(4) by (auto simp: functor_code_def)
    have "\<exists>d. copy_functor E (size_int (arity fd) @ as @ rest) C = Some (fd, C\<lparr>cdata := rest, dicts := d\<rparr>)"
    proof -
      consider "fname fd = ATOM_nil E" | "fname fd \<noteq> ATOM_nil E" "fname fd = ATOM_dict E"
        | "fname fd \<noteq> ATOM_nil E" "fname fd \<noteq> ATOM_dict E" by blast
      then show ?thesis
      proof cases
        case 1
        have "as = [PL_TYPE_NIL]" using 1 as(1) by (simp add: atom_code_def)
        moreover have "\<lparr>fname = ATOM_nil E, arity = arity fd\<rparr> = fd" using 1 by (cases fd) auto
        ultimately show ?thesis using assms(6,7)
          by (intro exI [of _ "dicts C"]) (simp add: copy_functor_def fetchOpCode_def opcode_defs same)
      next
        case 2
        have "as = [PL_TYPE_DICT]" using 2 as(1) by (simp add: atom_code_def)
        moreover have "\<lparr>fname = ATOM_dict E, arity = arity fd\<rparr> = fd" using 2 by (cases fd) auto
        ultimately show ?thesis using assms(6,7)
          by (intro exI [of _ "dicts C + 1"]) (simp add: copy_functor_def fetchOpCode_def opcode_defs same)
      next
        case 3
        then obtain w s where ws: "atom_text E (fname fd) = Some (w, s)"
          "as = (if w then PL_TYPE_EXT_WATOM else PL_TYPE_EXT_ATOM) # size_int (length s) @ s"
          using as(1) by (auto simp: atom_code_def)
        then have "length s < 2 ^ 32 \<and> (if w then lookupUCSAtom E s else lookupAtom E s) = fname fd"
          using assms(2) unfolding atom_ok_def by blast
        moreover have "\<lparr>fname = fname fd, arity = arity fd\<rparr> = fd" by simp
        ultimately show ?thesis using ws assms(6,7)
          by (intro exI [of _ "dicts C"], cases w) (simp_all add: copy_functor_def fetchOpCode_def fetchAtom_def
            fetchAtomW_def opcode_defs same)
      qed
    qed
    then obtain d where "copy_functor E (size_int (arity fd) @ as @ rest) C = Some (fd, C\<lparr>cdata := rest, dicts := d\<rparr>)" ..
    then show ?thesis using as assms(5,6)
      by (intro exI [of _ d]) (simp add: copy_cell_def fetchOpCode_def opcode_defs)
  qed
qed

section \<open>What compiling keeps of the heap\<close>

lemma restoreVars_func: "func (restoreVars vs h) = func h" "ind (restoreVars vs h) = ind h"
  by (induction vs h rule: restoreVars.induct) simp_all

lemma set_func_cell: "h\<lparr>func := F, cell := c\<rparr> = (h\<lparr>cell := c, func := F\<rparr> :: heap)"
  by simp

lemma restoreVars_set_func: "restoreVars vs (h\<lparr>func := F\<rparr>) = (restoreVars vs h)\<lparr>func := F\<rparr>"
proof (induction vs h rule: restoreVars.induct)
  case (2 p vs h)
  then show ?case by (metis restoreVars.simps(2) set_func_cell heap.ext_inject heap.select_convs(1) heap.surjective heap.update_convs(2))
next
  case (3 p w vs h)
  then show ?case by (metis restoreVars.simps(3) set_func_cell heap.ext_inject heap.select_convs(1) heap.surjective heap.update_convs(2))
qed simp

definition src_inv :: "heap \<Rightarrow> compile_info \<Rightarrow> bool" where
  "src_inv h0 I \<longleftrightarrow>
     (\<forall>p. links I p = None \<longrightarrow> cell (rheap I) p = cell h0 p) \<and>
     (\<forall>p n. links I p = Some n \<longrightarrow> canBind (cell h0 p) \<and> cell (rheap I) p = WAtom n \<and> n < nvars I) \<and>
     (\<forall>p q n. links I p = Some n \<longrightarrow> links I q = Some n \<longrightarrow> p = q) \<and>
     (\<forall>f. marks I f = None \<longrightarrow> func (rheap I) f = func h0 f) \<and>
     (\<forall>f n. marks I f = Some n \<longrightarrow> (\<exists>fd. func h0 f = Some (Functor fd))) \<and>
     ind (rheap I) = ind h0 \<and>
     unvisit (lmarks I) (restoreVars (vars I) (rheap I)) = h0"

lemma src_invD:
  assumes "src_inv h0 I"
  shows "links I p = None \<Longrightarrow> cell (rheap I) p = cell h0 p"
    "links I p = Some n \<Longrightarrow> canBind (cell h0 p)"
    "links I p = Some n \<Longrightarrow> cell (rheap I) p = WAtom n"
    "links I p = Some n \<Longrightarrow> n < nvars I"
    "links I p = Some n \<Longrightarrow> links I q = Some n \<Longrightarrow> p = q"
    "marks I f = None \<Longrightarrow> func (rheap I) f = func h0 f"
    "marks I f = Some n \<Longrightarrow> \<exists>fd. func h0 f = Some (Functor fd)"
    "ind (rheap I) = ind h0"
    "unvisit (lmarks I) (restoreVars (vars I) (rheap I)) = h0"
  using assms unfolding src_inv_def by blast+

lemma src_derefs:
  assumes "src_inv h0 I" "derefs h0 p r"
  shows "derefs (rheap I) p r"
  using assms(2)
proof (induction rule: derefs.induct)
  case (here p)
  then show ?case using src_invD(1,3) [OF assms(1), of p]
    by (cases "links I p") (auto intro: derefs.here)
next
  case (step p q r)
  then have "links I p = None" using src_invD(2) [OF assms(1), of p] by (cases "links I p") (auto simp: canBind_def isVar_def)
  then show ?case using src_invD(1) [OF assms(1)] step by (auto intro: derefs.step)
qed

lemma src_emit [simp]: "src_inv h0 (emit bs I) = src_inv h0 I" "src_inv h0 (grow n I) = src_inv h0 I"
  "src_inv h0 (add_locked E a I) = src_inv h0 I"
  by (simp_all add: src_inv_def emit_def grow_def add_locked_def)

lemma emit_sel [simp]:
  "code (emit bs I) = code I @ bs" "links (emit bs I) = links I" "marks (emit bs I) = marks I"
  "gsize (emit bs I) = gsize I" "nvars (emit bs I) = nvars I" "external (emit bs I) = external I"
  "rheap (emit bs I) = rheap I" "lock (emit bs I) = lock I" "locked (emit bs I) = locked I"
  "code (grow n I) = code I" "links (grow n I) = links I" "marks (grow n I) = marks I"
  "gsize (grow n I) = gsize I + n" "nvars (grow n I) = nvars I" "external (grow n I) = external I"
  "rheap (grow n I) = rheap I" "lock (grow n I) = lock I" "locked (grow n I) = locked I"
  by (simp_all add: emit_def grow_def)

lemma add_locked_sel [simp]:
  "code (add_locked E a I) = code I" "links (add_locked E a I) = links I" "marks (add_locked E a I) = marks I"
  "gsize (add_locked E a I) = gsize I" "nvars (add_locked E a I) = nvars I" "external (add_locked E a I) = external I"
  "rheap (add_locked E a I) = rheap I" "lock (add_locked E a I) = lock I"
  by (simp_all add: add_locked_def)

lemma link_var_sel [simp]:
  "code (link_var p I) = code I" "links (link_var p I) = (links I)(p \<mapsto> nvars I)"
  "marks (link_var p I) = marks I" "gsize (link_var p I) = gsize I" "nvars (link_var p I) = nvars I + 1"
  "external (link_var p I) = external I" "lock (link_var p I) = lock I" "locked (link_var p I) = locked I"
  "code (mark_term f fd I) = code I" "links (mark_term f fd I) = links I"
  "marks (mark_term f fd I) = (marks I)(f \<mapsto> gsize I)" "gsize (mark_term f fd I) = gsize I"
  "nvars (mark_term f fd I) = nvars I" "external (mark_term f fd I) = external I"
  "lock (mark_term f fd I) = lock I" "locked (mark_term f fd I) = locked I"
  by (simp_all add: link_var_def mark_term_def)

lemma src_link:
  assumes inv: "src_inv h0 I" and p: "links I p = None" "canBind (cell h0 p)"
    and v: "v = (if isVar (cell h0 p) then VarCell p else AttVarCell p (cell h0 p))"
  shows "src_inv h0 (link_var p I\<lparr>vars := v # vars I\<rparr>)"
proof -
  have c: "cell (rheap I) p = cell h0 p" using src_invD(1) [OF inv p(1)] .
  have "(rheap I)\<lparr>cell := (cell (rheap I))(p := cell h0 p)\<rparr> = rheap I" by (simp flip: c)
  then have "restoreVars (v # vars I) ((rheap I)\<lparr>cell := (cell (rheap I))(p := WAtom (nvars I))\<rparr>) =
      restoreVars (vars I) (rheap I)"
    using v by (auto simp: isVar_def)
  then show ?thesis using inv p src_invD(4) [OF inv]
    unfolding src_inv_def by (auto simp: link_var_def less_Suc_eq)
qed

lemma src_mark:
  assumes inv: "src_inv h0 I" and f: "marks I f = None" "func h0 f = Some (Functor fd)"
  shows "src_inv h0 (mark_term f fd I)"
proof -
  have c: "func (rheap I) f = Some (Functor fd)" using src_invD(6) [OF inv f(1)] f(2) by simp
  let ?h = "restoreVars (vars I) (rheap I)"
  have "?h\<lparr>func := (func (rheap I))(f := Some (Functor fd))\<rparr> = ?h"
    using c restoreVars_func(1) [of "vars I" "rheap I"] by (metis fun_upd_triv heap.surjective heap.update_convs(2))
  then have "unvisit ((f, fd) # lmarks I) (restoreVars (vars I) ((rheap I)\<lparr>func := (func (rheap I))(f := None)\<rparr>)) =
      unvisit (lmarks I) ?h"
    by (simp add: restoreVars_set_func)
  then show ?thesis using inv f unfolding src_inv_def by (auto simp: mark_term_def)
qed

section \<open>What copying builds\<close>

definition var_end :: "copy_info \<Rightarrow> nat \<Rightarrow> addr \<Rightarrow> bool" where
  "var_end C n s \<longleftrightarrow> (\<exists>q. cvars C n = Some q \<and> derefs (gheap C) q s)"

definition var_image :: "heap \<Rightarrow> copy_info \<Rightarrow> (addr \<times> addr) set \<Rightarrow> addr \<Rightarrow> addr \<Rightarrow> bool" where
  "var_image h0 C R p s = (case cell h0 p of
     WVar \<Rightarrow> cell (gheap C) s = WVar
   | WAttVar a \<Rightarrow> \<exists>b. cell (gheap C) s = WAttVar b \<and> (a, b) \<in> R
   | _ \<Rightarrow> False)"

text \<open>The end of a copied cell corresponds to the end of the original.\<close>

definition matches :: "heap \<Rightarrow> addr \<Rightarrow> compile_info \<Rightarrow> copy_info \<Rightarrow> addr \<Rightarrow> addr \<Rightarrow> bool" where
  "matches h0 B I C r s = (case cell h0 r of
     WVar \<Rightarrow> \<exists>n. links I r = Some n \<and> var_end C n s
   | WAttVar _ \<Rightarrow> \<exists>n. links I r = Some n \<and> var_end C n s
   | WTerm f \<Rightarrow> \<exists>off. marks I f = Some off \<and> cell (gheap C) s = WTerm (B + off)
   | WIndirect t a \<Rightarrow> \<exists>b. B \<le> b \<and> b < gstore C \<and> cell (gheap C) s = WIndirect t b \<and>
       ind (gheap C) b = ind h0 a
   | WRef _ \<Rightarrow> False
   | w \<Rightarrow> cell (gheap C) s = w)"

definition mark_image :: "heap \<Rightarrow> addr \<Rightarrow> compile_info \<Rightarrow> copy_info \<Rightarrow> (addr \<times> addr) set \<Rightarrow> addr \<Rightarrow> nat \<Rightarrow> bool" where
  "mark_image h0 B I C R f off \<longleftrightarrow> (\<exists>fd. func h0 f = Some (Functor fd) \<and>
     func (gheap C) (B + off) = Some (Functor fd) \<and> off + arity fd < gsize I \<and>
     (\<forall>i<arity fd. (argTermP f i, argTermP (B + off) i) \<in> R))"

text \<open>
  \<open>D\<close> are the pairs of cells that have been copied, \<open>P\<close> those that wait for it, \<open>W\<close> the cells that
  reference chains of the copy go through; \<open>p0\<close> is the cell for the copy, \<open>B\<close> the base, \<open>g0\<close> the
  heap before.
\<close>

definition dst_inv :: "heap \<Rightarrow> addr \<Rightarrow> addr \<Rightarrow> heap \<Rightarrow> compile_info \<Rightarrow> copy_info \<Rightarrow>
    (addr \<times> addr) set \<Rightarrow> (addr \<times> addr) set \<Rightarrow> addr set \<Rightarrow> bool" where
  "dst_inv h0 B p0 g0 I C D P W \<longleftrightarrow>
     gbase C = B \<and> version_map C = None \<and> gstore C = B + gsize I \<and>
     W \<subseteq> insert p0 {B..<gstore C} \<and>
     (\<forall>z\<in>W. \<forall>q. cell (gheap C) z = WRef q \<longrightarrow> q \<in> W) \<and>
     (\<forall>n q. cvars C n = Some q \<longrightarrow> n < nvars I \<and> q \<in> W \<and>
        (cell (gheap C) q = WVar \<or> (\<exists>g. cell (gheap C) q = WRef g \<and> isAttVar (cell (gheap C) g)))) \<and>
     (\<forall>n m s. var_end C n s \<longrightarrow> var_end C m s \<longrightarrow> n = m) \<and>
     (\<forall>p n. links I p = Some n \<longrightarrow> (\<exists>s. var_end C n s \<and> var_image h0 C (D \<union> P) p s)) \<and>
     (\<forall>f off. marks I f = Some off \<longrightarrow> mark_image h0 B I C (D \<union> P) f off) \<and>
     (\<forall>(x, y)\<in>D. y \<in> W \<and> (\<exists>r s. derefs h0 x r \<and> derefs (gheap C) y s \<and> matches h0 B I C r s)) \<and>
     (\<forall>z. z \<noteq> p0 \<longrightarrow> z \<notin> {B..<gstore C} \<longrightarrow>
        cell (gheap C) z = cell g0 z \<and> func (gheap C) z = func g0 z \<and> ind (gheap C) z = ind g0 z)"

lemma dst_invD:
  assumes "dst_inv h0 B p0 g0 I C D P W"
  shows "gbase C = B" "version_map C = None" "gstore C = B + gsize I" "W \<subseteq> insert p0 {B..<gstore C}"
    "z \<in> W \<Longrightarrow> cell (gheap C) z = WRef q \<Longrightarrow> q \<in> W"
    "cvars C n = Some q' \<Longrightarrow> n < nvars I"
    "cvars C n = Some q' \<Longrightarrow> q' \<in> W"
    "cvars C n = Some q' \<Longrightarrow>
      cell (gheap C) q' = WVar \<or> (\<exists>g. cell (gheap C) q' = WRef g \<and> isAttVar (cell (gheap C) g))"
    "var_end C n s \<Longrightarrow> var_end C m s \<Longrightarrow> n = m"
    "links I p = Some n \<Longrightarrow> \<exists>s. var_end C n s \<and> var_image h0 C (D \<union> P) p s"
    "marks I f = Some off \<Longrightarrow> mark_image h0 B I C (D \<union> P) f off"
    "(x, y) \<in> D \<Longrightarrow> y \<in> W"
    "(x, y) \<in> D \<Longrightarrow> \<exists>r s. derefs h0 x r \<and> derefs (gheap C) y s \<and> matches h0 B I C r s"
    "z \<noteq> p0 \<Longrightarrow> z \<notin> {B..<gstore C} \<Longrightarrow>
      cell (gheap C) z = cell g0 z \<and> func (gheap C) z = func g0 z \<and> ind (gheap C) z = ind g0 z"
  using assms unfolding dst_inv_def by blast+

lemma dst_invI:
  assumes "gbase C = B" "version_map C = None" "gstore C = B + gsize I" "W \<subseteq> insert p0 {B..<gstore C}"
    "\<And>z q. z \<in> W \<Longrightarrow> cell (gheap C) z = WRef q \<Longrightarrow> q \<in> W"
    "\<And>n q. cvars C n = Some q \<Longrightarrow> n < nvars I \<and> q \<in> W \<and>
      (cell (gheap C) q = WVar \<or> (\<exists>g. cell (gheap C) q = WRef g \<and> isAttVar (cell (gheap C) g)))"
    "\<And>n m s. var_end C n s \<Longrightarrow> var_end C m s \<Longrightarrow> n = m"
    "\<And>p n. links I p = Some n \<Longrightarrow> \<exists>s. var_end C n s \<and> var_image h0 C (D \<union> P) p s"
    "\<And>f off. marks I f = Some off \<Longrightarrow> mark_image h0 B I C (D \<union> P) f off"
    "\<And>x y. (x, y) \<in> D \<Longrightarrow> y \<in> W \<and> (\<exists>r s. derefs h0 x r \<and> derefs (gheap C) y s \<and> matches h0 B I C r s)"
    "\<And>z. z \<noteq> p0 \<Longrightarrow> z \<notin> {B..<gstore C} \<Longrightarrow>
      cell (gheap C) z = cell g0 z \<and> func (gheap C) z = func g0 z \<and> ind (gheap C) z = ind g0 z"
  shows "dst_inv h0 B p0 g0 I C D P W"
  unfolding dst_inv_def using assms by (intro conjI ballI allI impI; clarify?; blast)

text \<open>Chains within \<open>W\<close> are kept by writes outside of \<open>W\<close>.\<close>

lemma derefs_kept:
  assumes "\<And>z q. z \<in> W \<Longrightarrow> cell h z = WRef q \<Longrightarrow> q \<in> W" "\<And>z. z \<in> W \<Longrightarrow> cell h' z = cell h z"
  shows "derefs h x s \<Longrightarrow> x \<in> W \<Longrightarrow> derefs h' x s \<and> s \<in> W"
proof (induction rule: derefs.induct)
  case (here x)
  then show ?case using assms(2) by (auto intro: derefs.here)
next
  case (step x q s)
  then have "q \<in> W" using assms(1) by blast
  with step show ?case using assms(2) by (auto intro: derefs.step)
qed

lemma dst_extend:
  assumes inv: "dst_inv h0 B p0 g0 I C D (insert (x, y) P) W"
    and cells: "\<And>z. z \<in> W \<Longrightarrow> cell (gheap C') z = cell (gheap C) z"
    and old: "\<And>z. B \<le> z \<Longrightarrow> z < gstore C \<Longrightarrow>
      func (gheap C') z = func (gheap C) z \<and> ind (gheap C') z = ind (gheap C) z"
    and base': "gbase C' = B" "version_map C' = None" "gstore C' = B + gsize I'" "gsize I \<le> gsize I'"
    and W': "W \<subseteq> W'" "W' \<subseteq> insert p0 {B..<gstore C'}" "y \<in> W'"
      "\<And>z q. z \<in> W' \<Longrightarrow> z \<notin> W \<Longrightarrow> cell (gheap C') z = WRef q \<Longrightarrow> q \<in> W'"
    and frame: "\<And>z. z \<noteq> p0 \<Longrightarrow> z \<notin> {B..<gstore C'} \<Longrightarrow>
      cell (gheap C') z = cell (gheap C) z \<and> func (gheap C') z = func (gheap C) z \<and> ind (gheap C') z = ind (gheap C) z"
    and cv: "\<And>n q. cvars C n = Some q \<Longrightarrow> cvars C' n = Some q"
    and ncv: "\<And>n q. cvars C n = None \<Longrightarrow> cvars C' n = Some q \<Longrightarrow> n = nvars I \<and> n < nvars I' \<and> q \<in> W' \<and>
        (cell (gheap C') q = WVar \<or> (\<exists>g. cell (gheap C') q = WRef g \<and> isAttVar (cell (gheap C') g))) \<and>
        (\<forall>s. derefs (gheap C') q s \<longrightarrow> s \<notin> W)"
    and src: "\<And>p n. links I p = Some n \<Longrightarrow> links I' p = Some n" "\<And>f n. marks I f = Some n \<Longrightarrow> marks I' f = Some n"
      "nvars I \<le> nvars I'"
    and P: "P \<subseteq> P'"
    and nlk: "\<And>p n. links I p = None \<Longrightarrow> links I' p = Some n \<Longrightarrow>
        \<exists>s. var_end C' n s \<and> var_image h0 C' (insert (x, y) D \<union> P') p s"
    and nmk: "\<And>f off. marks I f = None \<Longrightarrow> marks I' f = Some off \<Longrightarrow>
        mark_image h0 B I' C' (insert (x, y) D \<union> P') f off"
    and xy: "\<exists>r s. derefs h0 x r \<and> derefs (gheap C') y s \<and> matches h0 B I' C' r s"
  shows "dst_inv h0 B p0 g0 I' C' (insert (x, y) D) P' W'"
proof -
  note i = dst_invD [OF inv]
  have kept: "derefs (gheap C') z s \<and> s \<in> W" if "derefs (gheap C) z s" "z \<in> W" for z s
    using derefs_kept [of W "gheap C" "gheap C'"] i(5) cells that by blast
  have kept': "derefs (gheap C) z s \<and> s \<in> W" if "derefs (gheap C') z s" "z \<in> W" for z s
  proof -
    have 1: "q \<in> W" if "u \<in> W" "cell (gheap C') u = WRef q" for u q
      using i(5) [OF that(1)] that cells [OF that(1)] by simp
    have 2: "cell (gheap C) u = cell (gheap C') u" if "u \<in> W" for u using cells [OF that] by simp
    show ?thesis using derefs_kept [OF 1 2 that] .
  qed
  have ve: "var_end C' n s \<and> s \<in> W" if "var_end C n s" for n s
    using that kept i(7) cv unfolding var_end_def by blast
  have ve': "var_end C n s \<and> s \<in> W" if e: "var_end C' n s" and c: "cvars C n \<noteq> None" for n s
  proof -
    obtain q where q: "cvars C n = Some q" using c by blast
    then have "derefs (gheap C') q s" using e cv [OF q] by (auto simp: var_end_def)
    then show ?thesis using kept' i(7) [OF q] q unfolding var_end_def by blast
  qed
  have R: "D \<union> insert (x, y) P \<subseteq> insert (x, y) D \<union> P'" using P by blast
  have vi: "var_image h0 C' (insert (x, y) D \<union> P') p s"
    if "var_image h0 C (D \<union> insert (x, y) P) p s" "s \<in> W" for p s
    using that R cells unfolding var_image_def by (auto split: word.splits)
  have ma: "matches h0 B I' C' r s" if "matches h0 B I C r s" "s \<in> W" for r s
    using that ve src old base'(3,4) i(3) cells unfolding matches_def
    by (auto split: word.splits)
  show ?thesis
  proof (rule dst_invI [OF base'(1-3) W'(2)])
    fix n m s assume nm: "var_end C' n s" "var_end C' m s"
    have new: "k = nvars I" "s \<notin> W" if "var_end C' k s" "cvars C k = None" for k
      using that ncv unfolding var_end_def by blast+
    show "n = m"
      using nm new ve' i(9) by (cases "cvars C n"; cases "cvars C m"; metis option.distinct(1))
  next
    fix n q assume q': "cvars C' n = Some q"
    show "n < nvars I' \<and> q \<in> W' \<and>
      (cell (gheap C') q = WVar \<or> (\<exists>g. cell (gheap C') q = WRef g \<and> isAttVar (cell (gheap C') g)))"
    proof (cases "cvars C n")
      case None
      then show ?thesis using ncv q' by blast
    next
      case (Some q0)
      then have q: "cvars C n = Some q" using cv q' by fastforce
      have "cell (gheap C) q = WVar \<or> (\<exists>g. cell (gheap C) q = WRef g \<and> isAttVar (cell (gheap C) g))"
        using i(8) [OF q] .
      moreover have "cell (gheap C') q = cell (gheap C) q" using cells i(7) [OF q] by blast
      moreover have "g \<in> W \<and> cell (gheap C') g = cell (gheap C) g" if "cell (gheap C) q = WRef g" for g
        using i(5) [OF i(7) [OF q] that] cells by blast
      ultimately show ?thesis using i(6) [OF q] i(7) [OF q] src(3) W'(1) by auto
    qed
  next
    fix p n assume l: "links I' p = Some n"
    show "\<exists>s. var_end C' n s \<and> var_image h0 C' (insert (x, y) D \<union> P') p s"
    proof (cases "links I p")
      case (Some m)
      then have "links I p = Some n" using src(1) l by fastforce
      from i(10) [OF this] show ?thesis using ve vi by blast
    qed (use nlk l in blast)
  next
    fix f off assume m: "marks I' f = Some off"
    show "mark_image h0 B I' C' (insert (x, y) D \<union> P') f off"
    proof (cases "marks I f")
      case (Some k)
      then have "marks I f = Some off" using src(2) m by fastforce
      from i(11) [OF this] show ?thesis using R old base'(4) i(3)
        unfolding mark_image_def by fastforce
    qed (use nmk m in blast)
  next
    fix x' y' assume xy': "(x', y') \<in> insert (x, y) D"
    show "y' \<in> W' \<and> (\<exists>r s. derefs h0 x' r \<and> derefs (gheap C') y' s \<and> matches h0 B I' C' r s)"
    proof (cases "(x', y') = (x, y)")
      case True
      then show ?thesis using xy W'(3) by blast
    next
      case False
      then have "(x', y') \<in> D" using xy' by blast
      then show ?thesis using i(12,13) kept ma W'(1) by blast
    qed
  next
    fix z q assume "z \<in> W'" "cell (gheap C') z = WRef q"
    then show "q \<in> W'" using W'(1,4) i(5) cells by (cases "z \<in> W") auto
  next
    fix z assume z: "z \<noteq> p0" "z \<notin> {B..<gstore C'}"
    then have "z \<notin> {B..<gstore C}" using base'(3,4) i(3) by auto
    then show "cell (gheap C') z = cell g0 z \<and> func (gheap C') z = func g0 z \<and> ind (gheap C') z = ind g0 z"
      using frame [OF z] i(14) [OF z(1)] by simp
  qed
qed

section \<open>One step of the simulation\<close>

lemma dst_cdata [simp]:
  "dst_inv h0 B p0 g0 I (C\<lparr>cdata := d\<rparr>) D P W = dst_inv h0 B p0 g0 I C D P W"
  "dst_inv h0 B p0 g0 I (C\<lparr>dicts := k\<rparr>) D P W = dst_inv h0 B p0 g0 I C D P W"
  "dst_inv h0 B p0 g0 (emit bs I) C D P W = dst_inv h0 B p0 g0 I C D P W"
  "dst_inv h0 B p0 g0 (add_locked E a I) C D P W = dst_inv h0 B p0 g0 I C D P W"
  "dst_inv h0 B p0 g0 (I\<lparr>vars := vs\<rparr>) C D P W = dst_inv h0 B p0 g0 I C D P W"
  by (simp_all add: dst_inv_def var_end_def var_image_def matches_def mark_image_def cong: word.case_cong)

lemma put_cell_sel [simp]:
  "gheap (put_cell p w C) = (gheap C)\<lparr>cell := (cell (gheap C))(p := w)\<rparr>"
  "gbase (put_cell p w C) = gbase C" "gstore (put_cell p w C) = gstore C" "cdata (put_cell p w C) = cdata C"
  "version_map (put_cell p w C) = version_map C" "cvars (put_cell p w C) = cvars C"
  "cnvars (put_cell p w C) = cnvars C" "attvars (put_cell p w C) = attvars C" "dicts (put_cell p w C) = dicts C"
  by (simp_all add: put_cell_def)

text \<open>A cell that gets a word that is no reference, with new data behind the top of the copy.\<close>

lemma dst_const:
  assumes inv: "dst_inv h0 B p0 g0 I C D (insert (x, y) P) W"
    and y: "y \<notin> W" "y \<in> insert p0 {B..<gstore C}" and r: "derefs h0 x r" and w: "\<not> isRef w"
    and C': "cell (gheap C') = (cell (gheap C))(y := w)" "cvars C' = cvars C" "gbase C' = gbase C"
      "version_map C' = version_map C" "gstore C' = gstore C + k"
      "\<And>z. z \<notin> {gstore C..<gstore C'} \<Longrightarrow>
        func (gheap C') z = func (gheap C) z \<and> ind (gheap C') z = ind (gheap C) z"
    and I': "links I' = links I" "nvars I' = nvars I" "gsize I' = gsize I + k"
      "\<And>f n. marks I f = Some n \<Longrightarrow> marks I' f = Some n"
    and m: "matches h0 B I' C' r y"
    and nmk: "\<And>f off. marks I f = None \<Longrightarrow> marks I' f = Some off \<Longrightarrow>
        mark_image h0 B I' C' (insert (x, y) D \<union> P') f off"
    and P: "P \<subseteq> P'"
  shows "dst_inv h0 B p0 g0 I' C' (insert (x, y) D) P' (insert y W)"
proof (rule dst_extend [OF inv, where C' = C' and I' = I'])
  note i = dst_invD [OF inv]
  show "cell (gheap C') z = cell (gheap C) z" if "z \<in> W" for z using that y C'(1) by auto
  show "func (gheap C') z = func (gheap C) z \<and> ind (gheap C') z = ind (gheap C) z"
    if "B \<le> z" "z < gstore C" for z using that C'(6) by simp
  show "\<exists>r s. derefs h0 x r \<and> derefs (gheap C') y s \<and> matches h0 B I' C' r s"
  proof -
    have "derefs (gheap C') y y" using w C'(1) by (intro derefs.here) simp
    then show ?thesis using r m by blast
  qed
  show "insert y W \<subseteq> insert p0 {B..<gstore C'}" using i(4) y(2) C'(5) by auto
  show "q \<in> insert y W" if "z \<in> insert y W" "z \<notin> W" "cell (gheap C') z = WRef q" for z q
    using that w C'(1) by auto
  show "cell (gheap C') z = cell (gheap C) z \<and> func (gheap C') z = func (gheap C) z \<and> ind (gheap C') z = ind (gheap C) z"
    if "z \<noteq> p0" "z \<notin> {B..<gstore C'}" for z
    using that y(2) C'(1,5,6) i(3) by auto
  show "gbase C' = B" "version_map C' = None" "gstore C' = B + gsize I'" "gsize I \<le> gsize I'" "nvars I \<le> nvars I'"
    using C' I' i(1-3) by simp_all
  show "W \<subseteq> insert y W" "y \<in> insert y W" "P \<subseteq> P'" using P by auto
qed (use C'(2) I' nmk in auto)

text \<open>A variable that has been met before: link to it, or move the variable to the lower cell.\<close>

lemma derefs_move:
  assumes "\<And>z u. z \<in> W \<Longrightarrow> cell h z = WRef u \<Longrightarrow> u \<in> W" and q: "q \<in> W" and y: "y \<notin> W"
    and h': "cell h' = (cell h)(y := cell h q, q := WRef y)"
  shows "derefs h z s \<Longrightarrow> z \<in> W \<Longrightarrow> derefs h' z (if s = q then y else s) \<and> s \<in> W"
proof (induction rule: derefs.induct)
  case (here z)
  have "derefs h' y y" if "\<not> isRef (cell h q)" using that h' q y by (intro derefs.here) auto
  then have "derefs h' q y" if "\<not> isRef (cell h q)" using that h' by (intro derefs.step [of h' q y]) auto
  moreover have "derefs h' z z" if "z \<noteq> q" using that here y h' by (intro derefs.here) auto
  ultimately show ?case using here by auto
next
  case (step z u s)
  then have u: "u \<in> W" using assms(1) by blast
  show ?case
  proof (cases "z = q")
    case True
    then have "cell h' y = WRef u" using h' step q y by auto
    with step u have "derefs h' y (if s = q then y else s)" by (auto intro: derefs.step)
    then show ?thesis using True h' step u by (auto intro: derefs.step [of h' q y])
  next
    case False
    then have "cell h' z = WRef u" using h' step y by auto
    then show ?thesis using step u by (auto intro: derefs.step)
  qed
qed

text \<open>
  Moving the variable \<open>n\<close>, whose cell was \<open>q\<close>, to \<open>y\<close>: chains that ended at \<open>q\<close> end at \<open>y\<close>, all
  others end where they did.
\<close>

definition moved :: "addr \<Rightarrow> addr \<Rightarrow> nat \<Rightarrow> copy_info \<Rightarrow> copy_info \<Rightarrow> bool" where
  "moved y q n C C' \<longleftrightarrow> cvars C n = Some q \<and>
     C' = (put_cell q (WRef y) (put_cell y (cell (gheap C) q) C))\<lparr>cvars := (cvars C)(n \<mapsto> y)\<rparr>"

abbreviation new_end :: "addr \<Rightarrow> addr \<Rightarrow> addr \<Rightarrow> addr" where
  "new_end y q s \<equiv> (if s = q then y else s)"

lemma movedD:
  assumes "moved y q n C C'"
  shows "cvars C n = Some q" "cell (gheap C') = (cell (gheap C))(y := cell (gheap C) q, q := WRef y)"
    "cvars C' = (cvars C)(n \<mapsto> y)" "func (gheap C') = func (gheap C)" "ind (gheap C') = ind (gheap C)"
    "gstore C' = gstore C" "gbase C' = gbase C" "version_map C' = version_map C"
  using assms by (simp_all add: moved_def)

lemma var_cell_ends:
  assumes "cell h q = WVar \<or> (\<exists>g. cell h q = WRef g \<and> isAttVar (cell h g))"
  shows "\<exists>s. derefs h q s"
  using assms
proof
  assume "cell h q = WVar"
  then show ?thesis by (intro exI [of _ q] derefs.here) simp
next
  assume "\<exists>g. cell h q = WRef g \<and> isAttVar (cell h g)"
  then obtain g where g: "cell h q = WRef g" "isAttVar (cell h g)" by blast
  then have "derefs h g g" by (intro derefs.here) (auto elim: isAttVar.elims)
  then show ?thesis using derefs.step [OF g(1)] by blast
qed

lemma moved_derefs:
  assumes inv: "dst_inv h0 B p0 g0 I C D P W" and y: "y \<notin> W" and C': "moved y q n C C'"
  shows "derefs (gheap C) z s \<Longrightarrow> z \<in> W \<Longrightarrow> derefs (gheap C') z (new_end y q s) \<and> s \<in> W"
    and "derefs (gheap C) q s \<Longrightarrow> derefs (gheap C') y (new_end y q s)"
proof -
  note i = dst_invD [OF inv] and c = movedD [OF C']
  show kept: "derefs (gheap C') z (new_end y q s) \<and> s \<in> W" if "derefs (gheap C) z s" "z \<in> W" for z
    using derefs_move [OF i(5) i(7) [OF c(1)] y c(2) that] .
  have "derefs (gheap C') y t" if "derefs (gheap C') q t" for t
    using that c(2) by (auto elim: derefs_RefE)
  then show "derefs (gheap C') y (new_end y q s)" if "derefs (gheap C) q s"
    using kept [OF that i(7) [OF c(1)]] by blast
qed

lemma moved_end:
  assumes inv: "dst_inv h0 B p0 g0 I C D P W" and y: "y \<notin> W" and C': "moved y q n C C'"
  shows "var_end C m s \<Longrightarrow> var_end C' m (new_end y q s) \<and> s \<in> W"
    and "var_end C' m t \<Longrightarrow> \<exists>s. var_end C m s \<and> t = new_end y q s \<and> s \<in> W"
proof -
  note i = dst_invD [OF inv] and c = movedD [OF C'] and k = moved_derefs [OF inv y C']
  show fwd: "var_end C' m (new_end y q s) \<and> s \<in> W" if v: "var_end C m s" for s
  proof -
    obtain q' where q': "cvars C m = Some q'" "derefs (gheap C) q' s" using v by (auto simp: var_end_def)
    show ?thesis using k(1) [OF q'(2) i(7) [OF q'(1)]] k(2) [of s] q' c(1,3)
      by (cases "m = n") (auto simp: var_end_def)
  qed
  assume t: "var_end C' m t"
  then have "cvars C m \<noteq> None" using c(1,3) by (auto simp: var_end_def split: if_splits)
  then obtain s where s: "var_end C m s" using var_cell_ends [OF i(8)] unfolding var_end_def by blast
  with fwd [of s] t have "t = new_end y q s" unfolding var_end_def by (metis derefs_unique option.inject)
  then show "\<exists>s. var_end C m s \<and> t = new_end y q s \<and> s \<in> W" using s fwd [OF s] by blast
qed

lemma moved_cell:
  assumes inv: "dst_inv h0 B p0 g0 I C D P W" and y: "y \<notin> W" and C': "moved y q n C C'"
  shows "s \<in> W \<Longrightarrow> \<not> isRef (cell (gheap C) s) \<Longrightarrow> cell (gheap C') (new_end y q s) = cell (gheap C) s"
    and "s \<in> W \<Longrightarrow> var_image h0 C R p s \<Longrightarrow> R \<subseteq> R' \<Longrightarrow> var_image h0 C' R' p (new_end y q s)"
    and "s \<in> W \<Longrightarrow> \<not> isRef (cell (gheap C) s) \<Longrightarrow> matches h0 B I C r s \<Longrightarrow> matches h0 B I C' r (new_end y q s)"
proof -
  note i = dst_invD [OF inv] and c = movedD [OF C']
  have q: "q \<in> W" "y \<noteq> q" using i(7) [OF c(1)] y by blast+
  show same: "cell (gheap C') (new_end y q s) = cell (gheap C) s" if "s \<in> W" "\<not> isRef (cell (gheap C) s)"
    using that q y c(2) by auto
  show "var_image h0 C' R' p (new_end y q s)" if "s \<in> W" "var_image h0 C R p s" "R \<subseteq> R'"
  proof -
    have "\<not> isRef (cell (gheap C) s)" using that(2) by (auto simp: var_image_def split: word.splits)
    then show ?thesis using same [OF that(1)] that(2,3) unfolding var_image_def by (auto split: word.splits)
  qed
  show "matches h0 B I C' r (new_end y q s)" if "s \<in> W" "\<not> isRef (cell (gheap C) s)" "matches h0 B I C r s"
  proof -
    define t where "t = new_end y q s"
    have k: "cell (gheap C') t = cell (gheap C) s" using same that by (simp add: t_def)
    have v: "var_end C' m t" if "var_end C m s" for m using moved_end(1) [OF inv y C' that] by (simp add: t_def)
    have "matches h0 B I C' r t"
      using that(3) k v c(5,6) unfolding matches_def by (auto split: word.splits)
    then show ?thesis by (simp add: t_def)
  qed
qed

text \<open>Every variable of the copy is still a variable, or a reference to an attributed one.\<close>

lemma moved_vars:
  assumes inv: "dst_inv h0 B p0 g0 I C D P W" and y: "y \<notin> W" and C': "moved y q n C C'"
    and m: "cvars C' m = Some q'"
  shows "m < nvars I \<and> q' \<in> insert y W \<and>
      (cell (gheap C') q' = WVar \<or> (\<exists>g. cell (gheap C') q' = WRef g \<and> isAttVar (cell (gheap C') g)))"
proof -
  note i = dst_invD [OF inv] and c = movedD [OF C']
  have q: "q \<in> W" "y \<noteq> q" using i(7) [OF c(1)] y by blast+
  obtain q0 where q0: "cvars C m = Some q0" "q' = (if m = n then y else q0)"
    using m c(1,3) by (auto split: if_splits)
  have "q0 \<noteq> q" if "m \<noteq> n"
  proof
    assume "q0 = q"
    then have "\<exists>s. var_end C m s \<and> var_end C n s"
      using var_cell_ends [OF i(8) [OF c(1)]] q0(1) c(1) by (auto simp: var_end_def)
    then show False using i(9) that by blast
  qed
  moreover have "q0 = q" if "m = n" using that q0(1) c(1) by simp
  moreover have w: "q0 \<in> W" using i(7) [OF q0(1)] .
  ultimately have same: "cell (gheap C') q' = cell (gheap C) q0" and in_W: "q' \<in> insert y W"
    using q0(2) c(2) q y by auto
  have "cell (gheap C') g = cell (gheap C) g" if "isAttVar (cell (gheap C) g)" "g \<in> W" for g
    using that y i(8) [OF c(1)] c(2) by auto
  then show ?thesis using i(8) [OF q0(1)] i(5) [OF w] i(6) [OF q0(1)] same in_W by auto
qed

lemma dst_move:
  assumes inv: "dst_inv h0 B p0 g0 I C D (insert (x, y) P) W"
    and y: "y \<notin> W" "y \<in> insert p0 {B..<gstore C}" and r: "derefs h0 x r" "canBind (cell h0 r)"
    and n: "links I r = Some n" and C': "moved y q n C C'"
  shows "dst_inv h0 B p0 g0 I C' (insert (x, y) D) P (insert y W)"
proof -
  note i = dst_invD [OF inv] and c = movedD [OF C']
  note kept = moved_derefs [OF inv y(1) C'] and ends = moved_end [OF inv y(1) C']
    and same = moved_cell [OF inv y(1) C']
  have q: "q \<in> W" "y \<noteq> q" using i(7) [OF c(1)] y by blast+
  show ?thesis
  proof (rule dst_invI)
    show "gbase C' = B" "version_map C' = None" "gstore C' = B + gsize I" using c(6-8) i(1-3) by simp_all
    show "insert y W \<subseteq> insert p0 {B..<gstore C'}" using i(4) y(2) c(6) by auto
    show "u \<in> insert y W" if "z \<in> insert y W" "cell (gheap C') z = WRef u" for z u
      using that c(2) q i(5) [of z u] i(5) [OF q(1), of u] by (auto split: if_splits)
  next
    fix k m s assume "var_end C' k s" "var_end C' m s"
    then obtain a b where "var_end C k a" "var_end C m b" "new_end y q a = new_end y q b" "a \<in> W" "b \<in> W"
      using ends(2) by metis
    moreover from this have "a = b" using y(1) by (auto split: if_splits)
    ultimately show "k = m" using i(9) by blast
  next
    fix p m assume "links I p = Some m"
    then obtain s where s: "var_end C m s" "var_image h0 C (D \<union> insert (x, y) P) p s" using i(10) by blast
    have "D \<union> insert (x, y) P \<subseteq> insert (x, y) D \<union> P" by blast
    then show "\<exists>s. var_end C' m s \<and> var_image h0 C' (insert (x, y) D \<union> P) p s"
      using ends(1) [OF s(1)] same(2) [OF _ s(2)] by blast
  next
    fix f off assume "marks I f = Some off"
    then show "mark_image h0 B I C' (insert (x, y) D \<union> P) f off"
      using i(11) c(4) unfolding mark_image_def by auto
  next
    fix x' y' assume xy: "(x', y') \<in> insert (x, y) D"
    show "y' \<in> insert y W \<and> (\<exists>r s. derefs h0 x' r \<and> derefs (gheap C') y' s \<and> matches h0 B I C' r s)"
    proof (cases "(x', y') \<in> D")
      case True
      then obtain r' s where rs: "y' \<in> W" "derefs h0 x' r'" "derefs (gheap C) y' s" "matches h0 B I C r' s"
        using i(12,13) by blast
      then show ?thesis using kept(1) [OF rs(3,1)] same(3) [OF _ derefs_end [OF rs(3)] rs(4)] by blast
    next
      case False
      obtain s where s: "derefs (gheap C) q s" using var_cell_ends [OF i(8) [OF c(1)]] by blast
      then have "var_end C' n (new_end y q s)" using ends(1) c(1) by (auto simp: var_end_def)
      then have "matches h0 B I C' r (new_end y q s)" using n r(2)
        unfolding matches_def by (cases "cell h0 r") (auto simp: canBind_def isVar_def)
      then show ?thesis using False xy r(1) kept(2) [OF s] by blast
    qed
  next
    fix z assume z: "z \<noteq> p0" "z \<notin> {B..<gstore C'}"
    have "z \<noteq> y" "z \<noteq> q" using z y(2) q(1) i(4) c(6) by auto
    then show "cell (gheap C') z = cell g0 z \<and> func (gheap C') z = func g0 z \<and> ind (gheap C') z = ind g0 z"
      using z i(14) [of z] c by simp
  qed (rule moved_vars [OF inv y(1) C'])
qed

section \<open>Work that a cell leaves\<close>

definition cont_cells :: "cont \<Rightarrow> addr list" where
  "cont_cells c = (case c of Args q n \<Rightarrow> [q..<q + n] | _ \<Rightarrow> [])"

definition push_cont :: "cont \<Rightarrow> agenda1 \<Rightarrow> agenda1" where
  "push_cont c A = (case c of Args q n \<Rightarrow> push_on_list A n q | _ \<Rightarrow> A)"

lemma push_cont:
  "works_ok A \<Longrightarrow> works_ok (push_cont c A) \<and> cells (push_cont c A) = cont_cells c @ cells A"
  using push_cells by (cases c) (auto simp: push_cont_def cont_cells_def)

lemma next_cont:
  assumes "works_ok A"
  shows "case next_list Suc (push_cont c A) of None \<Rightarrow> cont_cells c @ cells A = []
    | Some (p, A') \<Rightarrow> works_ok A' \<and> cont_cells c @ cells A = p # cells A'"
  using next_cells [of "push_cont c A"] push_cont [OF assms, of c] by (auto split: option.splits)


section \<open>One cell\<close>

definition targets :: "cont \<Rightarrow> addr list" where
  "targets c = (case c of Done \<Rightarrow> [] | Again q \<Rightarrow> [q] | Args q n \<Rightarrow> [q..<q + n])"

definition same_kind :: "cont \<Rightarrow> cont \<Rightarrow> bool" where
  "same_kind c d \<longleftrightarrow> (case (c, d) of
     (Done, Done) \<Rightarrow> True | (Again _, Again _) \<Rightarrow> True | (Args _ n, Args _ m) \<Rightarrow> n = m | _ \<Rightarrow> False)"

text \<open>What a step of the copy must reach, for a step of the compiler to \<open>I'\<close> and \<open>c\<close>.\<close>

definition sim_step :: "rec_env \<Rightarrow> heap \<Rightarrow> addr \<Rightarrow> addr \<Rightarrow> heap \<Rightarrow> copy_info \<Rightarrow>
    (addr \<times> addr) set \<Rightarrow> (addr \<times> addr) set \<Rightarrow> addr set \<Rightarrow> addr \<times> addr \<Rightarrow> byte list \<Rightarrow> compile_info \<Rightarrow> cont \<Rightarrow> bool" where
  "sim_step E h0 B p0 g0 C D P W xy rest I' c \<longleftrightarrow> (\<exists>C' c' W'.
     copy_cell E C (snd xy) = Some (C', c') \<and> cdata C' = rest \<and> cnvars C' = cnvars C \<and> same_kind c c' \<and>
     dst_inv h0 B p0 g0 I' C' (insert xy D) (set (zip (targets c) (targets c')) \<union> P) W' \<and>
     set (targets c') \<subseteq> {gstore C..<gstore C'} \<and> set (targets c') \<inter> W' = {} \<and>
     W' \<subseteq> insert (snd xy) W \<union> {gstore C..<gstore C'})"

lemma sim_stepI:
  assumes "copy_cell E C y = Some (C', c')" "cdata C' = rest" "cnvars C' = cnvars C" "same_kind c c'"
    "dst_inv h0 B p0 g0 I' C' (insert (x, y) D) (set (zip (targets c) (targets c')) \<union> P) W'"
    "set (targets c') \<subseteq> {gstore C..<gstore C'}" "set (targets c') \<inter> W' = {}"
    "W' \<subseteq> insert y W \<union> {gstore C..<gstore C'}"
  shows "sim_step E h0 B p0 g0 C D P W (x, y) rest I' c"
  unfolding sim_step_def using assms by (intro exI [of _ C'] exI [of _ c'] exI [of _ W']) simp

lemma dst_link:
  assumes inv: "dst_inv h0 B p0 g0 I C D (insert (x, y) P) W"
    and y: "y \<notin> W" "y \<in> insert p0 {B..<gstore C}" and r: "derefs h0 x r" "canBind (cell h0 r)"
    and n: "links I r = Some n" "cvars C n = Some q"
  shows "dst_inv h0 B p0 g0 I (put_cell y (WRef q) C) (insert (x, y) D) P (insert y W)"
proof (rule dst_extend [OF inv, where C' = "put_cell y (WRef q) C" and I' = I])
  note i = dst_invD [OF inv]
  let ?C = "put_cell y (WRef q) C"
  have q: "q \<in> W" by (rule i(7) [OF n(2)])
  show k: "cell (gheap ?C) z = cell (gheap C) z" if "z \<in> W" for z using that y by auto
  obtain s where s: "var_end C n s" using i(10) [OF n(1)] by blast
  then have "derefs (gheap C) q s" using n(2) by (auto simp: var_end_def)
  then have qs: "derefs (gheap ?C) q s" using derefs_kept [of W "gheap C" "gheap ?C"] i(5) k q by blast
  then have "derefs (gheap ?C) y s" by (intro derefs.step [of _ y q]) simp_all
  moreover have "matches h0 B I ?C r s"
    using qs n r(2) by (cases "cell h0 r") (auto simp: matches_def var_end_def canBind_def isVar_def)
  ultimately show "\<exists>r s. derefs h0 x r \<and> derefs (gheap ?C) y s \<and> matches h0 B I ?C r s" using r(1) by blast
  show "q' \<in> insert y W" if "z \<in> insert y W" "z \<notin> W" "cell (gheap ?C) z = WRef q'" for z q'
    using that q by auto
  show "insert y W \<subseteq> insert p0 {B..<gstore ?C}" using i(4) y(2) by auto
  show "cell (gheap ?C) z = cell (gheap C) z \<and> func (gheap ?C) z = func (gheap C) z \<and> ind (gheap ?C) z = ind (gheap C) z"
    if "z \<noteq> p0" "z \<notin> {B..<gstore ?C}" for z
    using that y(2) by auto
qed (use dst_invD(1-3) [OF inv] in auto)

lemma copy_variable:
  assumes "cdata C = PL_TYPE_VARIABLE # size_int n @ rest" "version_map C = None" "n < 2 ^ 64"
  shows "copy_cell E C y = map_option (\<lambda>C. (C, Done)) (copy_var y n (C\<lparr>cdata := rest\<rparr>))"
  using assms by (simp add: copy_cell_def fetchOpCode_def)

lemma sim_linked:
  assumes src: "src_inv h0 I" and inv: "dst_inv h0 B p0 g0 I C D (insert (x, y) P) W"
    and y: "y \<notin> W" "y \<in> insert p0 {B..<gstore C}" and r: "derefs h0 x r"
    and n: "links I r = Some n" "nvars I \<le> cnvars C" "cnvars C < 2 ^ 31"
    and data: "cdata C = PL_TYPE_VARIABLE # size_int n @ rest"
  shows "sim_step E h0 B p0 g0 C D P W (x, y) rest (emit bs I) Done"
proof -
  note i = dst_invD [OF inv]
  obtain q where q: "cvars C n = Some q" using i(10) [OF n(1)] by (auto simp: var_end_def)
  have bind: "canBind (cell h0 r)" by (rule src_invD(2) [OF src n(1)])
  have lt: "n < cnvars C" using i(6) [OF q] n(2) by simp
  have copy: "copy_cell E C y = map_option (\<lambda>C. (C, Done)) (copy_var y n (C\<lparr>cdata := rest\<rparr>))"
    using copy_variable [OF data i(2)] lt n(3) by simp
  define C1 where "C1 = C\<lparr>cdata := rest\<rparr>"
  have inv1: "dst_inv h0 B p0 g0 I C1 D (insert (x, y) P) W" using inv by (simp add: C1_def)
  have sel: "cvars C1 n = Some q" "cnvars C1 = cnvars C" "gstore C1 = gstore C" "cdata C1 = rest" using q by (simp_all add: C1_def)
  show ?thesis
  proof (cases "q < y")
    case True
    have "copy_cell E C y = Some (put_cell y (WRef q) C1, Done)"
      using copy lt q True by (simp add: copy_var_def C1_def)
    moreover have "dst_inv h0 B p0 g0 I (put_cell y (WRef q) C1) (insert (x, y) D) P (insert y W)"
      using dst_link [OF inv1 y(1) _ r bind n(1) sel(1)] y(2) sel(3) by simp
    ultimately show ?thesis
      by (intro sim_stepI [where W' = "insert y W"]) (auto simp: sel targets_def same_kind_def)
  next
    case False
    let ?C = "(put_cell q (WRef y) (put_cell y (cell (gheap C1) q) C1))\<lparr>cvars := (cvars C1)(n \<mapsto> y)\<rparr>"
    have "copy_cell E C y = Some (?C, Done)"
      using copy lt q False by (simp add: copy_var_def C1_def)
    moreover have "dst_inv h0 B p0 g0 I ?C (insert (x, y) D) P (insert y W)"
      using dst_move [OF inv1 y(1) _ r bind n(1)] y(2) sel(1,3) by (simp add: moved_def)
    ultimately show ?thesis
      by (intro sim_stepI [where W' = "insert y W"]) (auto simp: sel targets_def same_kind_def)
  qed
qed

lemma sim_const:
  assumes inv: "dst_inv h0 B p0 g0 I C D (insert (x, y) P) W"
    and y: "y \<notin> W" "y \<in> insert p0 {B..<gstore C}" and r: "derefs h0 x r"
    and copy: "copy_cell E C y = Some (put_cell y w (C\<lparr>cdata := rest\<rparr>), Done)"
    and w: "\<not> isRef w" "case cell h0 r of WAtom a \<Rightarrow> w = WAtom a | WInt i \<Rightarrow> w = WInt i
        | WTerm f \<Rightarrow> \<exists>off. marks I f = Some off \<and> w = WTerm (B + off) | _ \<Rightarrow> False"
    and I': "links I' = links I" "nvars I' = nvars I" "gsize I' = gsize I" "marks I' = marks I"
  shows "sim_step E h0 B p0 g0 C D P W (x, y) rest I' Done"
proof -
  let ?C = "put_cell y w (C\<lparr>cdata := rest\<rparr>)"
  have "matches h0 B I' ?C r y"
    using w(2) I'(4) by (cases "cell h0 r") (auto simp: matches_def)
  then have "dst_inv h0 B p0 g0 I' ?C (insert (x, y) D) P (insert y W)"
    by (intro dst_const [OF inv y r w(1), where k = 0]) (simp_all add: I')
  then show ?thesis
    by (intro sim_stepI [OF copy, where W' = "insert y W"]) (auto simp: targets_def same_kind_def)
qed

lemma sim_indirect:
  assumes inv: "dst_inv h0 B p0 g0 I C D (insert (x, y) P) W"
    and y: "y \<notin> W" "y \<in> insert p0 {B..<gstore C}" and r: "derefs h0 x r" "cell h0 r = WIndirect t a"
    and copy: "copy_cell E C y = Some (put_indirect y t (ind h0 a) n (C\<lparr>cdata := rest\<rparr>), Done)"
    and I': "links I' = links I" "nvars I' = nvars I" "gsize I' = gsize I + n + 2" "marks I' = marks I"
  shows "sim_step E h0 B p0 g0 C D P W (x, y) rest I' Done"
proof -
  let ?C = "put_indirect y t (ind h0 a) n (C\<lparr>cdata := rest\<rparr>)"
  have "B \<le> gstore C" using dst_invD(3) [OF inv] by simp
  then have "matches h0 B I' ?C r y"
    using r(2) by (simp add: matches_def put_indirect_def)
  then have "dst_inv h0 B p0 g0 I' ?C (insert (x, y) D) P (insert y W)"
    by (intro dst_const [OF inv y r(1), where k = "n + 2" and w = "WIndirect t (gstore C)"])
      (auto simp: I' put_indirect_def)
  then show ?thesis
    by (intro sim_stepI [OF copy, where W' = "insert y W"])
      (auto simp: targets_def same_kind_def put_indirect_def)
qed

lemma mark_image_emit [simp]: "mark_image h0 B (emit bs I) C R f off = mark_image h0 B I C R f off"
  by (simp add: mark_image_def)

lemma in_zip_upt: "i < n \<Longrightarrow> (a + i, b + i) \<in> set (zip [a..<a + n] [b..<b + n])"
  by (auto simp: set_zip intro: exI [of _ i])

lemma sim_compound:
  assumes inv: "dst_inv h0 B p0 g0 I C D (insert (x, y) P) W"
    and y: "y \<notin> W" "y \<in> insert p0 {B..<gstore C}" and p0: "p0 \<notin> {gstore C..<gstore C + arity fd + 1}"
    and r: "derefs h0 x r" "cell h0 r = WTerm f" "func h0 f = Some (Functor fd)"
    and f: "marks I f = None"
    and copy: "copy_cell E C y = Some (put_term y fd (arity fd) (C\<lparr>cdata := rest, dicts := d\<rparr>))"
    and I': "links I' = links I" "nvars I' = nvars I" "gsize I' = gsize I + arity fd + 1"
      "marks I' = (marks I)(f \<mapsto> gsize I)"
  shows "sim_step E h0 B p0 g0 C D P W (x, y) rest I' (Args (argTermP f 0) (arity fd))"
proof -
  let ?n = "arity fd"
  let ?c = "Args (argTermP f 0) ?n" and ?c' = "Args (gstore C + 1) ?n"
  define C' where "C' = fst (put_term y fd ?n (C\<lparr>cdata := rest, dicts := d\<rparr>))"
  have copy': "copy_cell E C y = Some (C', ?c')" by (simp add: copy C'_def put_term_def)
  have c: "cell (gheap C') = (cell (gheap C))(y := WTerm (gstore C))" "cvars C' = cvars C" "gbase C' = gbase C"
    "version_map C' = version_map C" "gstore C' = gstore C + (?n + 1)" "cdata C' = rest" "cnvars C' = cnvars C"
    "ind (gheap C') = ind (gheap C)" "func (gheap C') = (func (gheap C))(gstore C := Some (Functor fd))"
    by (simp_all add: C'_def put_term_def)
  have B: "gstore C = B + gsize I" by (rule dst_invD(3) [OF inv])
  have "matches h0 B I' C' r y" using r(2) by (simp add: matches_def I' c B)
  moreover have "mark_image h0 B I' C' (insert (x, y) D \<union> (set (zip (targets ?c) (targets ?c')) \<union> P)) g off"
    if "marks I g = None" "marks I' g = Some off" for g off
  proof -
    have "g = f" "off = gsize I" using that by (auto simp: I' split: if_splits)
    then show ?thesis using r(3) in_zip_upt [of _ ?n "Suc f" "Suc (gstore C)"]
      by (auto simp: mark_image_def c I' B targets_def argTermP_def)
  qed
  ultimately have "dst_inv h0 B p0 g0 I' C' (insert (x, y) D) (set (zip (targets ?c) (targets ?c')) \<union> P) (insert y W)"
    by (intro dst_const [OF inv y r(1), where k = "?n + 1" and w = "WTerm (gstore C)"]) (use f in \<open>auto simp: I' c\<close>)
  moreover have "insert y W \<subseteq> insert p0 {B..<gstore C}" using dst_invD(4) [OF inv] y(2) by simp
  ultimately show ?thesis using p0
    by (intro sim_stepI [OF copy', where W' = "insert y W"]) (auto simp: c targets_def same_kind_def)
qed

lemma var_new:
  assumes "dst_inv h0 B p0 g0 I C D P W"
  shows "cvars C (nvars I) = None"
proof (cases "cvars C (nvars I)")
  case (Some q)
  then have "nvars I < nvars I" using dst_invD(6) [OF assms, of "nvars I"] by blast
  then show ?thesis by simp
qed

lemma sim_var:
  assumes inv: "dst_inv h0 B p0 g0 I C D (insert (x, y) P) W"
    and y: "y \<notin> W" "y \<in> insert p0 {B..<gstore C}" and r: "derefs h0 x r" "cell h0 r = WVar"
    and l: "links I r = None" "nvars I < cnvars C" "cnvars C < 2 ^ 31"
    and data: "cdata C = PL_TYPE_VARIABLE # size_int (nvars I) @ rest"
    and I': "links I' = (links I)(r \<mapsto> nvars I)" "nvars I' = nvars I + 1" "gsize I' = gsize I" "marks I' = marks I"
  shows "sim_step E h0 B p0 g0 C D P W (x, y) rest I' Done"
proof -
  note i = dst_invD [OF inv]
  let ?n = "nvars I"
  define C' where "C' = (put_cell y WVar (C\<lparr>cdata := rest\<rparr>))\<lparr>cvars := (cvars C)(?n \<mapsto> y)\<rparr>"
  have new: "cvars C ?n = None" by (rule var_new [OF inv])
  have copy: "copy_cell E C y = Some (C', Done)"
    using copy_variable [OF data i(2)] l new by (simp add: copy_var_def C'_def)
  have c: "gheap C' = (gheap C)\<lparr>cell := (cell (gheap C))(y := WVar)\<rparr>" "cvars C' = (cvars C)(?n \<mapsto> y)"
    "gbase C' = gbase C" "version_map C' = version_map C" "gstore C' = gstore C" "cdata C' = rest" "cnvars C' = cnvars C"
    by (simp_all add: C'_def)
  have yy: "derefs (gheap C') y y" by (intro derefs.here) (simp add: c)
  have ve: "var_end C' ?n y" using yy by (auto simp: var_end_def c)
  have "dst_inv h0 B p0 g0 I' C' (insert (x, y) D) P (insert y W)"
  proof (rule dst_extend [OF inv, where C' = C' and I' = I'])
    show "cell (gheap C') z = cell (gheap C) z" if "z \<in> W" for z using that y by (auto simp: c)
    show "insert y W \<subseteq> insert p0 {B..<gstore C'}" using i(4) y(2) by (auto simp: c)
    show "q \<in> insert y W" if "z \<in> insert y W" "z \<notin> W" "cell (gheap C') z = WRef q" for z q
      using that by (auto simp: c)
    show "cell (gheap C') z = cell (gheap C) z \<and> func (gheap C') z = func (gheap C) z \<and> ind (gheap C') z = ind (gheap C) z"
      if "z \<noteq> p0" "z \<notin> {B..<gstore C'}" for z using that y(2) by (auto simp: c)
    show "cvars C' n = Some q" if "cvars C n = Some q" for n q using that new by (auto simp: c)
    show "n = ?n \<and> n < nvars I' \<and> q \<in> insert y W \<and>
        (cell (gheap C') q = WVar \<or> (\<exists>g. cell (gheap C') q = WRef g \<and> isAttVar (cell (gheap C') g))) \<and>
        (\<forall>s. derefs (gheap C') q s \<longrightarrow> s \<notin> W)" if "cvars C n = None" "cvars C' n = Some q" for n q
    proof -
      have "n = ?n" "q = y" using that by (auto simp: c split: if_splits)
      moreover have "s \<notin> W" if "derefs (gheap C') y s" for s using derefs_unique [OF that yy] y(1) by simp
      ultimately show ?thesis by (simp add: c I')
    qed
    show "\<exists>s. var_end C' n s \<and> var_image h0 C' (insert (x, y) D \<union> P) p s"
      if "links I p = None" "links I' p = Some n" for p n
    proof -
      have "p = r" "n = ?n" using that by (auto simp: I' split: if_splits)
      then show ?thesis using ve r(2) by (auto simp: var_image_def c)
    qed
    show "\<exists>r s. derefs h0 x r \<and> derefs (gheap C') y s \<and> matches h0 B I' C' r s"
      using r yy ve by (intro exI [of _ r] exI [of _ y]) (simp add: matches_def I')
    show "links I' p = Some n" if "links I p = Some n" for p n using that l(1) by (auto simp: I')
  qed (use i(1-3) in \<open>auto simp: c I'\<close>)
  then show ?thesis
    by (intro sim_stepI [OF copy, where W' = "insert y W"]) (auto simp: c targets_def same_kind_def)
qed

lemma sim_attvar:
  assumes inv: "dst_inv h0 B p0 g0 I C D (insert (x, y) P) W"
    and y: "y \<notin> W" "y \<in> insert p0 {B..<gstore C}" and p0: "p0 \<notin> {gstore C..<gstore C + 3}"
    and r: "derefs h0 x r" "cell h0 r = WAttVar a"
    and l: "links I r = None" "nvars I < cnvars C" "cnvars C < 2 ^ 31"
    and data: "cdata C = PL_TYPE_ATTVAR # size_int (nvars I) @ rest"
    and I': "links I' = (links I)(r \<mapsto> nvars I)" "nvars I' = nvars I + 1" "gsize I' = gsize I + 3" "marks I' = marks I"
  shows "sim_step E h0 B p0 g0 C D P W (x, y) rest I' (Again a)"
proof -
  note i = dst_invD [OF inv]
  let ?n = "nvars I" and ?g = "gstore C"
  define C' where "C' = fst (the (copy_attvar y ?n (C\<lparr>cdata := rest\<rparr>)))"
  have new: "cvars C ?n = None" by (rule var_new [OF inv])
  have copy: "copy_cell E C y = Some (C', Again (?g + 2))"
    using data i(2) l by (simp add: copy_cell_def fetchOpCode_def opcode_defs C'_def copy_attvar_def Let_def
        register_attvar_def)
  have yg: "y \<noteq> ?g" "y \<noteq> ?g + 1" "y \<noteq> ?g + 2" using y(2) p0 by auto
  have Wg: "z \<noteq> y" "z \<noteq> ?g" "z \<noteq> ?g + 1" "z \<noteq> ?g + 2" if "z \<in> W" for z
    using that y(1) i(4) p0 by auto
  obtain v where c: "cell (gheap C') = (cell (gheap C))(?g := v, ?g + 1 := WAttVar (?g + 2), y := WRef (?g + 1))"
    "func (gheap C') = func (gheap C)" "ind (gheap C') = ind (gheap C)" "cvars C' = (cvars C)(?n \<mapsto> y)"
    "gbase C' = gbase C" "version_map C' = version_map C" "gstore C' = ?g + 3" "cdata C' = rest" "cnvars C' = cnvars C"
    using l by (simp add: C'_def copy_attvar_def Let_def register_attvar_def)
  have cy: "cell (gheap C') y = WRef (?g + 1)" "cell (gheap C') (?g + 1) = WAttVar (?g + 2)"
    using yg by (simp_all add: c)
  have yy: "derefs (gheap C') y (?g + 1)"
    by (rule derefs.step [OF cy(1)], rule derefs.here) (simp add: cy(2) [simplified])
  have ve: "var_end C' ?n (?g + 1)" using yy by (auto simp: var_end_def c)
  have "dst_inv h0 B p0 g0 I' C' (insert (x, y) D) (insert (a, ?g + 2) P) (insert y (insert (?g + 1) W))"
  proof (rule dst_extend [OF inv, where C' = C' and I' = I'])
    show "cell (gheap C') z = cell (gheap C) z" if "z \<in> W" for z using Wg [OF that] by (simp add: c)
    show "insert y (insert (?g + 1) W) \<subseteq> insert p0 {B..<gstore C'}" using i(3,4) y(2) by (auto simp: c)
    show "q \<in> insert y (insert (?g + 1) W)"
      if "z \<in> insert y (insert (?g + 1) W)" "z \<notin> W" "cell (gheap C') z = WRef q" for z q
      using that cy by (cases "z = y") auto
    show "cell (gheap C') z = cell (gheap C) z \<and> func (gheap C') z = func (gheap C) z \<and> ind (gheap C') z = ind (gheap C) z"
      if "z \<noteq> p0" "z \<notin> {B..<gstore C'}" for z
    proof -
      have "z \<noteq> ?g" "z \<noteq> ?g + 1" "z \<noteq> y" using that i(3) y(2) by (auto simp: c)
      then show ?thesis by (simp add: c)
    qed
    show "cvars C' n = Some q" if "cvars C n = Some q" for n q using that new by (auto simp: c)
    show "n = ?n \<and> n < nvars I' \<and> q \<in> insert y (insert (?g + 1) W) \<and>
        (cell (gheap C') q = WVar \<or> (\<exists>g. cell (gheap C') q = WRef g \<and> isAttVar (cell (gheap C') g))) \<and>
        (\<forall>s. derefs (gheap C') q s \<longrightarrow> s \<notin> W)" if "cvars C n = None" "cvars C' n = Some q" for n q
    proof -
      have "n = ?n" "q = y" using that by (auto simp: c(4) split: if_splits)
      moreover have "s \<notin> W" if "derefs (gheap C') y s" for s
        using derefs_unique [OF that yy] Wg(3) by blast
      ultimately show ?thesis using cy by (simp add: I')
    qed
    show "\<exists>s. var_end C' n s \<and> var_image h0 C' (insert (x, y) D \<union> insert (a, ?g + 2) P) p s"
      if "links I p = None" "links I' p = Some n" for p n
    proof -
      have "p = r" "n = ?n" using that by (auto simp: I' split: if_splits)
      then show ?thesis using ve r(2) cy by (auto simp: var_image_def)
    qed
    show "\<exists>r s. derefs h0 x r \<and> derefs (gheap C') y s \<and> matches h0 B I' C' r s"
      using r yy ve by (intro exI [of _ r] exI [of _ "?g + 1"]) (simp add: matches_def I')
    show "links I' p = Some n" if "links I p = Some n" for p n using that l(1) by (auto simp: I')
  qed (use i(1-3) in \<open>auto simp: c I'\<close>)
  moreover have "?g + 2 \<notin> insert y (insert (?g + 1) W)" using yg Wg(4) by auto
  ultimately show ?thesis
    by (intro sim_stepI [OF copy, where W' = "insert y (insert (?g + 1) W)"])
      (auto simp: c targets_def same_kind_def)
qed

text \<open>What a step of the compiler adds.\<close>

definition emits :: "heap \<Rightarrow> compile_info \<Rightarrow> compile_info \<Rightarrow> bool" where
  "emits h0 I I' \<longleftrightarrow> (\<exists>out. code I' = code I @ out \<and> out \<noteq> []) \<and> gsize I \<le> gsize I' \<and> nvars I \<le> nvars I' \<and>
     external I' = external I \<and> src_inv h0 I'"

lemma atom_code_nonempty: "atom_code E ext a = Some bs \<Longrightarrow> bs \<noteq> []"
  by (auto simp: atom_code_def split: if_splits)

lemma compile_emits:
  assumes src: "src_inv h0 I" and c: "compile_cell E I r = Some (Inr (I', c))" and r: "\<not> isRef (cell h0 r)"
  shows "emits h0 I I'"
proof (cases "links I r")
  case (Some n)
  then have "I' = emit (PL_TYPE_VARIABLE # size_int n) I" using c by (simp add: compile_cell_def)
  then show ?thesis using src by (simp add: emits_def)
next
  case None
  have cr: "cell (rheap I) r = cell h0 r" by (rule src_invD(1) [OF src None])
  show ?thesis
  proof (cases "cell h0 r")
    case WVar
    then have I': "I' = emit (PL_TYPE_VARIABLE # size_int (nvars I)) (link_var r I\<lparr>vars := VarCell r # vars I\<rparr>)"
      using c None cr by (simp add: compile_cell_def Let_def link_var_def)
    have "src_inv h0 (link_var r I\<lparr>vars := VarCell r # vars I\<rparr>)"
      using src_link [OF src None] WVar by (simp add: canBind_def isVar_def)
    then show ?thesis using I' by (simp add: emits_def)
  next
    case (WAttVar a)
    define I1 where "I1 = (if code I = [] then grow 1 (emit [PL_REC_ALLOCVAR] I) else I)"
    have I1: "src_inv h0 I1" "links I1 r = None" "vars I1 = vars I" "nvars I1 = nvars I" "external I1 = external I"
      "gsize I \<le> gsize I1" "\<exists>bs. code I1 = code I @ bs"
      using src None by (auto simp: I1_def) (simp_all add: emit_def grow_def)
    have I': "I' = grow 3 (emit (PL_TYPE_ATTVAR # size_int (nvars I)) (link_var r I1\<lparr>vars := AttVarCell r (WAttVar a) # vars I1\<rparr>))"
      using c None cr WAttVar I1(3) by (simp add: compile_cell_def Let_def link_var_def I1_def emit_def grow_def)
    have "src_inv h0 (link_var r I1\<lparr>vars := AttVarCell r (WAttVar a) # vars I1\<rparr>)"
      using src_link [OF I1(1,2)] WAttVar by (simp add: canBind_def isVar_def)
    then show ?thesis using I' I1 by (auto simp: emits_def)
  next
    case (WAtom a)
    then obtain bs where "atom_code E (external I) a = Some bs" "I' = add_locked E a (emit bs I)"
      using c None cr by (auto simp: compile_cell_def addAtom_code split: option.splits)
    then show ?thesis using src atom_code_nonempty by (simp add: emits_def)
  next
    case (WInt i)
    then have "I' = emit (PL_TYPE_TAGGED_INTEGER # addInt64 i) I" using c None cr by (simp add: compile_cell_def)
    then show ?thesis using src by (simp add: emits_def)
  next
    case (WIndirect t a)
    then have ci: "compile_indirect E t a I = Some I'"
      using c None cr by (simp add: compile_cell_def split: option.splits)
    have "\<exists>bs n. I' = emit bs (grow n I) \<and> bs \<noteq> []"
      using ci by (cases t; cases "ind (rheap I) a") (auto simp: compile_indirect_def addFloat_def)
    then show ?thesis using src by (auto simp: emits_def)
  next
    case (WTerm f)
    show ?thesis
    proof (cases "marks I f")
      case (Some off)
      then have "I' = emit (PL_REC_CYCLE # size_int off) I" using c None cr WTerm by (simp add: compile_cell_def)
      then show ?thesis using src by (simp add: emits_def)
    next
      case mk: None
      obtain fd bs where fd: "func (rheap I) f = Some (Functor fd)" and bs: "functor_code E (external I) fd = Some bs"
        and I': "I' = emit bs (grow (arity fd + 1) (mark_term f fd I))"
        using c None cr WTerm mk by (auto simp: compile_cell_def addFunctor_code Let_def split: option.splits fword.splits)
      have "src_inv h0 (mark_term f fd I)" using src_mark [OF src mk] src_invD(6) [OF src mk] fd by simp
      moreover have "bs \<noteq> []" using bs by (auto simp: functor_code_def split: if_splits)
      ultimately show ?thesis using I' by (simp add: emits_def)
    qed
  qed (use r in simp)
qed

section \<open>All cells\<close>

lemma sim_cell:
  assumes src: "src_inv h0 I" and inv: "dst_inv h0 B p0 g0 I C D (insert (x, y) P) W"
    and ok: "rec_data_ok E h0"
    and y: "y \<notin> W" "y \<in> insert p0 {B..<gstore C}" and p0: "p0 \<notin> {gstore C..<B + gsize I'}"
    and r: "derefs h0 x r" and c: "compile_cell E I r = Some (Inr (I', c))"
    and first: "code I = [] \<Longrightarrow> \<not> isAttVar (cell h0 r)"
    and lim: "nvars I' \<le> cnvars C" "cnvars C < 2 ^ 31" "gsize I' < 2 ^ 31"
    and out: "code I' = code I @ out" "cdata C = out @ rest"
  shows "sim_step E h0 B p0 g0 C D P W (x, y) rest I' c"
proof (cases "links I r")
  case (Some n)
  then have I': "I' = emit (PL_TYPE_VARIABLE # size_int n) I" "c = Done" using c by (simp_all add: compile_cell_def)
  then have "cdata C = PL_TYPE_VARIABLE # size_int n @ rest" using out by simp
  then show ?thesis using sim_linked [OF src inv y r Some] lim I' by simp
next
  case None
  note i = dst_invD [OF inv]
  have cr: "cell (rheap I) r = cell h0 r" by (rule src_invD(1) [OF src None])
  have B: "gstore C = B + gsize I" by (rule i(3))
  show ?thesis
  proof (cases "cell h0 r")
    case WVar
    then have I': "I' = emit (PL_TYPE_VARIABLE # size_int (nvars I)) (link_var r I\<lparr>vars := VarCell r # vars I\<rparr>)" "c = Done"
      using c None cr by (simp_all add: compile_cell_def Let_def link_var_def)
    then have "cdata C = PL_TYPE_VARIABLE # size_int (nvars I) @ rest" using out by simp
    then show ?thesis using sim_var [OF inv y r WVar None _ lim(2)] lim(1) I' by simp
  next
    case (WAttVar a)
    then have "code I \<noteq> []" using first by auto
    then have I': "I' = grow 3 (emit (PL_TYPE_ATTVAR # size_int (nvars I)) (link_var r I\<lparr>vars := AttVarCell r (WAttVar a) # vars I\<rparr>))"
      "c = Again a"
      using c None cr WAttVar by (simp_all add: compile_cell_def Let_def link_var_def)
    then have "cdata C = PL_TYPE_ATTVAR # size_int (nvars I) @ rest" using out by simp
    moreover have "p0 \<notin> {gstore C..<gstore C + 3}" using p0 I' B by auto
    ultimately show ?thesis using sim_attvar [OF inv y _ r WAttVar None _ lim(2)] lim(1) I' by simp
  next
    case (WAtom a)
    then obtain bs where bs: "atom_code E (external I) a = Some bs" "I' = add_locked E a (emit bs I)" "c = Done"
      using c None cr by (auto simp: compile_cell_def addAtom_code split: option.splits)
    then have "cdata C = bs @ rest" using out by simp
    from sim_const [OF inv y r copy_atom [OF rec_data_okD(2) [OF ok WAtom] bs(1) this i(2)]]
    show ?thesis using WAtom bs by simp
  next
    case (WInt v)
    then have I': "I' = emit (PL_TYPE_TAGGED_INTEGER # addInt64 v) I" "c = Done"
      using c None cr by (simp_all add: compile_cell_def)
    then have "cdata C = PL_TYPE_TAGGED_INTEGER # addInt64 v @ rest" using out by simp
    then have "copy_cell E C y = Some (put_cell y (WInt v) (C\<lparr>cdata := rest\<rparr>), Done)"
      using i(2) by (simp add: copy_cell_def fetchOpCode_def opcode_defs fetched_def fetch_addInt64)
    from sim_const [OF inv y r this] show ?thesis using WInt I' by simp
  next
    case (WIndirect t a)
    have ci: "compile_indirect E t a I = Some I'" and cd: "c = Done"
      using c None cr WIndirect by (auto simp: compile_cell_def split: option.splits)
    have h: "ind (rheap I) a = ind h0 a" by (simp add: src_invD(8) [OF src])
    have io: "indirect_ok E t (ind h0 a)" by (rule rec_data_okD(5) [OF ok WIndirect])
    then have I': "I' = emit (indirect_code E (external I) (ind h0 a)) (grow (indirect_words E (ind h0 a) + 2) I)"
      using ci compile_indirect_code [of E t I a] h by simp
    then have "cdata C = indirect_code E (external I) (ind h0 a) @ rest" using out by simp
    from sim_indirect [OF inv y r WIndirect copy_indirect [OF io this i(2)]]
    show ?thesis using I' cd by simp
  next
    case (WTerm f)
    show ?thesis
    proof (cases "marks I f")
      case (Some off)
      then have I': "I' = emit (PL_REC_CYCLE # size_int off) I" "c = Done" using c None cr WTerm by (simp_all add: compile_cell_def)
      have "off < gsize I" using i(11) [OF Some] by (auto simp: mark_image_def)
      moreover have "cdata C = PL_REC_CYCLE # size_int off @ rest" using out I' by simp
      ultimately have "copy_cell E C y = Some (put_cell y (WTerm (B + off)) (C\<lparr>cdata := rest\<rparr>), Done)"
        using i(1,2) I' lim(3) by (simp add: copy_cell_def fetchOpCode_def opcode_defs fetched_def)
      from sim_const [OF inv y r this] show ?thesis using WTerm I' Some by simp
    next
      case mk: None
      obtain fd bs where fd: "func (rheap I) f = Some (Functor fd)" and bs: "functor_code E (external I) fd = Some bs"
        and I': "I' = emit bs (grow (arity fd + 1) (mark_term f fd I))" "c = Args (argTermP f 0) (arity fd)"
        using c None cr WTerm mk by (auto simp: compile_cell_def addFunctor_code Let_def split: option.splits fword.splits)
      have f: "func h0 f = Some (Functor fd)" using src_invD(6) [OF src mk] fd by simp
      have d: "cdata C = bs @ rest" using out I' by simp
      have "arity fd < 2 ^ 31" using I' lim(3) by simp
      then obtain k where k: "copy_cell E C y = Some (put_term y fd (arity fd) (C\<lparr>cdata := rest, dicts := k\<rparr>))"
        using copy_functor_code [OF rec_data_okD(3) [OF ok f] rec_data_okD(4) [OF ok f] rec_data_okD(1) [OF ok] bs d i(2)] by blast
      have "p0 \<notin> {gstore C..<gstore C + arity fd + 1}" using p0 I' B by auto
      from sim_compound [OF inv y this r WTerm f mk k] show ?thesis using I' by simp
    qed
  next
    case (WRef q)
    then show ?thesis using derefs_end [OF r] by simp
  qed
qed

section \<open>The loops\<close>

lemma src_derefs_iff:
  assumes "src_inv h0 I"
  shows "derefs (rheap I) p r \<longleftrightarrow> derefs h0 p r"
proof
  show "derefs (rheap I) p r \<Longrightarrow> derefs h0 p r"
  proof (induction rule: derefs.induct)
    case (here p)
    then show ?case using src_invD(1,2) [OF assms, of p]
      by (cases "links I p") (auto simp: canBind_def isVar_def isAttVar.simps intro!: derefs.here elim: isRef.elims)
  next
    case (step p q r)
    then have "links I p = None" using src_invD(3) [OF assms, of p] by (cases "links I p") auto
    then show ?case using src_invD(1) [OF assms] step by (auto intro: derefs.step)
  qed
qed (rule src_derefs [OF assms])

definition grows :: "heap \<Rightarrow> compile_info \<Rightarrow> compile_info \<Rightarrow> bool" where
  "grows h0 I I' \<longleftrightarrow> (\<exists>out. code I' = code I @ out) \<and> gsize I \<le> gsize I' \<and> nvars I \<le> nvars I' \<and>
     external I' = external I \<and> src_inv h0 I'"

lemma grows_trans: "grows h0 I I' \<Longrightarrow> grows h0 I' I'' \<Longrightarrow> grows h0 I I''"
  by (auto simp: grows_def)

lemma emits_grows: "emits h0 I I' \<Longrightarrow> grows h0 I I'"
  by (auto simp: emits_def grows_def)

lemma compile_error:
  assumes src: "src_inv h0 I" and c: "compile_cell E I r = Some (Inl I')"
  shows "grows h0 I I' \<and> external I"
proof -
  have ext: "external I" if "atom_code E (external I) a = None \<or> functor_code E (external I) fd = None" for a fd
    using that by (auto simp: atom_code_def functor_code_def split: if_splits)
  consider a where "links I r = None" "cell (rheap I) r = WAtom a" | f where "links I r = None" "cell (rheap I) r = WTerm f"
    using c by (auto simp: compile_cell_def Let_def split: option.splits word.splits)
  then show ?thesis
  proof cases
    case 1
    then have "I' = I" "atom_code E (external I) a = None"
      using c by (auto simp: compile_cell_def addAtom_code split: option.splits)
    then show ?thesis using src ext by (auto simp: grows_def)
  next
    case 2
    then have mk: "marks I f = None" using c by (auto simp: compile_cell_def split: option.splits)
    obtain fd where fd: "func (rheap I) f = Some (Functor fd)" "functor_code E (external I) fd = None"
      and I': "I' = grow (arity fd + 1) (mark_term f fd I)"
      using c 2 mk by (auto simp: compile_cell_def addFunctor_code Let_def split: option.splits fword.splits)
    have "src_inv h0 (mark_term f fd I)" using src_mark [OF src mk] src_invD(6) [OF src mk] fd by simp
    then show ?thesis using I' fd ext by (auto simp: grows_def)
  qed
qed

lemma compile_grows:
  assumes src: "src_inv h0 I" and c: "compile_cell E I r = Some (Inr (I', c))" and r: "derefs h0 p r"
  shows "grows h0 I I'" "code I' \<noteq> []"
proof -
  have e: "emits h0 I I'" by (rule compile_emits [OF src c derefs_end [OF r]])
  show "grows h0 I I'" by (rule emits_grows [OF e])
  show "code I' \<noteq> []" using e by (auto simp: emits_def)
qed

text \<open>The three ways in which an iteration ends.\<close>

lemma compile_loop_cases:
  assumes "(case deRef (rheap I) p of
        None \<Rightarrow> None
      | Some p \<Rightarrow>
          (case compile_cell E I p of
             None \<Rightarrow> None
           | Some (Inl I) \<Rightarrow> Some (False, I)
           | Some (Inr (I, Again a)) \<Rightarrow> loop E I A a
           | Some (Inr (I, c)) \<Rightarrow>
               (case next_list Suc (case c of Args q n \<Rightarrow> push_on_list A n q | _ \<Rightarrow> A) of
                  None \<Rightarrow> Some (True, I)
                | Some (q, A) \<Rightarrow> loop E I A q))) = Some res"
  obtains (error) r I' where "derefs (rheap I) p r" "compile_cell E I r = Some (Inl I')" "res = (False, I')"
  | (last) r I' c where "derefs (rheap I) p r" "compile_cell E I r = Some (Inr (I', c))" "\<forall>a. c \<noteq> Again a"
      "next_list Suc (push_cont c A) = None" "res = (True, I')"
  | (again) r I' a where "derefs (rheap I) p r" "compile_cell E I r = Some (Inr (I', Again a))"
      "loop E I' A a = Some res"
  | (more) r I' c q A' where "derefs (rheap I) p r" "compile_cell E I r = Some (Inr (I', c))" "\<forall>a. c \<noteq> Again a"
      "next_list Suc (push_cont c A) = Some (q, A')" "loop E I' A' q = Some res"
proof -
  obtain r where r: "deRef (rheap I) p = Some r" using assms by (cases "deRef (rheap I) p") auto
  then have d: "derefs (rheap I) p r" using deRef_iff by blast
  obtain x where x: "compile_cell E I r = Some x" using assms r by (cases "compile_cell E I r") auto
  show thesis
  proof (cases x)
    case (Inl I')
    then show ?thesis using error [OF d] x assms r by simp
  next
    case (Inr y)
    obtain I' c where y: "y = (I', c)" by (cases y)
    show ?thesis
    proof (cases "\<exists>a. c = Again a")
      case True
      then show ?thesis using again [OF d] x assms r Inr y by auto
    next
      case False
      then have n: "(case next_list Suc (push_cont c A) of None \<Rightarrow> Some (True, I') | Some (q, A) \<Rightarrow> loop E I' A q) = Some res"
        using assms r x Inr y by (cases c) (simp_all add: push_cont_def)
      show ?thesis
      proof (cases "next_list Suc (push_cont c A)")
        case None
        then show ?thesis using last [OF d _ _ None] x n Inr y False by auto
      next
        case (Some qA)
        obtain q A' where qA: "qA = (q, A')" by (cases qA)
        then show ?thesis using more [OF d _ _ _, of I' c q A'] Some x n Inr y False by auto
      qed
    qed
  qed
qed

inductive compile_run :: "rec_env \<Rightarrow> compile_info \<Rightarrow> agenda1 \<Rightarrow> addr \<Rightarrow> bool \<times> compile_info \<Rightarrow> bool" for E where
  error: "derefs (rheap I) p r \<Longrightarrow> compile_cell E I r = Some (Inl I') \<Longrightarrow> compile_run E I A p (False, I')"
| last: "derefs (rheap I) p r \<Longrightarrow> compile_cell E I r = Some (Inr (I', c)) \<Longrightarrow> \<forall>a. c \<noteq> Again a \<Longrightarrow>
    next_list Suc (push_cont c A) = None \<Longrightarrow> compile_run E I A p (True, I')"
| again: "derefs (rheap I) p r \<Longrightarrow> compile_cell E I r = Some (Inr (I', Again a)) \<Longrightarrow> compile_run E I' A a res \<Longrightarrow>
    compile_run E I A p res"
| more: "derefs (rheap I) p r \<Longrightarrow> compile_cell E I r = Some (Inr (I', c)) \<Longrightarrow> \<forall>a. c \<noteq> Again a \<Longrightarrow>
    next_list Suc (push_cont c A) = Some (q, A') \<Longrightarrow> compile_run E I' A' q res \<Longrightarrow> compile_run E I A p res"

lemma compile_loop_run: "compile_loop E I A p = Some res \<Longrightarrow> compile_run E I A p res"
proof (erule compile_loop.raw_induct [where P = compile_run, rotated], goal_cases)
  case (1 loop E I A p res)
  from 1(2) show ?case
  proof (cases rule: compile_loop_cases)
    case (again r I' a)
    then show ?thesis using 1(1) compile_run.again by blast
  next
    case (more r I' c q A')
    then show ?thesis using 1(1) compile_run.more by blast
  qed (blast intro: compile_run.intros)+
qed

lemma compile_run_loop: "compile_run E I A p res \<Longrightarrow> compile_loop E I A p = Some res"
proof (induction rule: compile_run.induct)
  case (last I p r I' c A)
  then show ?case
    by (subst compile_loop.simps) (cases c; simp add: push_cont_def flip: deRef_iff)
next
  case (more I p r I' c A q A' res)
  then show ?case
    by (subst compile_loop.simps) (cases c; simp add: push_cont_def flip: deRef_iff)
qed (subst compile_loop.simps, simp flip: deRef_iff)+

lemma compile_run_grows:
  "compile_run E I A p res \<Longrightarrow> src_inv h0 I \<Longrightarrow> grows h0 I (snd res) \<and> (fst res \<or> external I)"
proof (induction rule: compile_run.induct)
  case (error I p r I' A)
  then show ?case using compile_error by simp
next
  case (last I p r I' c A)
  then show ?case using compile_grows(1) src_derefs_iff by auto
next
  case (again I p r I' a A res)
  then have "grows h0 I I'" using compile_grows(1) src_derefs_iff by blast
  then show ?case using again.IH grows_trans by (auto simp: grows_def)
next
  case (more I p r I' c A q A' res)
  then have "grows h0 I I'" using compile_grows(1) src_derefs_iff by blast
  then show ?case using more.IH grows_trans by (auto simp: grows_def)
qed

lemma copy_loop_step:
  assumes "copy_cell E C y = Some (C', c)"
  shows "c = Again q \<Longrightarrow> copy_loop E C A y = copy_loop E C' A q"
    and "\<forall>a. c \<noteq> Again a \<Longrightarrow> copy_loop E C A y =
      (case next_list Suc (push_cont c A) of None \<Rightarrow> Some C' | Some (q, A) \<Rightarrow> copy_loop E C' A q)"
  by (subst copy_loop.simps; cases c; simp add: assms push_cont_def)+

lemma cont_targets: "\<forall>a. c \<noteq> Again a \<Longrightarrow> cont_cells c = targets c"
  by (cases c) (simp_all add: cont_cells_def targets_def)

lemma same_kind_length: "same_kind c c' \<Longrightarrow> length (targets c) = length (targets c')"
  by (cases c; cases c') (simp_all add: same_kind_def targets_def)

text \<open>
  The agendas of the two loops, their current cells first: the pairs that wait, whose targets are
  separate cells of the copy that have not been written.
\<close>

definition sim_state :: "heap \<Rightarrow> addr \<Rightarrow> addr \<Rightarrow> heap \<Rightarrow> compile_info \<Rightarrow> copy_info \<Rightarrow>
    (addr \<times> addr) set \<Rightarrow> addr list \<Rightarrow> addr list \<Rightarrow> addr set \<Rightarrow> bool" where
  "sim_state h0 B p0 g0 I C D xs ys W \<longleftrightarrow> src_inv h0 I \<and>
     dst_inv h0 B p0 g0 I C D (set (zip xs ys)) W \<and> length xs = length ys \<and> distinct ys \<and>
     set ys \<inter> W = {} \<and> set ys \<subseteq> insert p0 {B..<gstore C}"

lemma sim_next:
  assumes s: "sim_state h0 B p0 g0 I C D (x # xs) (y # ys) W" and ok: "rec_data_ok E h0"
    and r: "derefs h0 x r" and c: "compile_cell E I r = Some (Inr (I', c))"
    and first: "code I = [] \<Longrightarrow> \<not> isAttVar (cell h0 r)"
    and lim: "nvars I' \<le> cnvars C" "cnvars C < 2 ^ 31" "gsize I' < 2 ^ 31" "p0 \<notin> {gstore C..<B + gsize I'}"
    and out: "code I' = code I @ out" "cdata C = out @ rest"
  obtains C' c' W' where "copy_cell E C y = Some (C', c')" "cdata C' = rest" "cnvars C' = cnvars C" "same_kind c c'"
    "sim_state h0 B p0 g0 I' C' (insert (x, y) D) (targets c @ xs) (targets c' @ ys) W'"
proof -
  note st = s [unfolded sim_state_def]
  have src: "src_inv h0 I" using st by blast
  have inv: "dst_inv h0 B p0 g0 I C D (insert (x, y) (set (zip xs ys))) W" using st by simp
  have y: "y \<notin> W" "y \<in> insert p0 {B..<gstore C}" using st by auto
  have B: "gstore C = B + gsize I" by (rule dst_invD(3) [OF inv])
  note p0 = lim(4)
  have "sim_step E h0 B p0 g0 C D (set (zip xs ys)) W (x, y) rest I' c"
    by (rule sim_cell [OF src inv ok y p0 r c first lim(1-3) out])
  then obtain C' c' W' where s': "copy_cell E C y = Some (C', c')" "cdata C' = rest" "cnvars C' = cnvars C"
    "same_kind c c'" "dst_inv h0 B p0 g0 I' C' (insert (x, y) D) (set (zip (targets c) (targets c')) \<union> set (zip xs ys)) W'"
    "set (targets c') \<subseteq> {gstore C..<gstore C'}" "set (targets c') \<inter> W' = {}"
    "W' \<subseteq> insert y W \<union> {gstore C..<gstore C'}"
    unfolding sim_step_def snd_conv by blast
  have src': "src_inv h0 I'" and g: "gsize I \<le> gsize I'" using compile_grows(1) [OF src c r] by (simp_all add: grows_def)
  have B': "gstore C' = B + gsize I'" by (rule dst_invD(3) [OF s'(5)])
  have ys: "set ys \<inter> {gstore C..<gstore C'} = {}"
  proof -
    have "z \<in> insert p0 {B..<gstore C}" if "z \<in> set ys" for z using st that by auto
    then show ?thesis using p0 B' by fastforce
  qed
  have "sim_state h0 B p0 g0 I' C' (insert (x, y) D) (targets c @ xs) (targets c' @ ys) W'"
    unfolding sim_state_def
  proof (intro conjI)
    show "dst_inv h0 B p0 g0 I' C' (insert (x, y) D) (set (zip (targets c @ xs) (targets c' @ ys))) W'"
      using s'(5) same_kind_length [OF s'(4)] by simp
    show "length (targets c @ xs) = length (targets c' @ ys)" using same_kind_length [OF s'(4)] st by simp
    have "distinct (targets c')" by (cases c') (simp_all add: targets_def)
    then show "distinct (targets c' @ ys)" using st s'(6) ys by auto
    show "set (targets c' @ ys) \<inter> W' = {}" using st s'(6-8) ys by auto
    show "set (targets c' @ ys) \<subseteq> insert p0 {B..<gstore C'}" using st s'(6) B B' g by auto
  qed (rule src')
  then show thesis using that s'(1-4) by blast
qed

text \<open>One iteration, and what it leaves for the next ones.\<close>

definition sim_done :: "rec_env \<Rightarrow> heap \<Rightarrow> addr \<Rightarrow> addr \<Rightarrow> heap \<Rightarrow> compile_info \<Rightarrow> copy_info \<Rightarrow>
    agenda1 \<Rightarrow> addr \<Rightarrow> (addr \<times> addr) set \<Rightarrow> bool" where
  "sim_done E h0 B p0 g0 J C A y D \<longleftrightarrow> (\<exists>C' D' W'. copy_loop E C A y = Some C' \<and> cdata C' = [] \<and> D \<subseteq> D' \<and>
      sim_state h0 B p0 g0 J C' D' [] [] W')"

definition sim_start :: "heap \<Rightarrow> addr \<Rightarrow> addr \<Rightarrow> heap \<Rightarrow> compile_info \<Rightarrow> compile_info \<Rightarrow> copy_info \<Rightarrow>
    agenda1 \<Rightarrow> agenda1 \<Rightarrow> addr \<Rightarrow> addr \<Rightarrow> (addr \<times> addr) set \<Rightarrow> bool" where
  "sim_start h0 B p0 g0 J I C A A' x y D \<longleftrightarrow> (\<exists>W. sim_state h0 B p0 g0 I C D (x # cells A) (y # cells A') W) \<and>
     (code I = [] \<longrightarrow> (\<forall>r. derefs h0 x r \<longrightarrow> \<not> isAttVar (cell h0 r))) \<and> works_ok A \<and> works_ok A' \<and>
     nvars J \<le> cnvars C \<and> cnvars C < 2 ^ 31 \<and> gsize J < 2 ^ 31 \<and> p0 \<notin> {gstore C..<B + gsize J} \<and> code J = code I @ cdata C"

lemma sim_iteration:
  assumes st: "sim_start h0 B p0 g0 J I C A A' x y D" and ok: "rec_data_ok E h0"
    and r: "derefs (rheap I) x r" and c: "compile_cell E I r = Some (Inr (I', c))" and J: "grows h0 I' J"
    and nxt: "case c of Again q \<Rightarrow> goal I' A q | _ \<Rightarrow> (case next_list Suc (push_cont c A) of
        None \<Rightarrow> J = I' | Some (q, A2) \<Rightarrow> goal I' A2 q)"
    and goal: "\<And>A2 A3 q C' y' D. goal I' A2 q \<Longrightarrow> sim_start h0 B p0 g0 J I' C' A2 A3 q y' D \<Longrightarrow>
        sim_done E h0 B p0 g0 J C' A3 y' (insert (q, y') D)"
  shows "sim_done E h0 B p0 g0 J C A' y (insert (x, y) D)"
proof -
  obtain W where sim: "sim_state h0 B p0 g0 I C D (x # cells A) (y # cells A') W" and A: "works_ok A" "works_ok A'"
    and first: "code I = [] \<longrightarrow> (\<forall>r. derefs h0 x r \<longrightarrow> \<not> isAttVar (cell h0 r))"
    and lim: "nvars J \<le> cnvars C" "cnvars C < 2 ^ 31" "gsize J < 2 ^ 31" "p0 \<notin> {gstore C..<B + gsize J}"
    and code: "code J = code I @ cdata C"
    using st unfolding sim_start_def by blast
  have src: "src_inv h0 I" using sim by (simp add: sim_state_def)
  have r0: "derefs h0 x r" using r src_derefs_iff [OF src] by blast
  have g: "grows h0 I I'" "code I' \<noteq> []" using compile_grows [OF src c r0] by blast+
  obtain out where out: "code I' = code I @ out" using g by (auto simp: grows_def)
  obtain rest where rest: "code J = code I' @ rest" using J by (auto simp: grows_def)
  have data: "cdata C = out @ rest" using code out rest by simp
  have l: "nvars I' \<le> cnvars C" "gsize I' < 2 ^ 31" "p0 \<notin> {gstore C..<B + gsize I'}"
    using lim J by (auto simp: grows_def)
  obtain C' c' W' where s: "copy_cell E C y = Some (C', c')" "cdata C' = rest" "cnvars C' = cnvars C" "same_kind c c'"
    "sim_state h0 B p0 g0 I' C' (insert (x, y) D) (targets c @ cells A) (targets c' @ cells A') W'"
    using sim_next [OF sim ok r0 c _ l(1) lim(2) l(2,3) out data] first r0 by blast
  have "gstore C = B + gsize I" "gstore C' = B + gsize I'"
    using sim s(5) dst_invD(3) unfolding sim_state_def by blast+
  then have up: "gstore C \<le> gstore C'" using g by (simp add: grows_def)
  have on: "sim_done E h0 B p0 g0 J C' A3 y' (insert (x, y) D)"
    if "targets c @ cells A = q # cells A2" "targets c' @ cells A' = y' # cells A3" "works_ok A2" "works_ok A3"
      "goal I' A2 q" for q y' A2 A3
  proof -
    have "sim_start h0 B p0 g0 J I' C' A2 A3 q y' (insert (x, y) D)"
      unfolding sim_start_def using s(2,3,5) that lim rest g(2) up by auto
    from goal [OF that(5) this] show ?thesis unfolding sim_done_def by blast
  qed
  show ?thesis
  proof (cases "\<exists>a. c = Again a")
    case True
    then obtain q q' where q: "c = Again q" "c' = Again q'"
      using s(4) by (cases c') (auto simp: same_kind_def)
    have "sim_done E h0 B p0 g0 J C' A' q' (insert (x, y) D)"
      by (rule on [of q A]) (use q A nxt in \<open>simp_all add: targets_def\<close>)
    then show ?thesis using copy_loop_step(1) [OF s(1) q(2)] by (simp add: sim_done_def)
  next
    case False
    then have nc': "\<forall>a. c' \<noteq> Again a" using s(4) by (cases c; cases c') (auto simp: same_kind_def)
    note n = next_cont [OF A(1), of c] and n' = next_cont [OF A(2), of c']
    note step = copy_loop_step(2) [OF s(1) nc', of A']
    have len: "length (targets c @ cells A) = length (targets c' @ cells A')" using s(5) by (simp add: sim_state_def)
    have tc: "cont_cells c = targets c" "cont_cells c' = targets c'" using False nc' cont_targets by blast+
    have nxt: "case next_list Suc (push_cont c A) of None \<Rightarrow> J = I' | Some (q, A2) \<Rightarrow> goal I' A2 q"
      using nxt False by (cases c) auto
    show ?thesis
    proof (cases "next_list Suc (push_cont c A)")
      case None
      then have e: "targets c @ cells A = []" using n tc by simp
      then have e': "targets c' @ cells A' = []" using len by simp
      then have "next_list Suc (push_cont c' A') = None" using n' tc by (auto split: option.splits)
      then have "copy_loop E C A' y = Some C'" using step by simp
      moreover have "J = I'" "rest = []" using nxt None rest by simp_all
      moreover have "sim_state h0 B p0 g0 I' C' (insert (x, y) D) [] [] W'" using s(5) unfolding e e' .
      ultimately show ?thesis using s(2) unfolding sim_done_def by blast
    next
      case (Some qA)
      then obtain q A2 where k: "qA = (q, A2)" "goal I' A2 q" using nxt by (cases qA) auto
      then have a: "works_ok A2" "targets c @ cells A = q # cells A2" using n tc Some by auto
      then have "targets c' @ cells A' \<noteq> []" using len by auto
      then obtain y' A3 where y': "next_list Suc (push_cont c' A') = Some (y', A3)" "works_ok A3"
        "targets c' @ cells A' = y' # cells A3"
        using n' tc by (auto split: option.splits)
      have "sim_done E h0 B p0 g0 J C' A3 y' (insert (x, y) D)" by (rule on [OF a(2) y'(3) a(1) y'(2) k(2)])
      then show ?thesis using step y'(1) by (simp add: sim_done_def)
    qed
  qed
qed

lemma copy_loop_sim:
  assumes "compile_run E I A x res" and ok: "rec_data_ok E h0"
  shows "fst res \<Longrightarrow> sim_start h0 B p0 g0 (snd res) I C A A' x y D \<Longrightarrow>
    sim_done E h0 B p0 g0 (snd res) C A' y (insert (x, y) D)"
  using assms(1)
proof (induction arbitrary: C A' y D rule: compile_run.induct)
  case (last I x r I' c A)
  have src: "src_inv h0 I" using last.prems by (auto simp: sim_start_def sim_state_def)
  have "grows h0 I' I'" using compile_grows(1) [OF src last(2)] src_derefs_iff [OF src] last(1) by (auto simp: grows_def)
  then show ?case
    using sim_iteration [OF last.prems(2) [unfolded snd_conv] ok last(1,2), where goal = "\<lambda>_ _ _. False"] last(3,4)
    by (cases c) auto
next
  case (again I x r I' a A res)
  have src: "src_inv h0 I" using again.prems by (auto simp: sim_start_def sim_state_def)
  have "src_inv h0 I'" using compile_grows(1) [OF src again(2)] src_derefs_iff [OF src] again(1) by (auto simp: grows_def)
  then have "grows h0 I' (snd res)" using compile_run_grows [OF again(3)] by blast
  then show ?case
    by (rule sim_iteration [OF again.prems(2) ok again(1,2), where goal = "\<lambda>J B q. J = I' \<and> B = A \<and> q = a"])
      (use again.IH again.prems in auto)
next
  case (more I x r I' c A q A2 res)
  have src: "src_inv h0 I" using more.prems by (auto simp: sim_start_def sim_state_def)
  have "src_inv h0 I'" using compile_grows(1) [OF src more(2)] src_derefs_iff [OF src] more(1) by (auto simp: grows_def)
  then have "grows h0 I' (snd res)" using compile_run_grows [OF more(5)] by blast
  then show ?case
    by (rule sim_iteration [OF more.prems(2) ok more(1,2), where goal = "\<lambda>J B p. J = I' \<and> B = A2 \<and> p = q"])
      (use more.IH more.prems more.hyps in \<open>auto split: cont.split\<close>)
qed simp

end
