(* ===== verification/PL_RecordCopy.thy ===== *)
theory PL_RecordCopy
  imports PL_RecordSim
begin

text \<open>
  What records keep: compiling ends and restores the heap, a record's size is bounded by its code,
  and loading it, from the internal or the external format, gives a copy of the term, with its sharing
  and cycles. Scanning a record meets its atoms.
\<close>

section \<open>Compiling returns\<close>

text \<open>A finite set of cells that holds a term: closed under references, attributes and arguments.\<close>

definition term_cells :: "heap \<Rightarrow> addr set \<Rightarrow> bool" where
  "term_cells h S \<longleftrightarrow> finite S \<and> (\<forall>x\<in>S. \<exists>r\<in>S. derefs h x r \<and>
     (case cell h r of
        WAttVar a \<Rightarrow> a \<in> S
      | WTerm f \<Rightarrow> \<exists>fd. func h f = Some (Functor fd) \<and> (\<forall>i<arity fd. argTermP f i \<in> S)
      | _ \<Rightarrow> True))"

definition unseen :: "heap \<Rightarrow> addr set \<Rightarrow> compile_info \<Rightarrow> nat" where
  "unseen h S I = card {r \<in> S. links I r = None} + card {f. (\<exists>r\<in>S. cell h r = WTerm f) \<and> marks I f = None}"

lemma finite_terms: "finite S \<Longrightarrow> finite {f. (\<exists>r\<in>S. cell h r = WTerm f) \<and> P f}"
proof -
  assume "finite S"
  then have "finite ((\<lambda>r. case cell h r of WTerm f \<Rightarrow> f | _ \<Rightarrow> 0) ` S)" by simp
  then show ?thesis by (rule rev_finite_subset) (force simp: image_iff split: word.split)
qed

lemma unseen_link:
  assumes "finite S" "r \<in> S" "links I r = None" "links I' = (links I)(r \<mapsto> n)" "marks I' = marks I"
  shows "unseen h S I' < unseen h S I"
proof -
  have "card {x \<in> S. links I' x = None} < card {x \<in> S. links I x = None}"
    using assms by (intro psubset_card_mono) auto
  then show ?thesis by (simp add: unseen_def assms(5))
qed

lemma unseen_mark:
  assumes "finite S" "r \<in> S" "cell h r = WTerm f" "marks I f = None" "links I' = links I" "marks I' = (marks I)(f \<mapsto> n)"
  shows "unseen h S I' < unseen h S I"
proof -
  have "card {f. (\<exists>r\<in>S. cell h r = WTerm f) \<and> marks I' f = None} < card {f. (\<exists>r\<in>S. cell h r = WTerm f) \<and> marks I f = None}"
    using assms finite_terms [OF assms(1)] by (intro psubset_card_mono) auto
  then show ?thesis by (simp add: unseen_def assms(5))
qed

lemma unseen_same: "unseen h S (emit bs I) = unseen h S I" "unseen h S (grow n I) = unseen h S I"
  "unseen h S (add_locked E a I) = unseen h S I"
  by (simp_all add: unseen_def)

lemma compile_cell_returns:
  assumes src: "src_inv h0 I" and ok: "rec_data_ok E h0" and S: "term_cells h0 S" "r \<in> S" and r: "derefs h0 x r"
  shows "(\<exists>I'. compile_cell E I r = Some (Inl I')) \<or>
    (\<exists>I' c. compile_cell E I r = Some (Inr (I', c)) \<and> set (targets c) \<subseteq> S \<and>
       (unseen h0 S I' < unseen h0 S I \<or> c = Done \<and> unseen h0 S I' = unseen h0 S I))"
proof (cases "links I r")
  case (Some n)
  then show ?thesis by (simp add: compile_cell_def targets_def unseen_same)
next
  case None
  have fin: "finite S" using S by (simp add: term_cells_def)
  have cr: "cell (rheap I) r = cell h0 r" by (rule src_invD(1) [OF src None])
  have rr: "derefs h0 r r" using derefs_end [OF r] by (rule derefs.here)
  have S': "case cell h0 r of WAttVar a \<Rightarrow> a \<in> S
      | WTerm f \<Rightarrow> \<exists>fd. func h0 f = Some (Functor fd) \<and> (\<forall>i<arity fd. argTermP f i \<in> S) | _ \<Rightarrow> True"
    using S derefs_unique [OF rr] unfolding term_cells_def by blast
  have less: "unseen h0 S I' < unseen h0 S I" if "links I' = (links I)(r \<mapsto> n)" "marks I' = marks I" for I' n
    using unseen_link [OF fin S(2) None that] .
  show ?thesis
  proof (cases "cell h0 r")
    case WVar
    then show ?thesis using None cr less by (simp add: compile_cell_def Let_def targets_def)
  next
    case (WAttVar a)
    then show ?thesis using None cr less S' by (simp add: compile_cell_def Let_def targets_def)
  next
    case (WAtom a)
    then show ?thesis using None cr
      by (auto simp: compile_cell_def addAtom_code targets_def unseen_same split: option.split)
  next
    case (WInt i)
    then show ?thesis using None cr by (simp add: compile_cell_def targets_def unseen_same)
  next
    case (WIndirect t a)
    have "indirect_ok E t (ind (rheap I) a)" using rec_data_okD(5) [OF ok WIndirect] src_invD(8) [OF src] by simp
    then show ?thesis using None cr WIndirect
      by (simp add: compile_cell_def compile_indirect_code targets_def unseen_same)
  next
    case (WTerm f)
    show ?thesis
    proof (cases "marks I f")
      case (Some off)
      then show ?thesis using None cr WTerm by (simp add: compile_cell_def targets_def unseen_same)
    next
      case mk: None
      obtain fd where fd: "func h0 f = Some (Functor fd)" "\<forall>i<arity fd. argTermP f i \<in> S" using S' WTerm by auto
      then have fd': "func (rheap I) f = Some (Functor fd)" using src_invD(6) [OF src mk] by simp
      show ?thesis
      proof (cases "functor_code E (external I) fd")
        case fc: None
        then show ?thesis using None cr WTerm mk fd' by (simp add: compile_cell_def addFunctor_code Let_def)
      next
        case (Some bs)
        have "z \<in> S" if "z \<in> set [argTermP f 0..<argTermP f 0 + arity fd]" for z
        proof -
          have "z = argTermP f (z - Suc f)" "z - Suc f < arity fd" using that by (auto simp: argTermP_def)
          then show ?thesis using fd(2) by metis
        qed
        then have "set (targets (Args (argTermP f 0) (arity fd))) \<subseteq> S" by (auto simp: targets_def)
        moreover have "unseen h0 S (emit bs (grow (arity fd + 1) (mark_term f fd I))) < unseen h0 S I"
          by (rule unseen_mark [OF fin S(2) WTerm mk]) simp_all
        ultimately show ?thesis using None cr WTerm mk fd' Some by (simp add: compile_cell_def addFunctor_code Let_def)
      qed
    qed
  next
    case (WRef q)
    then show ?thesis using derefs_end [OF r] by simp
  qed
qed

lemma compile_run_returns:
  assumes ok: "rec_data_ok E h0" and S: "term_cells h0 S"
  shows "src_inv h0 I \<Longrightarrow> works_ok A \<Longrightarrow> x \<in> S \<Longrightarrow> set (cells A) \<subseteq> S \<Longrightarrow> \<exists>res. compile_run E I A x res"
proof (induction "(unseen h0 S I, length (cells A))" arbitrary: I A x
    rule: wf_induct_rule [OF wf_lex_prod [OF wf_less_than wf_less_than]])
  case 1
  note src = 1(2) and A = 1(3,5)
  obtain r where r: "r \<in> S" "derefs h0 x r" using S 1(4) unfolding term_cells_def by blast
  have d: "derefs (rheap I) x r" using r(2) src_derefs_iff [OF src] by blast
  consider I' where "compile_cell E I r = Some (Inl I')"
    | I' c where "compile_cell E I r = Some (Inr (I', c))" "set (targets c) \<subseteq> S"
        "unseen h0 S I' < unseen h0 S I \<or> c = Done \<and> unseen h0 S I' = unseen h0 S I"
    using compile_cell_returns [OF src ok S r] by blast
  then show ?case
  proof cases
    case 1
    then show ?thesis using compile_run.error [OF d] by blast
  next
    case 2
    have src': "src_inv h0 I'" using compile_grows(1) [OF src 2(1) r(2)] by (simp add: grows_def)
    show ?thesis
    proof (cases "\<exists>a. c = Again a")
      case True
      then obtain a where a: "c = Again a" by blast
      then have "\<exists>res. compile_run E I' A a res"
        using 1(1) [of I' A a] 2 src' A by (auto simp: targets_def)
      then show ?thesis using compile_run.again [OF d] 2(1) a by blast
    next
      case False
      then have na: "\<forall>a. c \<noteq> Again a" by blast
      note n = next_cont [OF A(1), of c]
      show ?thesis
      proof (cases "next_list Suc (push_cont c A)")
        case None
        then show ?thesis using compile_run.last [OF d 2(1) na] by blast
      next
        case (Some qA)
        then obtain q A' where q: "next_list Suc (push_cont c A) = Some (q, A')" by (cases qA) auto
        then have q': "works_ok A'" "targets c @ cells A = q # cells A'" using n cont_targets [OF na] by auto
        have "set (q # cells A') \<subseteq> S" unfolding q'(2) [symmetric] using 2(2) A(2) by simp
        moreover have "((unseen h0 S I', length (cells A')), unseen h0 S I, length (cells A)) \<in> less_than <*lex*> less_than"
          using 2(3)
        proof
          assume "c = Done \<and> unseen h0 S I' = unseen h0 S I"
          then show ?thesis using q'(2) by (simp add: targets_def)
        qed simp
        ultimately have "\<exists>res. compile_run E I' A' q res"
          using 1(1) [of I' A' q] src' q'(1) by simp
        then show ?thesis using compile_run.more [OF d 2(1) na q] by blast
      qed
    qed
  qed
qed

section \<open>Copies\<close>

text \<open>
  A copy up to the names of variables: \<open>R\<close> relates cells, \<open>V\<close> variables one to one, and every
  compound has one image \<open>F\<close>, so that sharing and cycles are kept.
\<close>

definition cells_match :: "heap \<Rightarrow> heap \<Rightarrow> (addr \<times> addr) set \<Rightarrow> (addr \<times> addr) set \<Rightarrow> (addr \<Rightarrow> addr) \<Rightarrow> addr \<Rightarrow> addr \<Rightarrow> bool" where
  "cells_match h g R V F r s = (case cell h r of
     WVar \<Rightarrow> cell g s = WVar \<and> (r, s) \<in> V
   | WAttVar a \<Rightarrow> \<exists>b. cell g s = WAttVar b \<and> (a, b) \<in> R \<and> (r, s) \<in> V
   | WTerm f \<Rightarrow> cell g s = WTerm (F f) \<and>
       (\<exists>fd. func h f = Some (Functor fd) \<and> func g (F f) = Some (Functor fd) \<and>
         (\<forall>i<arity fd. (argTermP f i, argTermP (F f) i) \<in> R))
   | WIndirect t a \<Rightarrow> \<exists>b. cell g s = WIndirect t b \<and> ind g b = ind h a
   | WRef _ \<Rightarrow> False
   | w \<Rightarrow> cell g s = w)"

definition copy_relation :: "heap \<Rightarrow> heap \<Rightarrow> (addr \<times> addr) set \<Rightarrow> (addr \<times> addr) set \<Rightarrow> (addr \<Rightarrow> addr) \<Rightarrow> bool" where
  "copy_relation h g R V F \<longleftrightarrow>
     (\<forall>r s r' s'. (r, s) \<in> V \<longrightarrow> (r', s') \<in> V \<longrightarrow> (r = r') = (s = s')) \<and>
     (\<forall>x y. (x, y) \<in> R \<longrightarrow> (\<exists>r s. derefs h x r \<and> derefs g y s \<and> cells_match h g R V F r s))"

definition is_copy :: "heap \<Rightarrow> addr \<Rightarrow> heap \<Rightarrow> addr \<Rightarrow> bool" where
  "is_copy h x g y \<longleftrightarrow> (\<exists>R V F. (x, y) \<in> R \<and> copy_relation h g R V F)"

lemma cells_match_mono: "cells_match h g R V F r s \<Longrightarrow> R \<subseteq> R' \<Longrightarrow> cells_match h g R' V F r s"
  unfolding cells_match_def by (auto split: word.splits)

lemma is_copy_ref:
  assumes "is_copy h x g q" "cell g y = WRef q"
  shows "is_copy h x g y"
proof -
  obtain R V F where c: "(x, q) \<in> R" "copy_relation h g R V F" using assms(1) by (auto simp: is_copy_def)
  have "\<exists>r s. derefs h a r \<and> derefs g b s \<and> cells_match h g (insert (x, y) R) V F r s" if "(a, b) \<in> insert (x, y) R" for a b
  proof -
    define b' where "b' = (if (a, b) = (x, y) then q else b)"
    have "(a, b') \<in> R" using that c(1) by (auto simp: b'_def)
    then obtain r s where rs: "derefs h a r" "derefs g b' s" "cells_match h g R V F r s"
      using c(2) unfolding copy_relation_def by blast
    have "derefs g b s"
      using rs(2) derefs.step [OF assms(2)] by (cases "(a, b) = (x, y)") (auto simp: b'_def)
    then show ?thesis using rs cells_match_mono [OF rs(3)] by blast
  qed
  then have "copy_relation h g (insert (x, y) R) V F" using c(2) unfolding copy_relation_def by blast
  then show ?thesis unfolding is_copy_def by blast
qed

lemma sim_state_copy:
  assumes "sim_state h0 B p0 g0 I C D [] [] W" "(x, y) \<in> D"
  shows "is_copy h0 x (gheap C) y"
proof -
  have src: "src_inv h0 I" and inv: "dst_inv h0 B p0 g0 I C D {} W" using assms(1) by (simp_all add: sim_state_def)
  note i = dst_invD [OF inv]
  define V where "V = {(r, s). \<exists>n. links I r = Some n \<and> var_end C n s}"
  define F where "F = (\<lambda>f. B + the (marks I f))"
  have end_unique: "s = s'" if "var_end C n s" "var_end C n s'" for n s s'
    using that derefs_unique by (fastforce simp: var_end_def)
  have one: "(r = r') = (s = s')" if rs: "(r, s) \<in> V" "(r', s') \<in> V" for r s r' s'
  proof -
    obtain n n' where n: "links I r = Some n" "var_end C n s" "links I r' = Some n'" "var_end C n' s'"
      using rs by (auto simp: V_def)
    show ?thesis
    proof
      assume "r = r'"
      then show "s = s'" using n end_unique by simp
    next
      assume "s = s'"
      then have "n = n'" using n i(9) by blast
      then show "r = r'" using n src_invD(5) [OF src] by blast
    qed
  qed
  have image: "var_image h0 C D r s" if "links I r = Some n" "var_end C n s" for r n s
    using i(10) [OF that(1)] end_unique that(2) by auto
  have "\<exists>r s. derefs h0 a r \<and> derefs (gheap C) b s \<and> cells_match h0 (gheap C) D V F r s" if "(a, b) \<in> D" for a b
  proof -
    obtain r s where rs: "derefs h0 a r" "derefs (gheap C) b s" "matches h0 B I C r s" using i(13) [OF \<open>(a, b) \<in> D\<close>] by blast
    have "cells_match h0 (gheap C) D V F r s"
    proof (cases "cell h0 r")
      case WVar
      then obtain n where n: "links I r = Some n" "var_end C n s" using rs(3) by (auto simp: matches_def)
      then show ?thesis using image [OF n] WVar by (auto simp: cells_match_def var_image_def V_def)
    next
      case (WAttVar a)
      then obtain n where n: "links I r = Some n" "var_end C n s" using rs(3) by (auto simp: matches_def)
      then have "(r, s) \<in> V" by (auto simp: V_def)
      then show ?thesis using image [OF n] WAttVar by (auto simp: cells_match_def var_image_def)
    next
      case (WTerm f)
      then obtain off where off: "marks I f = Some off" "cell (gheap C) s = WTerm (B + off)" using rs(3) by (auto simp: matches_def)
      then show ?thesis using WTerm i(11) [OF off(1)] by (auto simp: cells_match_def mark_image_def F_def)
    qed (use rs(3) in \<open>auto simp: cells_match_def matches_def\<close>)
    then show ?thesis using rs by blast
  qed
  then have "copy_relation h0 (gheap C) D V F" using one unfolding copy_relation_def by blast
  then show ?thesis using assms(2) unfolding is_copy_def by blast
qed

section \<open>Compiling and copying\<close>

lemma src_start: "src_inv h (start_info ext lck h)"
  by (simp add: src_inv_def start_info_def)

lemma works_start: "works_ok [(t, 0)]" "cells [(t, 0)] = []" "works_ok []" "cells [] = []"
  by (simp_all add: works_ok_def cells_def)

lemma compile_term_run:
  assumes "compile_term E ext lck h t = Some (rc, I, h')"
  shows "compile_run E (start_info ext lck h) [(Suc t, 0)] t (rc, I)" "h' = h"
    and "grows h (start_info ext lck h) I" "rc \<or> ext"
proof -
  have l: "compile_loop E (start_info ext lck h) [(Suc t, 0)] t = Some (rc, I)"
    "h' = unvisit (lmarks I) (restoreVars (vars I) (rheap I))"
    using assms by (auto simp: compile_term_def)
  then show run: "compile_run E (start_info ext lck h) [(Suc t, 0)] t (rc, I)" by (intro compile_loop_run) simp
  have g: "grows h (start_info ext lck h) I \<and> (rc \<or> ext)"
    using compile_run_grows [OF run src_start] by (simp add: start_info_def)
  then show "grows h (start_info ext lck h) I" "rc \<or> ext" by simp_all
  have "src_inv h I" using g by (simp add: grows_def)
  from src_invD(9) [OF this] show "h' = h" using l(2) by simp
qed

definition same_outside :: "heap \<Rightarrow> heap \<Rightarrow> addr \<Rightarrow> addr \<Rightarrow> addr \<Rightarrow> bool" where
  "same_outside g g' p a b \<longleftrightarrow> (\<forall>z. z \<noteq> p \<longrightarrow> z \<notin> {a..<b} \<longrightarrow>
     cell g' z = cell g z \<and> func g' z = func g z \<and> ind g' z = ind g z)"

lemma copy_compiled:
  assumes run: "compile_term E ext lck h t = Some (True, I, h')" and ok: "rec_data_ok E h"
    and lim: "gsize I < 2 ^ 31" "nvars I \<le> cnvars C" "cnvars C < 2 ^ 31"
    and C: "gbase C = B" "gstore C = B" "version_map C = None" "cvars C = (\<lambda>_. None)" "cdata C = code I"
    and p: "p \<notin> {B..<B + gsize I}"
  shows "\<exists>C'. copy_record E C p = Some C' \<and> cdata C' = [] \<and> gstore C' = B + gsize I \<and>
    is_copy h t (gheap C') p \<and> same_outside (gheap C) (gheap C') p B (B + gsize I)"
proof -
  let ?S = "start_info ext lck h"
  note cr = compile_term_run [OF run]
  have s: "gsize ?S = 0" "nvars ?S = 0" "links ?S = (\<lambda>_. None)" "marks ?S = (\<lambda>_. None)" "code ?S = []" "rheap ?S = h"
    by (simp_all add: start_info_def)
  have ve: "\<not> var_end C n s" for n s by (simp add: var_end_def C)
  show ?thesis
  proof (cases "\<exists>r. derefs h t r \<and> isAttVar (cell h r)")
    case False
    have "sim_state h B p (gheap C) ?S C {} [t] [p] {}"
      unfolding sim_state_def by (simp add: src_start dst_inv_def C s ve)
    then have "sim_start h B p (gheap C) I ?S C [(Suc t, 0)] [] t p {}"
      unfolding sim_start_def using False lim C(1,2,5) p s(5) by (auto simp: works_start)
    then have "sim_done E h B p (gheap C) I C [] p {(t, p)}"
      using copy_loop_sim [OF cr(1) ok] by simp
    then obtain C' D W where d: "copy_record E C p = Some C'" "cdata C' = []" "(t, p) \<in> D" "sim_state h B p (gheap C) I C' D [] [] W"
      by (auto simp: sim_done_def copy_record_def)
    have inv: "dst_inv h B p (gheap C) I C' D {} W" using d(4) by (simp add: sim_state_def)
    then have "same_outside (gheap C) (gheap C') p B (B + gsize I)"
      using dst_invD(3) [OF inv] dst_invD(14) [OF inv] by (simp add: same_outside_def)
    then show ?thesis using d dst_invD(3) [OF inv] sim_state_copy [OF d(4,3)] by blast
  next
    case True
    then obtain r where r: "derefs h t r" "isAttVar (cell h r)" by blast
    define I1 where "I1 = grow 1 (emit [PL_REC_ALLOCVAR] ?S)"
    have I1: "gsize I1 = 1" "nvars I1 = 0" "links I1 = (\<lambda>_. None)" "marks I1 = (\<lambda>_. None)" "code I1 = [PL_REC_ALLOCVAR]"
      "rheap I1 = h" "src_inv h I1"
      using src_start by (simp_all add: I1_def s)
    have same: "compile_cell E ?S r = compile_cell E I1 r"
      using r(2) by (cases "cell h r") (simp_all add: compile_cell_def s I1 Let_def, simp add: I1_def)
    have "compile_loop E ?S [(Suc t, 0)] t = Some (True, I)" by (rule compile_run_loop [OF cr(1)])
    then have "compile_loop E I1 [(Suc t, 0)] t = Some (True, I)"
      using r(1) by (subst (asm) compile_loop.simps, subst compile_loop.simps)
        (simp add: s I1 deRef_iff [THEN iffD2, OF r(1)] same)
    then have run1: "compile_run E I1 [(Suc t, 0)] t (True, I)" by (rule compile_loop_run)
    have g: "grows h I1 I" using compile_run_grows [OF run1 I1(7)] by simp
    then obtain rest where rest: "code I = PL_REC_ALLOCVAR # rest" by (auto simp: grows_def I1)
    define C1 where "C1 = (put_cell p (WRef B) (put_cell B WVar (C\<lparr>cdata := rest\<rparr>)))\<lparr>gstore := B + 1\<rparr>"
    have C1: "gbase C1 = B" "gstore C1 = B + 1" "version_map C1 = None" "cvars C1 = (\<lambda>_. None)" "cdata C1 = rest"
      "cnvars C1 = cnvars C" "gheap C1 = (gheap C)\<lparr>cell := (cell (gheap C))(B := WVar, p := WRef B)\<rparr>"
      by (simp_all add: C1_def C)
    have "copy_cell E C p = Some (C1, Again B)"
      by (simp add: copy_cell_def fetchOpCode_def C rest opcode_defs C1_def)
    then have loop: "copy_record E C p = copy_loop E C1 [] B"
      by (subst copy_record_def, subst copy_loop.simps) simp
    have ve1: "\<not> var_end C1 n s" for n s by (simp add: var_end_def C1)
    have "sim_state h B B (gheap C1) I1 C1 {} [t] [B] {}"
      unfolding sim_state_def by (simp add: I1 dst_inv_def C1 ve1)
    moreover have "B \<notin> {B + 1..<B + gsize I}" by simp
    ultimately have "sim_start h B B (gheap C1) I I1 C1 [(Suc t, 0)] [] t B {}"
      unfolding sim_start_def using lim C1(1,2,5,6) I1(5) rest by (auto simp: works_start)
    then have "sim_done E h B B (gheap C1) I C1 [] B {(t, B)}"
      using copy_loop_sim [OF run1 ok] by simp
    then obtain C' D W where d: "copy_record E C p = Some C'" "cdata C' = []" "(t, B) \<in> D" "sim_state h B B (gheap C1) I C' D [] [] W"
      by (auto simp: sim_done_def loop)
    have inv: "dst_inv h B B (gheap C1) I C' D {} W" using d(4) by (simp add: sim_state_def)
    note fr = dst_invD(14) [OF inv] and st = dst_invD(3) [OF inv]
    have gI: "0 < gsize I" using g I1 by (simp add: grows_def)
    have "p \<noteq> B" using p gI by auto
    then have "cell (gheap C') p = WRef B" using fr [of p] p st by (simp add: C1)
    then have "is_copy h t (gheap C') p" by (rule is_copy_ref [OF sim_state_copy [OF d(4,3)]])
    moreover have "same_outside (gheap C) (gheap C') p B (B + gsize I)"
      unfolding same_outside_def
    proof (intro allI impI)
      fix z assume z: "z \<noteq> p" "z \<notin> {B..<B + gsize I}"
      then have "z \<noteq> B" using gI by auto
      then show "cell (gheap C') z = cell (gheap C) z \<and> func (gheap C') z = func (gheap C) z \<and> ind (gheap C') z = ind (gheap C) z"
        using fr [of z] z st by (simp add: C1)
    qed
    ultimately show ?thesis using d st by blast
  qed
qed

section \<open>Sizes\<close>

lemma string_bytes_nonempty: "string_bytes s \<noteq> []"
  by (simp add: string_bytes_def)

lemma size_int_nonempty: "1 \<le> length (size_int n)"
proof -
  have "size_int n \<noteq> []"
  proof
    assume "size_int n = []"
    then show False using fetch_addUint [of "word_of_nat n" "[]"] by (simp add: size_int_def fetchSizeInt_def)
  qed
  then show ?thesis by (cases "size_int n") simp_all
qed

lemma addInt64_length: "2 \<le> length (addInt64 v)"
proof -
  have "length (int64_bytes k v) = k" for k by (induction k) simp_all
  then show ?thesis using int64_size_bounds(1) [of v] by (simp add: addInt64_def)
qed

lemma indirect_code_length:
  "indirect_words E d + 2 + 1 \<le> 3 * length (indirect_code E ext d)"
proof (cases d)
  case (IInt64 i)
  then show ?thesis using addInt64_length [of i] by (simp add: indirect_words_def indirect_code_def)
next
  case (IMpz z)
  then show ?thesis by (simp add: indirect_words_def indirect_code_def addMPZToBuffer_def Let_def)
next
  case (IDouble d)
  then show ?thesis by (simp add: indirect_words_def indirect_code_def word_bytes_def)
next
  case (IChars s)
  have "1 \<le> length (string_bytes s)" using string_bytes_nonempty [of s] by (cases "string_bytes s") simp_all
  then show ?thesis using IChars size_int_nonempty [of "length (string_bytes s)"]
    by (simp add: indirect_words_def indirect_code_def string_words_def)
qed

text \<open>Every step adds enough code for the global stack and the variables that it adds.\<close>

lemma compile_cell_size:
  assumes src: "src_inv h0 I" and ok: "rec_data_ok E h0" and r: "derefs h0 x r"
    and c: "compile_cell E I r = Some (Inr (I', c))"
  shows "gsize I' + 1 + length (code I) * 3 \<le> gsize I + length (code I') * 3 + length (targets c)"
    and "nvars I' + length (code I) \<le> nvars I + length (code I')"
proof -
  have "gsize I' + 1 + length (code I) * 3 \<le> gsize I + length (code I') * 3 + length (targets c) \<and>
      nvars I' + length (code I) \<le> nvars I + length (code I')"
  proof (cases "links I r")
    case (Some n)
    then have "I' = emit (PL_TYPE_VARIABLE # size_int n) I" using c by (simp add: compile_cell_def)
    then show ?thesis by simp
  next
    case None
    have cr: "cell (rheap I) r = cell h0 r" by (rule src_invD(1) [OF src None])
    show ?thesis
    proof (cases "cell h0 r")
      case WVar
      then have "I' = emit (PL_TYPE_VARIABLE # size_int (nvars I)) (link_var r I\<lparr>vars := VarCell r # vars I\<rparr>)"
        using c None cr by (simp add: compile_cell_def Let_def link_var_def)
      then show ?thesis using size_int_nonempty [of "nvars I"] by simp
    next
      case (WAttVar a)
      define I1 where "I1 = (if code I = [] then grow 1 (emit [PL_REC_ALLOCVAR] I) else I)"
      have I1: "gsize I1 + length (code I) \<le> gsize I + length (code I1)" "nvars I1 = nvars I"
        "length (code I) \<le> length (code I1)" "vars I1 = vars I"
        by (simp_all add: I1_def) (simp add: emit_def grow_def)
      have I': "I' = grow 3 (emit (PL_TYPE_ATTVAR # size_int (nvars I)) (link_var r I1\<lparr>vars := AttVarCell r (WAttVar a) # vars I1\<rparr>))"
        "c = Again a"
        using c None cr WAttVar I1(4) by (simp_all add: compile_cell_def Let_def link_var_def I1_def emit_def grow_def)
      then show ?thesis using I1 size_int_nonempty [of "nvars I"] by (simp add: targets_def)
    next
      case (WAtom a)
      then obtain bs where "atom_code E (external I) a = Some bs" "I' = add_locked E a (emit bs I)"
        using c None cr by (auto simp: compile_cell_def addAtom_code split: option.splits)
      then show ?thesis using atom_code_nonempty [of E "external I" a bs] by (cases bs) simp_all
    next
      case (WInt i)
      then have "I' = emit (PL_TYPE_TAGGED_INTEGER # addInt64 i) I" using c None cr by (simp add: compile_cell_def)
      then show ?thesis by simp
    next
      case (WIndirect t a)
      have ci: "compile_indirect E t a I = Some I'"
        using c None cr WIndirect by (auto simp: compile_cell_def split: option.splits)
      have "indirect_ok E t (ind (rheap I) a)" using rec_data_okD(5) [OF ok WIndirect] src_invD(8) [OF src] by simp
      then have "I' = emit (indirect_code E (external I) (ind (rheap I) a)) (grow (indirect_words E (ind (rheap I) a) + 2) I)"
        using ci compile_indirect_code by simp
      then show ?thesis using indirect_code_length [of E "ind (rheap I) a" "external I"] by simp
    next
      case (WTerm f)
      show ?thesis
      proof (cases "marks I f")
        case (Some off)
        then have "I' = emit (PL_REC_CYCLE # size_int off) I" using c None cr WTerm by (simp add: compile_cell_def)
        then show ?thesis by simp
      next
        case mk: None
        obtain fd bs where bs: "functor_code E (external I) fd = Some bs" and c': "c = Args (argTermP f 0) (arity fd)"
          and I': "I' = emit bs (grow (arity fd + 1) (mark_term f fd I))"
          using c None cr WTerm mk by (auto simp: compile_cell_def addFunctor_code Let_def split: option.splits fword.splits)
        have "bs \<noteq> []" using bs by (auto simp: functor_code_def split: if_splits)
        then show ?thesis using I' c' by (cases bs) (simp_all add: targets_def)
      qed
    next
      case (WRef q)
      then show ?thesis using derefs_end [OF r] by simp
    qed
  qed
  then show "gsize I' + 1 + length (code I) * 3 \<le> gsize I + length (code I') * 3 + length (targets c)"
    and "nvars I' + length (code I) \<le> nvars I + length (code I')" by blast+
qed

lemma compile_run_size:
  assumes ok: "rec_data_ok E h0"
  shows "compile_run E I A x res \<Longrightarrow> src_inv h0 I \<Longrightarrow> works_ok A \<Longrightarrow> fst res \<Longrightarrow>
    gsize (snd res) + 3 * length (code I) + length (cells A) \<le> gsize I + 3 * length (code (snd res)) \<and>
    nvars (snd res) + length (code I) \<le> nvars I + length (code (snd res))"
proof (induction rule: compile_run.induct)
  case (last I x r I' c A)
  have r: "derefs h0 x r" using last src_derefs_iff by blast
  have "cont_cells c @ cells A = []" using next_cont [OF last(6), of c] last(4) by simp
  then show ?case using compile_cell_size [OF last(5) ok r last(2)] cont_targets [OF last(3)] by simp
next
  case (again I x r I' a A res)
  have r: "derefs h0 x r" using again src_derefs_iff by blast
  have "src_inv h0 I'" using compile_grows(1) [OF again(5,2) r] by (simp add: grows_def)
  then show ?case using again compile_cell_size [OF again(5) ok r again(2)] by (simp add: targets_def)
next
  case (more I x r I' c A q A' res)
  have r: "derefs h0 x r" using more src_derefs_iff by blast
  have s: "src_inv h0 I'" using compile_grows(1) [OF more(7,2) r] by (simp add: grows_def)
  have n: "works_ok A'" "cont_cells c @ cells A = q # cells A'" using next_cont [OF more(8), of c] more(4) by simp_all
  have "length (targets c) + length (cells A) = Suc (length (cells A'))"
    using n(2) cont_targets [OF more(3)] by (metis length_Cons length_append)
  then show ?case using more.IH [OF s n(1) more(9)] compile_cell_size [OF more(7) ok r more(2)] by simp
qed simp

lemma compile_term_size:
  assumes "compile_term E ext lck h t = Some (True, I, h')" "rec_data_ok E h"
  shows "gsize I \<le> 3 * length (code I)" "nvars I \<le> length (code I)"
  using compile_run_size [OF assms(2) compile_term_run(1) [OF assms(1)] src_start works_start(1)]
  by (simp_all add: works_start) (simp_all add: start_info_def)

section \<open>An example\<close>

text \<open>The term \<^theory_text>\<open>f(X, X)\<close> at cell 0.\<close>

definition sample_rec_env :: rec_env where
  "sample_rec_env = \<lparr>atom_word = word_of_nat, word_atom = unat, functor_word = (\<lambda>f. word_of_nat (arity f)),
     word_functor = (\<lambda>w. \<lparr>fname = 5, arity = unat w\<rparr>), ATOM_nil = 0, ATOM_dict = 1,
     FUNCTOR_dot2 = \<lparr>fname = 2, arity = 2\<rparr>, atom_text = (\<lambda>a. if a = 5 then Some (False, [102]) else None),
     lookupAtom = (\<lambda>s. 5), lookupUCSAtom = (\<lambda>s. 6), mpz_export = (\<lambda>_. []), mpz_import = (\<lambda>_. 0)\<rparr>"

definition sample_heap :: heap where
  "sample_heap = \<lparr>cell = (\<lambda>x. if x = 0 then WTerm 10 else if x = 12 then WRef 11 else WVar),
     func = (\<lambda>f. if f = 10 then Some (Functor \<lparr>fname = 5, arity = 2\<rparr>) else None), ind = (\<lambda>_. IInt64 0),
     mark_bar = 0, lBase = 0, gfree = 0, tfree = 0, trail = [], wakeup = []\<rparr>"

lemma sample_cells: "term_cells sample_heap {0, 11, 12}"
proof -
  have d: "derefs sample_heap 0 0" "derefs sample_heap 11 11" by (auto simp: sample_heap_def intro: derefs.here)
  moreover have "derefs sample_heap 12 11"
    by (rule derefs.step [of _ 12 11]) (auto simp: sample_heap_def intro: derefs.here)
  moreover have "cell sample_heap 0 = WTerm 10" "cell sample_heap 11 = WVar"
    "func sample_heap 10 = Some (Functor \<lparr>fname = 5, arity = 2\<rparr>)"
    by (simp_all add: sample_heap_def)
  moreover have "argTermP 10 i \<in> {0, 11, 12}" if "i < 2" for i using that by (auto simp: argTermP_def)
  ultimately show ?thesis by (fastforce simp: term_cells_def)
qed

lemma sample_ok: "rec_data_ok sample_rec_env sample_heap"
  by (auto simp: rec_data_ok_def sample_rec_env_def sample_heap_def atom_ok_def split: if_splits)

lemma sample_compiled:
  "map_option fst (compileTermToHeap sample_rec_env False False sample_heap 0) =
     Some \<lparr>rgsize = 3, rnvars = 1, rcode = [PL_TYPE_COMPOUND, 2, 0, 0, 0, 0, 0, 0, 0, PL_TYPE_VARIABLE, 0, PL_TYPE_VARIABLE, 0]\<rparr>"
  by code_simp

section \<open>Properties\<close>

text \<open>C14: compiling a term to a record ends, for every finite term, with sharing, cycles and
  attributed variables, and leaves the heap as it was, also when an atom that cannot be stored
  externally makes it fail.\<close>

theorem compile_term_restores:
  assumes "term_cells h S" "t \<in> S" "rec_data_ok E h"
  shows "\<exists>rc I. compile_term E ext lck h t = Some (rc, I, h) \<and> (rc \<or> ext)"
proof -
  have "\<exists>res. compile_run E (start_info ext lck h) [(Suc t, 0)] t res"
    using compile_run_returns [OF assms(3,1), of "start_info ext lck h" "[(Suc t, 0)]" t] src_start assms(2)
    by (simp add: works_start del: split_paired_Ex)
  then obtain res where "compile_run E (start_info ext lck h) [(Suc t, 0)] t res" ..
  from compile_run_loop [OF this] obtain rc I h' where r: "compile_term E ext lck h t = Some (rc, I, h')"
    by (cases res) (auto simp: compile_term_def)
  with compile_term_run(2,4) [OF r] show ?thesis by blast
qed

theorem compile_term_restores_witness:
  "\<exists>I. compile_term sample_rec_env False False sample_heap 0 = Some (True, I, sample_heap)"
  using compile_term_restores [OF sample_cells _ sample_ok, of 0 False False] by auto

text \<open>C3: a record holds a copy of the term: loading it, at any time and into any heap, gives the same
  term up to the addresses, with the same sharing and cycles, in the room that the record names, and
  changes nothing outside of it.\<close>

theorem record_roundtrip:
  assumes "compileTermToHeap E False nolock h t = Some (r, as, h')" "rec_data_ok E h"
    and "length (rcode r) < 2 ^ 29" "p \<notin> {gtop..<gtop + unat (rgsize r)}"
  shows "h' = h \<and> (\<exists>g'. copyRecordToGlobal E g avs gtop r p = Some (g', gtop + unat (rgsize r)) \<and>
    is_copy h t g' p \<and> same_outside g g' p gtop (gtop + unat (rgsize r)))"
proof -
  obtain rc I where c: "compile_term E False (\<not> nolock) h t = Some (rc, I, h')"
    and r: "r = \<lparr>rgsize = word_of_nat (gsize I), rnvars = nvars I, rcode = code I\<rparr>"
    using assms(1) by (auto simp: compileTermToHeap_def)
  then have c: "compile_term E False (\<not> nolock) h t = Some (True, I, h')" using compile_term_run(4) [OF c] by simp
  note size = compile_term_size [OF c assms(2)]
  have lim: "gsize I < 2 ^ 31" "nvars I < 2 ^ 31" using size assms(3) by (simp_all add: r)
  then have g: "unat (rgsize r) = gsize I" by (simp add: r unat_of_nat take_bit_nat_eq_self)
  define C where "C = \<lparr>gheap = g, gbase = gtop, gstore = gtop, cdata = code I, version_map = None,
         cvars = (\<lambda>_. None), cnvars = nvars I, attvars = avs, dicts = 0\<rparr>"
  obtain C' where "copy_record E C p = Some C'" "gstore C' = gtop + gsize I" "is_copy h t (gheap C') p"
    "same_outside g (gheap C') p gtop (gtop + gsize I)"
    using copy_compiled [OF c assms(2) lim(1), of C gtop p] lim(2) assms(4) g by (auto simp: C_def)
  then show ?thesis using compile_term_run(2) [OF c] g
    by (auto simp: copyRecordToGlobal_def r C_def)
qed


theorem record_roundtrip_witness:
  "\<exists>r as g'. compileTermToHeap sample_rec_env False False sample_heap 0 = Some (r, as, sample_heap) \<and>
     copyRecordToGlobal sample_rec_env sample_heap None 20 r 1 = Some (g', 23) \<and> is_copy sample_heap 0 g' 1"
proof -
  obtain as h' r where r: "compileTermToHeap sample_rec_env False False sample_heap 0 = Some (r, as, h')"
    "rgsize r = 3" "length (rcode r) = 13"
    using sample_compiled by (auto simp: map_option_eq_Some)
  then show ?thesis
    using record_roundtrip [OF r(1) sample_ok, of 1 20 sample_heap None] by auto
qed

section \<open>External records\<close>




lemma flags [simp]:
  "(REC_HDR OR REC_INT OR REC_GROUND) AND 0xe3 = REC_HDR" "(REC_HDR OR REC_ATOM OR REC_GROUND) AND 0xe3 = REC_HDR"
  "(REC_HDR OR REC_GROUND) AND 0xe3 = REC_HDR" "REC_HDR AND 0xe3 = REC_HDR"
  "(REC_HDR OR REC_INT OR REC_GROUND) AND REC_INT \<noteq> 0" "(REC_HDR OR REC_ATOM OR REC_GROUND) AND REC_INT = 0"
  "(REC_HDR OR REC_GROUND) AND REC_INT = 0" "REC_HDR AND REC_INT = 0"
  "(REC_HDR OR REC_ATOM OR REC_GROUND) AND REC_ATOM \<noteq> 0" "(REC_HDR OR REC_GROUND) AND REC_ATOM = 0"
  "REC_HDR AND REC_ATOM = 0" "REC_HDR AND REC_GROUND = 0" "(REC_HDR OR REC_GROUND) AND REC_GROUND \<noteq> 0"
  "REC_GROUND \<noteq> 0"
  by (simp_all add: REC_HDR_def REC_INT_def REC_ATOM_def REC_GROUND_def)











lemma header_eqs [simp]:
  "(REC_HDR OR REC_ATOM OR REC_GROUND) \<noteq> (REC_HDR OR REC_INT OR REC_GROUND)"
  "(REC_HDR OR REC_GROUND) \<noteq> (REC_HDR OR REC_INT OR REC_GROUND)" "REC_HDR \<noteq> (REC_HDR OR REC_INT OR REC_GROUND)"
  "(REC_HDR OR REC_GROUND) \<noteq> (REC_HDR OR REC_ATOM OR REC_GROUND)" "REC_HDR \<noteq> (REC_HDR OR REC_ATOM OR REC_GROUND)"
  by (simp_all add: REC_HDR_def REC_INT_def REC_ATOM_def REC_GROUND_def)







text \<open>An atom that is a blob fails without an error, within a term it is a permission error.\<close>

lemma blob_record_fails_silently:
  assumes "derefs h t r" "cell h r = WAtom a" "atom_text E a = None" "a \<noteq> ATOM_nil E" "a \<noteq> ATOM_dict E"
  shows "compile_external_record E h t = Some ExtFalse"
proof -
  have "deRef h t = Some r" using assms(1) deRef_iff by blast
  then show ?thesis using assms(2-5)
    by (simp add: compile_external_record_def addAtom_code atom_code_def start_info_def)
qed

lemma is_external_aborts:
  "m \<notin> {REC_HDR, REC_HDR OR REC_GROUND, REC_HDR OR REC_INT OR REC_GROUND, REC_HDR OR REC_ATOM OR REC_GROUND} \<Longrightarrow>
   is_external (m # b # data) = None"
  by (simp add: is_external_def)

section \<open>Scanning for atoms\<close>

definition real_atoms :: "rec_env \<Rightarrow> atom_t list \<Rightarrow> atom_t list" where
  "real_atoms E as = filter (\<lambda>a. a \<noteq> ATOM_nil E \<and> a \<noteq> ATOM_dict E) as"

lemma skipLong_int64: "skipLong (addInt64 v @ rest) = Some rest"
proof -
  obtain n where n: "int64_size v = int n" "1 \<le> n" "n \<le> 8"
    using int64_size_bounds(1,2) [of v] by (metis nat_le_iff nat_0_le of_nat_1 of_nat_le_iff of_nat_numeral order_trans zero_le_one)
  have l: "length (int64_bytes k v) = k" for k by (induction k) simp_all
  have "n \<in> {1, 2, 3, 4, 5, 6, 7, 8}" using n by auto
  then have "0 \<le>s (word_of_nat n :: byte)" "unat (word_of_nat n :: byte) = n" by (auto simp: word_sle_eq)
  then show ?thesis using n(1) by (simp add: skipLong_def addInt64_def l)
qed

lemma skipAtom_bytes: "length s < 2 ^ 32 \<Longrightarrow> skipAtom (size_int (length s) @ s @ rest) = Some rest"
  by (simp add: skipAtom_def)

lemma scan_indirect:
  assumes "indirect_ok E t d" "indirect_code E False d @ rest = op # data"
  shows "scan_item E op data = Some ([], 0, rest)"
proof (cases d)
  case (IInt64 v)
  then show ?thesis using assms(2) skipLong_int64 [of v rest]
    by (auto simp: indirect_code_def scan_item_def opcode_defs)
next
  case (IMpz z)
  then have "t = I_INTEGER" using assms(1) by (cases t) (simp_all add: indirect_ok_def)
  then show ?thesis using IMpz assms load_addMPZ(2) [of E z rest]
    by (auto simp: indirect_code_def indirect_ok_def scan_item_def opcode_defs)
next
  case (IDouble v)
  have "length (word_bytes v) = 8" by (simp add: word_bytes_def)
  then show ?thesis using assms(2) IDouble
    by (auto simp: indirect_code_def scan_item_def opcode_defs)
next
  case (IChars s)
  then have "t = I_STRING" using assms(1) by (cases t) (simp_all add: indirect_ok_def)
  then have "length (string_bytes s) < 2 ^ 32" using assms(1) IChars by (simp add: indirect_ok_def)
  then show ?thesis using assms(2) IChars skipAtom_bytes [of "string_bytes s" rest]
    by (auto simp: indirect_code_def scan_item_def opcode_defs)
qed

lemma scan_atom:
  assumes "atom_ok E a" "atom_code E False a = Some bs" "bs @ rest = op # data"
  shows "scan_item E op data = Some ([a], 0, rest)"
  using assms by (auto simp: atom_code_def atom_ok_def scan_item_def opcode_defs split: if_splits)

lemma scan_functor:
  assumes "word_functor E (functor_word E fd) = fd" "arity (FUNCTOR_dot2 E) = 2"
    and "functor_code E False fd = Some bs" "bs @ rest = op # data"
  shows "scan_item E op data = Some ([], arity fd, rest)"
  using assms by (auto simp: functor_code_def scan_item_def opcode_defs split: if_splits)

text \<open>The item of a cell of the term; the first item may follow the code for a lone attributed variable.\<close>

lemma compile_cell_item:
  assumes src: "src_inv h0 I" and ok: "rec_data_ok E h0" and r: "derefs h0 x r" and int: "\<not> external I"
    and c: "compile_cell E I r = Some (Inr (I', c))" and lim: "nvars I' < 2 ^ 64" "gsize I' < 2 ^ 64"
    and off: "\<And>f n. marks I f = Some n \<Longrightarrow> n \<le> gsize I"
  shows "\<exists>op data as. code I' = code I @ (if code I = [] \<and> (\<exists>a. c = Again a) then [PL_REC_ALLOCVAR] else []) @ op # data \<and>
    (\<forall>rest. scan_item E op (data @ rest) = Some (as, length (targets c), rest)) \<and>
    lock I' = lock I \<and> (lock I \<longrightarrow> locked I' = locked I @ real_atoms E as) \<and>
    (\<forall>f n. marks I' f = Some n \<longrightarrow> n \<le> gsize I')"
proof (cases "links I r")
  case (Some n)
  then have I': "I' = emit (PL_TYPE_VARIABLE # size_int n) I" "c = Done" using c by (simp_all add: compile_cell_def)
  have "n < 2 ^ 64" using src_invD(4) [OF src Some] lim I' by simp
  then show ?thesis using I' off
    by (intro exI [of _ PL_TYPE_VARIABLE] exI [of _ "size_int n"] exI [of _ "[]"])
      (simp add: scan_item_def targets_def real_atoms_def)
next
  case None
  have cr: "cell (rheap I) r = cell h0 r" by (rule src_invD(1) [OF src None])
  show ?thesis
  proof (cases "cell h0 r")
    case WVar
    then have I': "I' = emit (PL_TYPE_VARIABLE # size_int (nvars I)) (link_var r I\<lparr>vars := VarCell r # vars I\<rparr>)" "c = Done"
      using c None cr by (simp_all add: compile_cell_def Let_def link_var_def)
    then show ?thesis using lim off
      by (intro exI [of _ PL_TYPE_VARIABLE] exI [of _ "size_int (nvars I)"] exI [of _ "[]"])
        (simp add: scan_item_def targets_def real_atoms_def)
  next
    case (WAttVar a)
    define I1 where "I1 = (if code I = [] then grow 1 (emit [PL_REC_ALLOCVAR] I) else I)"
    have I1: "code I1 = code I @ (if code I = [] then [PL_REC_ALLOCVAR] else [])" "nvars I1 = nvars I" "vars I1 = vars I"
      "lock I1 = lock I" "locked I1 = locked I" "marks I1 = marks I" "gsize I \<le> gsize I1"
      by (simp_all add: I1_def) (simp add: emit_def grow_def)
    have I': "I' = grow 3 (emit (PL_TYPE_ATTVAR # size_int (nvars I)) (link_var r I1\<lparr>vars := AttVarCell r (WAttVar a) # vars I1\<rparr>))"
      "c = Again a"
      using c None cr WAttVar I1(3) by (simp_all add: compile_cell_def Let_def link_var_def I1_def emit_def grow_def)
    have "n \<le> gsize I1 + 3" if "marks I f = Some n" for f n using off [OF that] I1(7) by simp
    then show ?thesis using I' I1 lim
      by (intro exI [of _ PL_TYPE_ATTVAR] exI [of _ "size_int (nvars I)"] exI [of _ "[]"])
        (simp add: scan_item_def targets_def real_atoms_def opcode_defs)
  next
    case (WAtom a)
    then obtain bs where bs: "atom_code E False a = Some bs" "I' = add_locked E a (emit bs I)" "c = Done"
      using c None cr int by (auto simp: compile_cell_def addAtom_code split: option.splits)
    obtain op data where op: "bs = op # data" using atom_code_nonempty [OF bs(1)] by (cases bs) auto
    have "scan_item E op (data @ rest) = Some ([a], 0, rest)" for rest
      using scan_atom [OF rec_data_okD(2) [OF ok WAtom] bs(1), of rest] op by simp
    moreover have "lock I \<longrightarrow> locked I' = locked I @ real_atoms E [a]"
      using int by (simp add: bs(2) add_locked_def real_atoms_def)
    ultimately show ?thesis using op bs off
      by (intro exI [of _ op] exI [of _ data] exI [of _ "[a]"]) (simp add: targets_def)
  next
    case (WInt i)
    then have "I' = emit (PL_TYPE_TAGGED_INTEGER # addInt64 i) I" "c = Done" using c None cr by (simp_all add: compile_cell_def)
    then show ?thesis using off
      by (intro exI [of _ PL_TYPE_TAGGED_INTEGER] exI [of _ "addInt64 i"] exI [of _ "[]"])
        (simp add: scan_item_def targets_def real_atoms_def skipLong_int64 opcode_defs)
  next
    case (WIndirect t a)
    have ci: "compile_indirect E t a I = Some I'" and cd: "c = Done"
      using c None cr WIndirect by (auto simp: compile_cell_def split: option.splits)
    have io: "indirect_ok E t (ind h0 a)" by (rule rec_data_okD(5) [OF ok WIndirect])
    then have I': "I' = emit (indirect_code E False (ind h0 a)) (grow (indirect_words E (ind h0 a) + 2) I)"
      using ci compile_indirect_code [of E t I a] src_invD(8) [OF src] int by simp
    obtain op data where op: "indirect_code E False (ind h0 a) = op # data"
      by (cases "ind h0 a") (simp_all add: indirect_code_def)
    have "scan_item E op (data @ rest) = Some ([], 0, rest)" for rest
      using scan_indirect [OF io, of rest] op by simp
    moreover have "n \<le> Suc (Suc (gsize I + k))" if "marks I f = Some n" for f n k using off [OF that] by simp
    ultimately show ?thesis using op I' cd
      by (intro exI [of _ op] exI [of _ data] exI [of _ "[]"]) (simp add: targets_def real_atoms_def)
  next
    case (WTerm f)
    show ?thesis
    proof (cases "marks I f")
      case (Some n)
      then have I': "I' = emit (PL_REC_CYCLE # size_int n) I" "c = Done" using c None cr WTerm by (simp_all add: compile_cell_def)
      have "n < 2 ^ 64" using off [OF Some] lim I' by simp
      then show ?thesis using I' off
        by (intro exI [of _ PL_REC_CYCLE] exI [of _ "size_int n"] exI [of _ "[]"])
          (simp add: scan_item_def targets_def real_atoms_def)
    next
      case mk: None
      obtain fd bs where fd: "func (rheap I) f = Some (Functor fd)" and bs: "functor_code E False fd = Some bs"
        and I': "I' = emit bs (grow (arity fd + 1) (mark_term f fd I))" "c = Args (argTermP f 0) (arity fd)"
        using c None cr WTerm mk int by (auto simp: compile_cell_def addFunctor_code Let_def split: option.splits fword.splits)
      have fh: "func h0 f = Some (Functor fd)" using src_invD(6) [OF src mk] fd by simp
      have "bs \<noteq> []" using bs by (auto simp: functor_code_def split: if_splits)
      then obtain op data where op: "bs = op # data" by (cases bs) auto
      have "scan_item E op (data @ rest) = Some ([], arity fd, rest)" for rest
        using scan_functor [OF rec_data_okD(3) [OF ok fh] rec_data_okD(1) [OF ok] bs, of rest] op by simp
      moreover have "n \<le> gsize I + (arity fd + 1)" if "((marks I)(f \<mapsto> gsize I)) g = Some n" for g n
        using that off [of g n] by (auto split: if_splits)
      ultimately show ?thesis using op I'
        by (intro exI [of _ op] exI [of _ data] exI [of _ "[]"]) (simp add: targets_def real_atoms_def)
    qed
  next
    case (WRef q)
    then show ?thesis using derefs_end [OF r] by simp
  qed
qed


lemma scan_run:
  assumes ok: "rec_data_ok E h0"
  shows "compile_run E I A x res \<Longrightarrow> src_inv h0 I \<Longrightarrow> works_ok A \<Longrightarrow> fst res \<Longrightarrow> \<not> external I \<Longrightarrow>
    nvars (snd res) < 2 ^ 64 \<Longrightarrow> gsize (snd res) < 2 ^ 64 \<Longrightarrow> (\<forall>f n. marks I f = Some n \<longrightarrow> n \<le> gsize I) \<Longrightarrow>
    code (snd res) = code I @ data \<Longrightarrow> length data \<le> fuel \<Longrightarrow>
    \<exists>as. scan_atoms fuel E (length (cells A)) data = Some (as, []) \<and>
      (lock I \<longrightarrow> locked (snd res) = locked I @ real_atoms E as)"
proof (induction arbitrary: data fuel rule: compile_run.induct)
  case (last I x r I' c A)
  have r: "derefs h0 x r" using last src_derefs_iff by blast
  have lim: "nvars I' < 2 ^ 64" "gsize I' < 2 ^ 64" using last by simp_all
  obtain op d as where i: "code I' = code I @ op # d"
    "\<And>rest. scan_item E op (d @ rest) = Some (as, length (targets c), rest)"
    "lock I \<longrightarrow> locked I' = locked I @ real_atoms E as"
    using compile_cell_item [OF last(5) ok r last(8,2) lim] last(3,11) by auto
  note i2 = i(2) [of "[]"]
  have "targets c @ cells A = []" using next_cont [OF last(6), of c] last(4) cont_targets [OF last(3)] by simp
  moreover obtain k where "fuel = Suc k" using last i(1) by (cases fuel) auto
  moreover have "data = op # d" using i(1) last(12) by simp
  ultimately show ?case using i(3) i2 by simp
next
  case (again I x r I' a A res)
  have r: "derefs h0 x r" using again src_derefs_iff by blast
  have g: "grows h0 I I'" by (rule compile_grows(1) [OF again(5,2) r])
  then have s: "src_inv h0 I'" by (simp add: grows_def)
  have g': "grows h0 I' (snd res)" using compile_run_grows [OF again(3) s] by simp
  have lim: "nvars I' < 2 ^ 64" "gsize I' < 2 ^ 64" using g' again(9,10) by (simp_all add: grows_def)
  obtain op d as where i: "code I' = code I @ (if code I = [] then [PL_REC_ALLOCVAR] else []) @ op # d"
    "\<And>rest. scan_item E op (d @ rest) = Some (as, 1, rest)" "lock I' = lock I"
    "lock I \<longrightarrow> locked I' = locked I @ real_atoms E as" "\<forall>f n. marks I' f = Some n \<longrightarrow> n \<le> gsize I'"
    using compile_cell_item [OF again(5) ok r again(8,2) lim] again(11) by (auto simp: targets_def)
  obtain rest where rest: "code (snd res) = code I' @ rest" using g' by (auto simp: grows_def)
  have data: "data = (if code I = [] then [PL_REC_ALLOCVAR] else []) @ op # d @ rest"
    using again(12) rest i(1) by simp
  have ext: "\<not> external I'" using g again(8) by (simp add: grows_def)
  have step: "\<exists>as. scan_atoms fuel E (length (cells A)) (op # d @ rest) = Some (as, []) \<and>
      (lock I \<longrightarrow> locked (snd res) = locked I @ real_atoms E as)" if fuel: "length (op # d @ rest) \<le> fuel" for fuel
  proof -
    obtain k where k: "fuel = Suc k" "length rest \<le> k" using fuel by (cases fuel) auto
    obtain bs where "scan_atoms k E (length (cells A)) rest = Some (bs, [])"
      "lock I' \<longrightarrow> locked (snd res) = locked I' @ real_atoms E bs"
      using again.IH [OF s again(6,7) ext again(9,10) i(5) rest k(2)] by blast
    then show ?thesis using i k by (intro exI [of _ "as @ bs"]) (simp add: real_atoms_def)
  qed
  show ?case
  proof (cases "code I = []")
    case True
    obtain k where k: "fuel = Suc k" "length (op # d @ rest) \<le> k" using again(13) data True by (cases fuel) auto
    have "scan_item E PL_REC_ALLOCVAR ys = Some ([], 1, ys)" for ys by (simp add: scan_item_def opcode_defs)
    then show ?thesis using step [OF k(2)] data True k(1) by auto
  next
    case False
    then show ?thesis using step [of fuel] data again(13) by simp
  qed
next
  case (more I x r I' c A q A' res)
  have r: "derefs h0 x r" using more src_derefs_iff by blast
  have g: "grows h0 I I'" by (rule compile_grows(1) [OF more(7,2) r])
  then have s: "src_inv h0 I'" by (simp add: grows_def)
  have g': "grows h0 I' (snd res)" using compile_run_grows [OF more(5) s] by simp
  have lim: "nvars I' < 2 ^ 64" "gsize I' < 2 ^ 64" using g' more(11,12) by (simp_all add: grows_def)
  obtain op d as where i: "code I' = code I @ op # d"
    "\<And>rest. scan_item E op (d @ rest) = Some (as, length (targets c), rest)" "lock I' = lock I"
    "lock I \<longrightarrow> locked I' = locked I @ real_atoms E as" "\<forall>f n. marks I' f = Some n \<longrightarrow> n \<le> gsize I'"
    using compile_cell_item [OF more(7) ok r more(10,2) lim] more(3,13) by auto
  obtain rest where rest: "code (snd res) = code I' @ rest" using g' by (auto simp: grows_def)
  have data: "data = op # d @ rest" using more(14) rest i(1) by simp
  have ext: "\<not> external I'" using g more(10) by (simp add: grows_def)
  obtain k where k: "fuel = Suc k" "length rest \<le> k" using more(15) data by (cases fuel) auto
  have n: "works_ok A'" "targets c @ cells A = q # cells A'"
    using next_cont [OF more(8), of c] more(4) cont_targets [OF more(3)] by simp_all
  have w: "length (cells A) + length (targets c) = Suc (length (cells A'))"
    using arg_cong [OF n(2), of length] by simp
  obtain bs where "scan_atoms k E (length (cells A')) rest = Some (bs, [])"
    "lock I' \<longrightarrow> locked (snd res) = locked I' @ real_atoms E bs"
    using more.IH [OF s n(1) more(9) ext more(11,12) i(5) rest k(2)] by blast
  moreover have "\<not> (cells A = [] \<and> targets c = [])" using w by auto
  ultimately show ?case using i k data w by (intro exI [of _ "as @ bs"]) (auto simp: real_atoms_def)
qed simp

text \<open>C25: scanning the code of an internal record meets the atoms that were locked when it was
  compiled, in their order, besides the two reserved symbols, and ends with the end of the code.\<close>

theorem scan_atoms_record:
  assumes "compileTermToHeap E False False h t = Some (r, as, h')" "rec_data_ok E h" "length (rcode r) < 2 ^ 62"
  shows "\<exists>bs. scanAtomsRecord E (rcode r) = Some (bs, []) \<and> real_atoms E bs = as"
proof -
  obtain rc I where c: "compile_term E False True h t = Some (rc, I, h')" and r: "rcode r = code I" "as = locked I"
    using assms(1) by (auto simp: compileTermToHeap_def)
  then have c: "compile_term E False True h t = Some (True, I, h')" using compile_term_run(4) [OF c] by simp
  note size = compile_term_size [OF c assms(2)]
  have lim: "nvars I < 2 ^ 64" "gsize I < 2 ^ 64" using size assms(3) r(1) by simp_all
  have "\<exists>bs. scan_atoms (length (code I)) E (length (cells [(Suc t, 0)])) (code I) = Some (bs, []) \<and>
      (lock (start_info False True h) \<longrightarrow> locked I = locked (start_info False True h) @ real_atoms E bs)"
    using scan_run [OF assms(2) compile_term_run(1) [OF c] src_start works_start(1), of "code I" "length (code I)"] lim
    by (simp add: start_info_def)
  then show ?thesis by (auto simp: scanAtomsRecord_def works_start r start_info_def)
qed

theorem scan_atoms_record_witness:
  "\<exists>r bs. compileTermToHeap sample_rec_env False False sample_heap 0 = Some (r, [], sample_heap) \<and>
     scanAtomsRecord sample_rec_env (rcode r) = Some (bs, []) \<and> real_atoms sample_rec_env bs = []"
proof -
  have "(case compileTermToHeap sample_rec_env False False sample_heap 0 of
      Some (r, as, h') \<Rightarrow> length (rcode r) = 13 \<and> as = [] | _ \<Rightarrow> False)" by code_simp
  then obtain r h' where r: "compileTermToHeap sample_rec_env False False sample_heap 0 = Some (r, [], h')" "length (rcode r) = 13"
    by (auto split: option.splits)
  have "h' = sample_heap" using r(1) compile_term_run(2) by (auto simp: compileTermToHeap_def)
  then show ?thesis using scan_atoms_record [OF r(1) sample_ok] r by auto
qed

end
