(* ===== verification/PL_RecordDB.thy ===== *)
theory PL_RecordDB
  imports PL_Heap
begin

text \<open>
  The recorded database (pl-rec.c and the references to records of pl-dbref.c): records in doubly
  linked lists by key, enumerated by \<^theory_text>\<open>recorded/3\<close> while others add and erase. Erased records stay in
  a list as long as an enumeration stands in it. The memory is a map from addresses to structures; an
  operation that reads or writes freed memory, or that does not return, is \<^const>\<open>None\<close>. What the
  records hold is a parameter, as is the outcome of the unifications of a call.
\<close>

section \<open>Structures\<close>

type_synonym rref = nat
type_synonym rlist = nat

text \<open>A record with its two flags \<^theory_text>\<open>R_ERASED\<close> and \<^theory_text>\<open>R_DBREF\<close>.\<close>

record 'p rec_cell =
  payload :: 'p
  erased :: bool
  dbref :: bool

record 'p recordRef =
  in_list :: rlist
  next_rec :: "rref option"
  prev_rec :: "rref option"
  record_of :: "'p rec_cell option"

record 'k recordList =
  firstRecord :: "rref option"
  lastRecord :: "rref option"
  list_key :: 'k
  dirty :: bool
  references :: int

text \<open>
  The table of the lists, the symbols that refer to records (\<^theory_text>\<open>blobs\<close>) and the records that
  have been freed.
\<close>

record ('k, 'p) rec_db =
  refs :: "rref \<Rightarrow> 'p recordRef option"
  rlists :: "rlist \<Rightarrow> 'k recordList option"
  table :: "('k \<times> rlist) list"
  fresh :: nat
  blobs :: "rref list"
  freed :: "'p list"

definition initRecords :: "('k, 'p) rec_db" where
  "initRecords = \<lparr>refs = (\<lambda>_. None), rlists = (\<lambda>_. None), table = [], fresh = 0, blobs = [], freed = []\<rparr>"

definition upd_ref :: "rref \<Rightarrow> ('p recordRef \<Rightarrow> 'p recordRef) \<Rightarrow> ('k, 'p) rec_db \<Rightarrow> ('k, 'p) rec_db option" where
  "upd_ref r f db = map_option (\<lambda>n. db\<lparr>refs := (refs db)(r \<mapsto> f n)\<rparr>) (refs db r)"

definition upd_list :: "rlist \<Rightarrow> ('k recordList \<Rightarrow> 'k recordList) \<Rightarrow> ('k, 'p) rec_db \<Rightarrow> ('k, 'p) rec_db option" where
  "upd_list l f db = map_option (\<lambda>R. db\<lparr>rlists := (rlists db)(l \<mapsto> f R)\<rparr>) (rlists db l)"

text \<open>The record behind a reference, which must be there.\<close>

definition rec_at :: "('k, 'p) rec_db \<Rightarrow> rref \<Rightarrow> ('p recordRef \<times> 'p rec_cell) option" where
  "rec_at db r = (case refs db r of
     None \<Rightarrow> None | Some n \<Rightarrow> map_option (\<lambda>c. (n, c)) (record_of n))"

section \<open>Keys\<close>

datatype rec_key = KeyAtom atom_t | KeyInt int64 | KeyFunctor functor_t

text \<open>\<^theory_text>\<open>getKeyEx\<close>: a type error is \<^term>\<open>Inl ()\<close>.\<close>

definition getKeyEx :: "heap \<Rightarrow> addr \<Rightarrow> (unit + rec_key) option" where
  "getKeyEx h key =
     (case deRef h key of
        None \<Rightarrow> None
      | Some p \<Rightarrow>
          (case cell h p of
             WAtom a \<Rightarrow> Some (Inr (KeyAtom a))
           | WInt i \<Rightarrow> Some (Inr (KeyInt i))
           | WTerm f \<Rightarrow>
               (case func h f of Some (Functor fd) \<Rightarrow> Some (Inr (KeyFunctor fd)) | _ \<Rightarrow> None)
           | _ \<Rightarrow> Some (Inl ())))"

section \<open>Lists of records\<close>

definition lookupRecordList :: "'k \<Rightarrow> ('k, 'p) rec_db \<Rightarrow> rlist \<times> ('k, 'p) rec_db" where
  "lookupRecordList k db =
     (case map_of (table db) k of
        Some l \<Rightarrow> (l, db)
      | None \<Rightarrow>
          let l = fresh db;
              R = \<lparr>firstRecord = None, lastRecord = None, list_key = k, dirty = False, references = 0\<rparr> in
          (l, db\<lparr>rlists := (rlists db)(l \<mapsto> R), table := (k, l) # table db, fresh := l + 1\<rparr>))"

partial_function (option) first_live :: "('k, 'p) rec_db \<Rightarrow> rref option \<Rightarrow> rref option option" where
  "first_live db r =
     (case r of
        None \<Rightarrow> Some None
      | Some x \<Rightarrow>
          (case rec_at db x of
             None \<Rightarrow> None
           | Some (n, c) \<Rightarrow> if \<not> erased c then Some (Some x) else first_live db (next_rec n)))"

declare first_live.simps [code]

definition firstRecordRecordList :: "('k, 'p) rec_db \<Rightarrow> rlist \<Rightarrow> rref option option" where
  "firstRecordRecordList db l =
     (case rlists db l of None \<Rightarrow> None | Some R \<Rightarrow> first_live db (firstRecord R))"

definition isCurrentRecordList :: "'k \<Rightarrow> bool \<Rightarrow> ('k, 'p) rec_db \<Rightarrow> rlist option option" where
  "isCurrentRecordList k must_be_non_empty db =
     (case map_of (table db) k of
        None \<Rightarrow> Some None
      | Some l \<Rightarrow>
          if must_be_non_empty then map_option (\<lambda>r. if r = None then None else Some l) (firstRecordRecordList db l)
          else Some (Some l))"

definition freeRecordRef :: "rref \<Rightarrow> ('k, 'p) rec_db \<Rightarrow> ('k, 'p) rec_db option" where
  "freeRecordRef r db =
     (case rec_at db r of
        None \<Rightarrow> None
      | Some (n, c) \<Rightarrow>
          let reclaim_now = \<not> dbref c; db = db\<lparr>freed := payload c # freed db\<rparr> in
          Some (if reclaim_now then db\<lparr>refs := (refs db)(r := None)\<rparr>
                else db\<lparr>refs := (refs db)(r \<mapsto> n\<lparr>record_of := None\<rparr>)\<rparr>))"

definition remove_record :: "rref \<Rightarrow> ('k, 'p) rec_db \<Rightarrow> ('k, 'p) rec_db option" where
  "remove_record r db =
     (case refs db r of
        None \<Rightarrow> None
      | Some n \<Rightarrow>
          Option.bind
            (case prev_rec n of
               Some p \<Rightarrow> upd_ref p (\<lambda>m. m\<lparr>next_rec := next_rec n\<rparr>) db
             | None \<Rightarrow> upd_list (in_list n) (\<lambda>R. R\<lparr>firstRecord := next_rec n\<rparr>) db)
            (\<lambda>db. Option.bind
              (case next_rec n of
                 Some q \<Rightarrow> upd_ref q (\<lambda>m. m\<lparr>prev_rec := prev_rec n\<rparr>) db
               | None \<Rightarrow> upd_list (in_list n) (\<lambda>R. R\<lparr>lastRecord := prev_rec n\<rparr>) db)
              (freeRecordRef r)))"

partial_function (option) clean_loop :: "rref option \<Rightarrow> ('k, 'p) rec_db \<Rightarrow> ('k, 'p) rec_db option" where
  "clean_loop r db =
     (case r of
        None \<Rightarrow> Some db
      | Some x \<Rightarrow>
          (case rec_at db x of
             None \<Rightarrow> None
           | Some (n, c) \<Rightarrow>
               (case (if erased c then remove_record x db else Some db) of
                  None \<Rightarrow> None | Some db \<Rightarrow> clean_loop (next_rec n) db)))"

declare clean_loop.simps [code]

definition cleanRecordList :: "rlist \<Rightarrow> ('k, 'p) rec_db \<Rightarrow> ('k, 'p) rec_db option" where
  "cleanRecordList l db = (case rlists db l of None \<Rightarrow> None | Some R \<Rightarrow> clean_loop (firstRecord R) db)"

section \<open>References\<close>

text \<open>
  \<^theory_text>\<open>PL_unify_recref\<close> makes the symbol that refers to a record, if there is none yet;
  \<^theory_text>\<open>release_record\<close> is called when the symbol is reclaimed.
\<close>

definition acquire_record :: "rref \<Rightarrow> ('k, 'p) rec_db \<Rightarrow> ('k, 'p) rec_db option" where
  "acquire_record r db =
     map_option (\<lambda>(n, c). db\<lparr>refs := (refs db)(r \<mapsto> n\<lparr>record_of := Some (c\<lparr>dbref := True\<rparr>)\<rparr>)\<rparr>) (rec_at db r)"

definition make_blob :: "rref \<Rightarrow> ('k, 'p) rec_db \<Rightarrow> ('k, 'p) rec_db option" where
  "make_blob r db =
     (if r \<in> set (blobs db) then Some db
      else map_option (\<lambda>db. db\<lparr>blobs := r # blobs db\<rparr>) (acquire_record r db))"

definition release_record :: "rref \<Rightarrow> ('k, 'p) rec_db \<Rightarrow> ('k, 'p) rec_db option" where
  "release_record r db =
     (case refs db r of
        None \<Rightarrow> None
      | Some n \<Rightarrow>
          let db = db\<lparr>blobs := removeAll r (blobs db)\<rparr> in
          Some (case record_of n of
                  Some c \<Rightarrow> db\<lparr>refs := (refs db)(r \<mapsto> n\<lparr>record_of := Some (c\<lparr>dbref := False\<rparr>)\<rparr>)\<rparr>
                | None \<Rightarrow> db\<lparr>refs := (refs db)(r := None)\<rparr>))"

text \<open>\<^theory_text>\<open>PL_get_recref\<close> for a symbol that refers to a record: \<^const>\<open>False\<close> for an erased one.\<close>

definition PL_get_recref :: "rref \<Rightarrow> ('k, 'p) rec_db \<Rightarrow> bool option" where
  "PL_get_recref r db =
     map_option (\<lambda>n. case record_of n of None \<Rightarrow> False | Some c \<Rightarrow> \<not> erased c) (refs db r)"

section \<open>Adding and erasing\<close>

datatype ref_arg = NoRef | RefBound | RefVar bool

datatype rec_result = RecTrue | RecFalse | RecKeyError | RecUninstantiationError | RecNoMemory

text \<open>
  \<^theory_text>\<open>record()\<close>: the key is \<^const>\<open>None\<close> when it raised an error, the copy when there is no memory; a
  variable reference says whether its unification with the new symbol succeeds.
\<close>

definition link_record :: "bool \<Rightarrow> 'k \<Rightarrow> rref \<Rightarrow> ('k, 'p) rec_db \<Rightarrow> ('k, 'p) rec_db option" where
  "link_record recorda k r db =
     (case lookupRecordList k db of (l, db) \<Rightarrow>
        (case rlists db l of
           None \<Rightarrow> None
         | Some R \<Rightarrow>
             Option.bind (upd_ref r (\<lambda>n. n\<lparr>in_list := l\<rparr>) db) (\<lambda>db.
             (case (firstRecord R, lastRecord R) of
                (None, _) \<Rightarrow>
                  Option.bind (upd_ref r (\<lambda>n. n\<lparr>next_rec := None, prev_rec := None\<rparr>) db)
                    (upd_list l (\<lambda>R. R\<lparr>firstRecord := Some r, lastRecord := Some r\<rparr>))
              | (Some f, z) \<Rightarrow>
                  if recorda then
                    Option.bind (upd_ref r (\<lambda>n. n\<lparr>prev_rec := None, next_rec := Some f\<rparr>) db)
                      (\<lambda>db. Option.bind (upd_ref f (\<lambda>n. n\<lparr>prev_rec := Some r\<rparr>) db)
                        (upd_list l (\<lambda>R. R\<lparr>firstRecord := Some r\<rparr>)))
                  else
                    (case z of
                       None \<Rightarrow> None
                     | Some e \<Rightarrow>
                         Option.bind (upd_ref r (\<lambda>n. n\<lparr>next_rec := None, prev_rec := Some e\<rparr>) db)
                           (\<lambda>db. Option.bind (upd_ref e (\<lambda>n. n\<lparr>next_rec := Some r\<rparr>) db)
                             (upd_list l (\<lambda>R. R\<lparr>lastRecord := Some r\<rparr>))))))))"

definition record_db :: "bool \<Rightarrow> 'k option \<Rightarrow> 'p option \<Rightarrow> ref_arg \<Rightarrow> ('k, 'p) rec_db \<Rightarrow>
    (rec_result \<times> ('k, 'p) rec_db) option" where
  "record_db recorda key copy ref db =
     (case key of
        None \<Rightarrow> Some (RecKeyError, db)
      | Some k \<Rightarrow>
          if ref = RefBound then Some (RecUninstantiationError, db)
          else
            (case copy of
               None \<Rightarrow> Some (RecNoMemory, db)
             | Some p \<Rightarrow>
                 let r = fresh db;
                     n = \<lparr>in_list = 0, next_rec = None, prev_rec = None,
                          record_of = Some \<lparr>payload = p, erased = False, dbref = False\<rparr>\<rparr>;
                     db = db\<lparr>refs := (refs db)(r \<mapsto> n), fresh := r + 1\<rparr> in
                 Option.bind (if ref = NoRef then Some db else make_blob r db) (\<lambda>db.
                   if ref = RefVar False
                   then Some (RecFalse, db\<lparr>refs := (refs db)(r := None), freed := p # freed db\<rparr>)
                   else map_option (Pair RecTrue) (link_record recorda k r db))))"

text \<open>\<^theory_text>\<open>erase/1\<close> of a record; \<open>hook\<close> is the result of the event hook.\<close>

definition erase :: "rref \<Rightarrow> bool \<Rightarrow> ('k, 'p) rec_db \<Rightarrow> (bool \<times> ('k, 'p) rec_db) option" where
  "erase r hook db =
     (case PL_get_recref r db of
        None \<Rightarrow> None
      | Some False \<Rightarrow> Some (False, db)
      | Some True \<Rightarrow>
          (case rec_at db r of
             None \<Rightarrow> None
           | Some (n, c) \<Rightarrow>
               (case rlists db (in_list n) of
                  None \<Rightarrow> None
                | Some R \<Rightarrow>
                    map_option (Pair hook)
                      (if references R \<noteq> 0
                       then Option.bind (upd_ref r (\<lambda>n. n\<lparr>record_of := Some (c\<lparr>erased := True\<rparr>)\<rparr>) db)
                              (upd_list (in_list n) (\<lambda>R. R\<lparr>dirty := True\<rparr>))
                       else remove_record r db))))"

section \<open>Enumerating\<close>

text \<open>
  The state of \<^theory_text>\<open>recorded/3\<close>: the lists that a table enumeration has left, when the key is not known,
  and the current record.
\<close>

record recorded_state =
  enum :: "rlist list option"
  cur :: "rref option"

definition release_list :: "rlist \<Rightarrow> ('k, 'p) rec_db \<Rightarrow> ('k, 'p) rec_db option" where
  "release_list l db =
     Option.bind (upd_list l (\<lambda>R. R\<lparr>references := references R - 1\<rparr>) db) (\<lambda>db.
       case rlists db l of
         None \<Rightarrow> None
       | Some R \<Rightarrow> if references R = 0 \<and> dirty R then cleanRecordList l db else Some db)"

definition free_state :: "recorded_state \<Rightarrow> ('k, 'p) rec_db \<Rightarrow> ('k, 'p) rec_db option" where
  "free_state st db =
     (case cur st of
        None \<Rightarrow> Some db
      | Some r \<Rightarrow> (case refs db r of None \<Rightarrow> None | Some n \<Rightarrow> release_list (in_list n) db))"

text \<open>\<^theory_text>\<open>advance_state\<close>: the field \<^theory_text>\<open>next\<close> is read once more after the list may have been cleaned.\<close>

partial_function (option) advance_state :: "rref \<Rightarrow> ('k, 'p) rec_db \<Rightarrow> (rref option \<times> ('k, 'p) rec_db) option" where
  "advance_state r db =
     (case refs db r of
        None \<Rightarrow> None
      | Some n \<Rightarrow>
          (case (if next_rec n = None then release_list (in_list n) db else Some db) of
             None \<Rightarrow> None
           | Some db \<Rightarrow>
               (case refs db r of
                  None \<Rightarrow> None
                | Some n \<Rightarrow>
                    (case next_rec n of
                       None \<Rightarrow> Some (None, db)
                     | Some x \<Rightarrow>
                         (case rec_at db x of
                            None \<Rightarrow> None
                          | Some (m, c) \<Rightarrow> if erased c then advance_state x db else Some (Some x, db))))))"

declare advance_state.simps [code]

text \<open>
  A call of \<^theory_text>\<open>recorded/3\<close> as the outcomes of what it calls: whether a record can be copied to the
  stacks and unifies with the term, whether the reference unifies, whether a failure raised an
  exception, whether the key of a list unifies with an unknown key.
\<close>

record ('k, 'p) goal =
  copies :: "'p \<Rightarrow> bool"
  unifies :: "'p \<Rightarrow> bool"
  wants_ref :: bool
  ref_unifies :: "rref \<Rightarrow> bool"
  raises :: "'p \<Rightarrow> bool"
  key_unifies :: "'k \<Rightarrow> bool"

datatype visit = Answer | NoAnswer | Error

definition visit_record :: "('k, 'p) goal \<Rightarrow> bool \<Rightarrow> rref \<Rightarrow> ('k, 'p) rec_db \<Rightarrow> (visit \<times> ('k, 'p) rec_db) option" where
  "visit_record g enumerating r db =
     (case rec_at db r of
        None \<Rightarrow> None
      | Some (n, c) \<Rightarrow>
          let failed = (if raises g (payload c) then Error else NoAnswer) in
          if \<not> copies g (payload c) then Some (Error, db)
          else if \<not> unifies g (payload c) then Some (failed, db)
          else
            Option.bind (if wants_ref g then make_blob r db else Some db) (\<lambda>db.
              if wants_ref g \<and> \<not> ref_unifies g r then Some (failed, db)
              else
                (case rlists db (in_list n) of
                   None \<Rightarrow> None
                 | Some R \<Rightarrow> Some (if enumerating \<and> \<not> key_unifies g (list_key R) then Error else Answer, db))))"

datatype scan = ScanEnd bool | ScanYield rref | ScanError rref

partial_function (option) scan_list :: "('k, 'p) goal \<Rightarrow> bool \<Rightarrow> rref option \<Rightarrow> bool \<Rightarrow> ('k, 'p) rec_db \<Rightarrow>
    (scan \<times> ('k, 'p) rec_db) option" where
  "scan_list g enumerating r answered db =
     (case r of
        None \<Rightarrow> Some (ScanEnd answered, db)
      | Some x \<Rightarrow>
          (case visit_record g enumerating x db of
             None \<Rightarrow> None
           | Some (Error, db) \<Rightarrow> Some (ScanError x, db)
           | Some (NoAnswer, db) \<Rightarrow>
               (case advance_state x db of None \<Rightarrow> None | Some (r, db) \<Rightarrow> scan_list g enumerating r answered db)
           | Some (Answer, db) \<Rightarrow>
               (case refs db x of
                  None \<Rightarrow> None
                | Some n \<Rightarrow>
                    (case next_rec n of
                       Some y \<Rightarrow> Some (ScanYield y, db)
                     | None \<Rightarrow>
                         (case advance_state x db of
                            None \<Rightarrow> None | Some (r, db) \<Rightarrow> scan_list g enumerating r True db)))))"

declare scan_list.simps [code]

text \<open>Advancing to the next list with a record, of which the enumeration takes a reference.\<close>

fun next_key :: "rlist list \<Rightarrow> ('k, 'p) rec_db \<Rightarrow> (rref option \<times> rlist list \<times> ('k, 'p) rec_db) option" where
  "next_key [] db = Some (None, [], db)"
| "next_key (l # ls) db =
     (case firstRecordRecordList db l of
        None \<Rightarrow> None
      | Some None \<Rightarrow> next_key ls db
      | Some (Some r) \<Rightarrow>
          map_option (\<lambda>db. (Some r, ls, db)) (upd_list l (\<lambda>R. R\<lparr>references := references R + 1\<rparr>) db))"

lemma next_key_length: "next_key ls db = Some (Some r, ls', db') \<Longrightarrow> length ls' < length ls"
  by (induction ls) (auto split: option.splits)

datatype recorded_result = Fail | Succeed | Retry recorded_state | TypeError

text \<open>The loop over the lists; every round but the last one takes a list from the enumeration.\<close>

function recorded_loop :: "('k, 'p) goal \<Rightarrow> recorded_state \<Rightarrow> ('k, 'p) rec_db \<Rightarrow>
    (recorded_result \<times> ('k, 'p) rec_db) option" where
  "recorded_loop g st db =
     (case scan_list g (enum st \<noteq> None) (cur st) False db of
        None \<Rightarrow> None
      | Some (ScanYield y, db) \<Rightarrow> Some (Retry (st\<lparr>cur := Some y\<rparr>), db)
      | Some (ScanError x, db) \<Rightarrow> map_option (Pair Fail) (free_state (st\<lparr>cur := Some x\<rparr>) db)
      | Some (ScanEnd answered, db) \<Rightarrow>
          (case enum st of
             None \<Rightarrow> Some (if answered then Succeed else Fail, db)
           | Some ls \<Rightarrow>
               (case next_key ls db of
                  None \<Rightarrow> None
                | Some (r, ls', db) \<Rightarrow>
                    if answered then Some (Retry \<lparr>enum = Some ls', cur = r\<rparr>, db)
                    else if r = None then Some (Fail, db)
                    else recorded_loop g \<lparr>enum = Some ls', cur = r\<rparr> db)))"
  by auto
termination
  by (relation "measure (\<lambda>(g, st, db). case enum st of None \<Rightarrow> 0 | Some ls \<Rightarrow> length ls)") (auto dest: next_key_length)

declare recorded_loop.simps [simp del]

datatype 'k key_arg = KeyVar | KeyBad | KeyIs 'k

datatype dbref_arg = NoDbRef | DbRecord rref

text \<open>The first call with a reference: \<open>found\<close> unifies the copy of its record with the term.\<close>

definition recorded_by_ref :: "('k, 'p) goal \<Rightarrow> dbref_arg \<Rightarrow> ('k, 'p) rec_db \<Rightarrow> recorded_result option" where
  "recorded_by_ref g ref db =
     (case ref of
        NoDbRef \<Rightarrow> Some TypeError
      | DbRecord r \<Rightarrow>
          (case PL_get_recref r db of
             None \<Rightarrow> None
           | Some False \<Rightarrow> Some Fail
           | Some True \<Rightarrow>
               (case rec_at db r of
                  None \<Rightarrow> None
                | Some (n, c) \<Rightarrow>
                    (case rlists db (in_list n) of
                       None \<Rightarrow> None
                     | Some R \<Rightarrow>
                         Some (if key_unifies g (list_key R) \<and> copies g (payload c) \<and> unifies g (payload c)
                               then Succeed else Fail)))))"

definition recorded_first :: "('k, 'p) goal \<Rightarrow> 'k key_arg \<Rightarrow> ('k, 'p) rec_db \<Rightarrow>
    (recorded_result \<times> ('k, 'p) rec_db) option" where
  "recorded_first g key db =
     (case key of
        KeyVar \<Rightarrow> recorded_loop g \<lparr>enum = Some (map snd (table db)), cur = None\<rparr> db
      | KeyBad \<Rightarrow> Some (TypeError, db)
      | KeyIs k \<Rightarrow>
          (case isCurrentRecordList k True db of
             None \<Rightarrow> None
           | Some None \<Rightarrow> Some (Fail, db)
           | Some (Some l) \<Rightarrow>
               (case upd_list l (\<lambda>R. R\<lparr>references := references R + 1\<rparr>) db of
                  None \<Rightarrow> None
                | Some db \<Rightarrow>
                    (case rlists db l of
                       None \<Rightarrow> None
                     | Some R \<Rightarrow> recorded_loop g \<lparr>enum = None, cur = firstRecord R\<rparr> db))))"

definition recorded_redo :: "('k, 'p) goal \<Rightarrow> recorded_state \<Rightarrow> ('k, 'p) rec_db \<Rightarrow>
    (recorded_result \<times> ('k, 'p) rec_db) option" where
  "recorded_redo g st db = recorded_loop g st db"

definition recorded_cut :: "recorded_state \<Rightarrow> ('k, 'p) rec_db \<Rightarrow> ('k, 'p) rec_db option" where
  "recorded_cut st db = free_state st db"

text \<open>\<^theory_text>\<open>current_key/1\<close> with a key, \<^theory_text>\<open>instance/2\<close> with a reference to a record.\<close>

definition current_key :: "'k key_arg \<Rightarrow> ('k, 'p) rec_db \<Rightarrow> bool option" where
  "current_key key db =
     (case key of KeyIs k \<Rightarrow> map_option (\<lambda>l. l \<noteq> None) (isCurrentRecordList k True db) | _ \<Rightarrow> Some False)"

definition rec_instance :: "('k, 'p) goal \<Rightarrow> rref \<Rightarrow> ('k, 'p) rec_db \<Rightarrow> bool option" where
  "rec_instance g r db =
     (case PL_get_recref r db of
        None \<Rightarrow> None
      | Some False \<Rightarrow> Some False
      | Some True \<Rightarrow> map_option (\<lambda>(n, c). copies g (payload c) \<and> unifies g (payload c)) (rec_at db r))"

end
