(* ===== verification/PL_RecordLists.thy ===== *)
theory PL_RecordLists
  imports PL_RecordDB
begin

text \<open>
  The lists of the recorded database: doubly linked segments in memory, the invariant \<open>db_rep\<close> that
  ties the memory to one sequence of records for each list, and what adding, removing, cleaning and
  referring do to these sequences.
\<close>

section \<open>Linked lists in memory\<close>

definition hd_opt :: "'a list \<Rightarrow> 'a option \<Rightarrow> 'a option" where
  "hd_opt xs q = (case xs of [] \<Rightarrow> q | x # _ \<Rightarrow> Some x)"

definition last_opt :: "'a option \<Rightarrow> 'a list \<Rightarrow> 'a option" where
  "last_opt p xs = (if xs = [] then p else Some (last xs))"

lemma ends [simp]:
  "hd_opt [] q = q" "hd_opt (x # xs) q = Some x" "last_opt p [] = p" "last_opt p (x # xs) = last_opt (Some x) xs"
  "hd_opt (as @ bs) q = hd_opt as (hd_opt bs q)" "last_opt p (as @ bs) = last_opt (last_opt p as) bs"
  by (auto simp: hd_opt_def last_opt_def split: list.splits)

text \<open>The nodes \<open>xs\<close> of the list \<open>l\<close>, linked between \<open>p\<close> and \<open>q\<close>.\<close>

fun lseg :: "(rref \<Rightarrow> 'p recordRef option) \<Rightarrow> rlist \<Rightarrow> rref option \<Rightarrow> rref list \<Rightarrow> rref option \<Rightarrow> bool" where
  "lseg M l p [] q = True"
| "lseg M l p (x # xs) q \<longleftrightarrow> (\<exists>n. M x = Some n \<and> in_list n = l \<and> record_of n \<noteq> None \<and>
     prev_rec n = p \<and> next_rec n = hd_opt xs q \<and> lseg M l (Some x) xs q)"

lemma lseg_append:
  "lseg M l p (as @ bs) q \<longleftrightarrow> lseg M l p as (hd_opt bs q) \<and> lseg M l (last_opt p as) bs q"
  by (induction as arbitrary: p) auto

lemma lseg_cong: "(\<And>x. x \<in> set xs \<Longrightarrow> M x = N x) \<Longrightarrow> lseg M l p xs q = lseg N l p xs q"
  by (induction xs arbitrary: p) auto

text \<open>Changing the record of a node, or the link at one end, keeps the segment.\<close>

lemma lseg_record:
  "lseg M l p xs q \<Longrightarrow> M x = Some n \<Longrightarrow> lseg (M(x \<mapsto> n\<lparr>record_of := Some c\<rparr>)) l p xs q"
  by (induction xs arbitrary: p) auto

lemma lseg_first:
  assumes "lseg M l p (x # xs) q" "x \<notin> set xs" "M x = Some n"
  shows "lseg (M(x \<mapsto> n\<lparr>prev_rec := p'\<rparr>)) l p' (x # xs) q"
proof -
  have "lseg (M(x \<mapsto> n\<lparr>prev_rec := p'\<rparr>)) l (Some x) xs q = lseg M l (Some x) xs q"
    by (rule lseg_cong) (use assms(2) in auto)
  then show ?thesis using assms by auto
qed

lemma lseg_last:
  assumes "lseg M l p (xs @ [x]) q" "x \<notin> set xs" "M x = Some n"
  shows "lseg (M(x \<mapsto> n\<lparr>next_rec := q'\<rparr>)) l p (xs @ [x]) q'"
proof -
  have "lseg (M(x \<mapsto> n\<lparr>next_rec := q'\<rparr>)) l p xs (Some x) = lseg M l p xs (Some x)"
    by (rule lseg_cong) (use assms(2) in auto)
  then show ?thesis using assms by (auto simp: lseg_append)
qed

lemma lseg_node:
  assumes "lseg M l p (as @ x # bs) q"
  shows "\<exists>n c. M x = Some n \<and> in_list n = l \<and> record_of n = Some c \<and> prev_rec n = last_opt p as \<and> next_rec n = hd_opt bs q"
  using assms by (auto simp: lseg_append)

lemma lseg_in: "lseg M l p xs q \<Longrightarrow> x \<in> set xs \<Longrightarrow> \<exists>n c. M x = Some n \<and> in_list n = l \<and> record_of n = Some c"
  by (metis split_list lseg_node)

section \<open>The invariant\<close>

text \<open>
  \<open>L\<close> gives the nodes of every list; every record is in its list, a node without a record is kept
  for the symbol that refers to it, and flag and symbols agree.
\<close>

definition cell_at :: "('k, 'p) rec_db \<Rightarrow> rref \<Rightarrow> 'p rec_cell option" where
  "cell_at db x = (case refs db x of None \<Rightarrow> None | Some n \<Rightarrow> record_of n)"

definition erased_at :: "('k, 'p) rec_db \<Rightarrow> rref \<Rightarrow> bool" where
  "erased_at db x = (case cell_at db x of Some c \<Rightarrow> erased c | None \<Rightarrow> False)"

definition payload_at :: "('k, 'p) rec_db \<Rightarrow> rref \<Rightarrow> 'p" where
  "payload_at db x = payload (the (cell_at db x))"

definition list_attr :: "('k, 'p) rec_db \<Rightarrow> rlist \<Rightarrow> ('k \<times> bool \<times> int) option" where
  "list_attr db l = map_option (\<lambda>R. (list_key R, dirty R, references R)) (rlists db l)"

definition list_ok :: "('k, 'p) rec_db \<Rightarrow> rlist \<Rightarrow> 'k recordList \<Rightarrow> rref list \<Rightarrow> bool" where
  "list_ok db l R xs \<longleftrightarrow> firstRecord R = hd_opt xs None \<and> lastRecord R = last_opt None xs \<and>
     lseg (refs db) l None xs None \<and> distinct xs"

definition node_ok :: "('k, 'p) rec_db \<Rightarrow> (rlist \<Rightarrow> rref list) \<Rightarrow> rref \<Rightarrow> 'p recordRef \<Rightarrow> bool" where
  "node_ok db L x n \<longleftrightarrow> x < fresh db \<and>
     (case record_of n of
        None \<Rightarrow> x \<in> set (blobs db)
      | Some c \<Rightarrow> x \<in> set (L (in_list n)) \<and> (dbref c \<longleftrightarrow> x \<in> set (blobs db)) \<and> (erased c \<longrightarrow> dbref c))"

definition db_rep :: "('k, 'p) rec_db \<Rightarrow> (rlist \<Rightarrow> rref list) \<Rightarrow> bool" where
  "db_rep db L \<longleftrightarrow>
     (\<forall>l. case rlists db l of None \<Rightarrow> L l = [] | Some R \<Rightarrow> l < fresh db \<and> list_ok db l R (L l)) \<and>
     (\<forall>x n. refs db x = Some n \<longrightarrow> node_ok db L x n) \<and>
     (\<forall>x\<in>set (blobs db). refs db x \<noteq> None) \<and>
     distinct (map fst (table db)) \<and> distinct (map snd (table db)) \<and>
     (\<forall>k l. (k, l) \<in> set (table db) \<longleftrightarrow> (\<exists>R. rlists db l = Some R \<and> list_key R = k))"

lemma db_repD:
  assumes "db_rep db L"
  shows "rlists db l = Some R \<Longrightarrow> list_ok db l R (L l)" "rlists db l = Some R \<Longrightarrow> l < fresh db"
    "rlists db l = None \<Longrightarrow> L l = []"
    "refs db x = Some n \<Longrightarrow> node_ok db L x n" "x \<in> set (blobs db) \<Longrightarrow> refs db x \<noteq> None"
    "map_of (table db) k = Some l \<Longrightarrow> \<exists>R. rlists db l = Some R \<and> list_key R = k"
    "(k, l) \<in> set (table db) \<longleftrightarrow> (\<exists>R. rlists db l = Some R \<and> list_key R = k)"
    "distinct (map fst (table db))" "distinct (map snd (table db))"
proof -
  note d = assms [unfolded db_rep_def]
  show "rlists db l = Some R \<Longrightarrow> list_ok db l R (L l)" "rlists db l = Some R \<Longrightarrow> l < fresh db"
    "rlists db l = None \<Longrightarrow> L l = []" using d [THEN conjunct1, rule_format, of l] by simp_all
  show "refs db x = Some n \<Longrightarrow> node_ok db L x n" "x \<in> set (blobs db) \<Longrightarrow> refs db x \<noteq> None" using d by blast+
  show t: "(k, l) \<in> set (table db) \<longleftrightarrow> (\<exists>R. rlists db l = Some R \<and> list_key R = k)" using d by blast
  show "map_of (table db) k = Some l \<Longrightarrow> \<exists>R. rlists db l = Some R \<and> list_key R = k"
    using t map_of_SomeD by fastforce
  show "distinct (map fst (table db))" "distinct (map snd (table db))" using d by blast+
qed

lemma db_rep_node:
  assumes "db_rep db L" "L l = as @ x # bs"
  shows "\<exists>n c. refs db x = Some n \<and> in_list n = l \<and> record_of n = Some c \<and>
    prev_rec n = last_opt None as \<and> next_rec n = hd_opt bs None"
proof -
  obtain R where "rlists db l = Some R" using db_repD(3) [OF assms(1)] assms(2) by (cases "rlists db l") auto
  then have "lseg (refs db) l None (as @ x # bs) None"
    using db_repD(1) [OF assms(1)] assms(2) by (fastforce simp: list_ok_def)
  from lseg_node [OF this] show ?thesis by blast
qed

lemma db_rep_rec_at:
  assumes "db_rep db L" "L l = as @ x # bs"
  shows "\<exists>n c. rec_at db x = Some (n, c) \<and> in_list n = l \<and> prev_rec n = last_opt None as \<and> next_rec n = hd_opt bs None"
  using db_rep_node [OF assms] by (auto simp: rec_at_def)

lemma db_rep_in:
  assumes "db_rep db L" "x \<in> set (L l)"
  shows "\<exists>n c R. rec_at db x = Some (n, c) \<and> refs db x = Some n \<and> record_of n = Some c \<and> in_list n = l \<and> rlists db l = Some R"
proof -
  obtain R where R: "rlists db l = Some R" using db_repD(3) [OF assms(1)] assms(2) by (cases "rlists db l") auto
  obtain as bs where "L l = as @ x # bs" using assms(2) split_list by fastforce
  then show ?thesis using db_rep_node [OF assms(1)] R by (fastforce simp: rec_at_def)
qed

lemma db_rep_distinct: "db_rep db L \<Longrightarrow> distinct (L l)"
  by (cases "rlists db l") (auto dest: db_repD(1,3) simp: list_ok_def)

lemma db_rep_disjoint: "db_rep db L \<Longrightarrow> x \<in> set (L l) \<Longrightarrow> x \<in> set (L m) \<Longrightarrow> l = m"
  using db_rep_in [of db L x l] db_rep_in [of db L x m] by auto

lemma initRecords_rep: "db_rep initRecords (\<lambda>_. [])"
  by (simp add: db_rep_def initRecords_def)

lemma rec_at_cell: "rec_at db x = Some (n, c) \<longleftrightarrow> refs db x = Some n \<and> record_of n = Some c"
  by (auto simp: rec_at_def split: option.splits)

lemma cell_at_iff: "cell_at db x = Some c \<longleftrightarrow> (\<exists>n. rec_at db x = Some (n, c))"
  by (auto simp: cell_at_def rec_at_cell split: option.splits)

text \<open>A change of one list.\<close>

lemma db_rep_change:
  assumes rep: "db_rep db L" and R: "rlists db l = Some R" "rlists db' = (rlists db)(l \<mapsto> R')" "list_key R' = list_key R"
    and ok: "list_ok db' l R' xs" and other: "\<And>y. y \<notin> set (L l) \<union> set xs \<Longrightarrow> refs db' y = refs db y"
    and new: "\<And>y n. y \<in> set (L l) \<union> set xs \<Longrightarrow> refs db' y = Some n \<Longrightarrow> node_ok db' (L(l := xs)) y n"
    and dis: "\<And>y m. y \<in> set xs \<Longrightarrow> m \<noteq> l \<Longrightarrow> y \<notin> set (L m)"
    and blobs: "\<And>y. y \<in> set (blobs db') \<Longrightarrow> refs db' y \<noteq> None"
      "\<And>y. y \<notin> set (L l) \<union> set xs \<Longrightarrow> y \<in> set (blobs db') \<longleftrightarrow> y \<in> set (blobs db)"
    and rest: "table db' = table db" "fresh db \<le> fresh db'"
  shows "db_rep db' (L(l := xs))"
  unfolding db_rep_def
proof (intro conjI allI ballI impI)
  fix m
  show "case rlists db' m of None \<Rightarrow> (L(l := xs)) m = [] | Some R \<Rightarrow> m < fresh db' \<and> list_ok db' m R ((L(l := xs)) m)"
  proof (cases "m = l")
    case True
    then show ?thesis using ok R db_repD(2) [OF rep R(1)] rest(2) by simp
  next
    case False
    have "lseg (refs db') m None (L m) None = lseg (refs db) m None (L m) None"
    proof (rule lseg_cong)
      fix x assume "x \<in> set (L m)"
      then have "x \<notin> set (L l) \<union> set xs" using db_rep_disjoint [OF rep, of x m l] dis False by auto
      then show "refs db' x = refs db x" by (rule other)
    qed
    then show ?thesis using False R(2) db_repD(1-3) [OF rep, of m] rest(2)
      by (auto simp: list_ok_def split: option.splits)
  qed
next
  fix x n assume x: "refs db' x = Some n"
  show "node_ok db' (L(l := xs)) x n"
  proof (cases "x \<in> set (L l) \<union> set xs")
    case False
    then have "node_ok db L x n" using x other db_repD(4) [OF rep] by simp
    then show ?thesis using False blobs(2) [OF False] rest(2) by (auto simp: node_ok_def split: option.splits)
  qed (use new x in auto)
next
  fix k m
  show "((k, m) \<in> set (table db')) = (\<exists>R. rlists db' m = Some R \<and> list_key R = k)"
    using db_repD(7) [OF rep, of k m] R rest(1) by (cases "m = l") auto
qed (use blobs(1) rest db_repD(8,9) [OF rep] in auto)

section \<open>Removing records\<close>

definition cleans :: "('k, 'p) rec_db \<Rightarrow> ('k, 'p) rec_db \<Rightarrow> rref list \<Rightarrow> bool" where
  "cleans db db' D \<longleftrightarrow> cell_at db' = (\<lambda>y. if y \<in> set D then None else cell_at db y) \<and>
     list_attr db' = list_attr db \<and> table db' = table db \<and> blobs db' = blobs db \<and> fresh db' = fresh db \<and>
     freed db' = rev (map (payload_at db) D) @ freed db \<and>
     (\<forall>y n n'. refs db y = Some n \<longrightarrow> next_rec n = None \<longrightarrow> refs db' y = Some n' \<longrightarrow> next_rec n' = None)"

lemma cleans_refl: "cleans db db []"
  by (simp add: cleans_def)

text \<open>The nodes around a gap, linked to each other.\<close>

definition skip_next :: "(rref \<Rightarrow> 'p recordRef option) \<Rightarrow> rref list \<Rightarrow> rref option \<Rightarrow> (rref \<Rightarrow> 'p recordRef option)" where
  "skip_next M as q = (if as = [] then M else M(last as \<mapsto> (the (M (last as)))\<lparr>next_rec := q\<rparr>))"

definition bypass :: "(rref \<Rightarrow> 'p recordRef option) \<Rightarrow> rref list \<Rightarrow> rref list \<Rightarrow> (rref \<Rightarrow> 'p recordRef option)" where
  "bypass M as bs = (let M1 = skip_next M as (hd_opt bs None) in
     if bs = [] then M1 else M1(hd bs \<mapsto> (the (M1 (hd bs)))\<lparr>prev_rec := last_opt None as\<rparr>))"

lemma skip_next_seg:
  assumes seg: "lseg M l None as (Some x)" "lseg M l (Some x) bs None"
    and dist: "distinct as" "set as \<inter> set bs = {}"
  shows "lseg (skip_next M as (hd_opt bs None)) l None as (hd_opt bs None)"
    "lseg (skip_next M as (hd_opt bs None)) l (Some x) bs None"
proof -
  define M1 where "M1 = skip_next M as (hd_opt bs None)"
  show "lseg (skip_next M as (hd_opt bs None)) l None as (hd_opt bs None)"
  proof (cases as rule: rev_cases)
    case (snoc as' p)
    have "p \<in> set as" using snoc by simp
    then obtain m where m: "M p = Some m" using lseg_in [OF seg(1)] by blast
    show ?thesis using lseg_last [of M l None as' p "Some x" m "hd_opt bs None"] seg(1) dist(1) m snoc
      by (simp add: skip_next_def)
  qed simp
  have "lseg M1 l (Some x) bs None = lseg M l (Some x) bs None"
    by (rule lseg_cong) (use dist(2) in \<open>auto simp: M1_def skip_next_def dest: last_in_set\<close>)
  then show "lseg (skip_next M as (hd_opt bs None)) l (Some x) bs None" using seg(2) by (simp add: M1_def)
qed

lemma bypass_seg:
  assumes seg: "lseg M l None as (Some x)" "lseg M l (Some x) bs None"
    and dist: "distinct as" "distinct bs" "set as \<inter> set bs = {}"
  shows "lseg (bypass M as bs) l None (as @ bs) None"
proof -
  define M1 where "M1 = skip_next M as (hd_opt bs None)"
  note seg1 = skip_next_seg [OF seg dist(1,3), folded M1_def]
  have "lseg (bypass M as bs) l None as (hd_opt bs None) = lseg M1 l None as (hd_opt bs None)"
    by (rule lseg_cong) (use dist(3) in \<open>auto simp: bypass_def Let_def M1_def dest: hd_in_set\<close>)
  moreover have "lseg (bypass M as bs) l (last_opt None as) bs None"
  proof (cases bs)
    case (Cons q bs')
    obtain m where m: "M1 q = Some m" using seg1(2) Cons by auto
    have "bypass M as bs = M1(q \<mapsto> m\<lparr>prev_rec := last_opt None as\<rparr>)" using m by (simp add: bypass_def Let_def Cons M1_def)
    then show ?thesis using lseg_first [OF seg1(2) [unfolded Cons] _ m] dist(2) Cons by (simp del: lseg.simps)
  qed simp
  ultimately show ?thesis using seg1(1) by (simp add: lseg_append)
qed

text \<open>Only links of the two nodes around the gap change.\<close>

lemma bypass_nodes:
  assumes seg: "lseg M l None as (Some x)" "lseg M l (Some x) bs None"
    and dist: "distinct as" "set as \<inter> set bs = {}"
  shows "M y = Some m \<Longrightarrow> bypass M as bs y = Some m' \<Longrightarrow>
      in_list m' = in_list m \<and> record_of m' = record_of m \<and> (next_rec m = None \<longrightarrow> next_rec m' = None)"
    and "bypass M as bs y = None \<longleftrightarrow> M y = None"
    and "(as \<noteq> [] \<Longrightarrow> y \<noteq> last as) \<Longrightarrow> (bs \<noteq> [] \<Longrightarrow> y \<noteq> hd bs) \<Longrightarrow> bypass M as bs y = M y"
proof -
  define M1 where "M1 = skip_next M as (hd_opt bs None)"
  note seg1 = skip_next_seg [OF seg dist, folded M1_def]
  obtain p where p: "as \<noteq> [] \<Longrightarrow> M (last as) = Some p \<and> next_rec p = Some x"
    using lseg_node [of M l None "butlast as" "last as" "[]" "Some x"] seg(1) by (cases "as = []") auto
  obtain q where q: "bs \<noteq> [] \<Longrightarrow> M1 (hd bs) = Some q" using lseg_in [OF seg1(2), of "hd bs"] by (cases "bs = []") auto
  have M1_at: "M1 y = (if as \<noteq> [] \<and> y = last as then Some (p\<lparr>next_rec := hd_opt bs None\<rparr>) else M y)" for y
    using p by (simp add: M1_def skip_next_def)
  have M2_at: "bypass M as bs y = (if bs \<noteq> [] \<and> y = hd bs then Some (q\<lparr>prev_rec := last_opt None as\<rparr>) else M1 y)" for y
    using q by (simp add: bypass_def Let_def M1_def)
  show "in_list m' = in_list m \<and> record_of m' = record_of m \<and> (next_rec m = None \<longrightarrow> next_rec m' = None)"
    if y: "M y = Some m" "bypass M as bs y = Some m'"
  proof -
    have s1: "in_list k = in_list m \<and> record_of k = record_of m \<and> (next_rec m = None \<longrightarrow> next_rec k = None)"
      if "M1 y = Some k" for k
      using that y(1) p by (cases "as \<noteq> [] \<and> y = last as") (simp_all add: M1_at, auto)
    show ?thesis using s1 y(2) q by (cases "bs \<noteq> [] \<and> y = hd bs") (simp_all add: M2_at, auto)
  qed
  have "M1 y = None \<longleftrightarrow> M y = None" using p M1_at [of y] by (cases "as \<noteq> [] \<and> y = last as") auto
  moreover have "bypass M as bs y = None \<longleftrightarrow> M1 y = None" using q M2_at [of y] by (cases "bs \<noteq> [] \<and> y = hd bs") auto
  ultimately show "bypass M as bs y = None \<longleftrightarrow> M y = None" by simp
  show "bypass M as bs y = M y" if "as \<noteq> [] \<Longrightarrow> y \<noteq> last as" "bs \<noteq> [] \<Longrightarrow> y \<noteq> hd bs"
    using that M1_at [of y] M2_at [of y] by (cases "as = []"; cases "bs = []") simp_all
qed

lemma remove_record_run:
  assumes n: "refs db x = Some n" "in_list n = l" "record_of n = Some c" "prev_rec n = last_opt None as" "next_rec n = hd_opt bs None"
    and R: "rlists db l = Some R"
    and seg: "lseg (refs db) l None as (Some x)" "lseg (refs db) l (Some x) bs None"
    and dist: "distinct as" "x \<notin> set as" "x \<notin> set bs" "set as \<inter> set bs = {}"
  shows "remove_record x db = Some (db\<lparr>
    refs := (if dbref c then (bypass (refs db) as bs)(x \<mapsto> n\<lparr>record_of := None\<rparr>) else (bypass (refs db) as bs)(x := None)),
    rlists := (rlists db)(l \<mapsto> let R = (if as = [] then R\<lparr>firstRecord := hd_opt bs None\<rparr> else R) in
      if bs = [] then R\<lparr>lastRecord := last_opt None as\<rparr> else R),
    freed := payload c # freed db\<rparr>)"
proof -
  define R1 where "R1 = (if as = [] then R\<lparr>firstRecord := hd_opt bs None\<rparr> else R)"
  define R' where "R' = (if bs = [] then R1\<lparr>lastRecord := last_opt None as\<rparr> else R1)"
  define M1 where "M1 = skip_next (refs db) as (hd_opt bs None)"
  define M2 where "M2 = bypass (refs db) as bs"
  define M3 where "M3 = (if dbref c then M2(x \<mapsto> n\<lparr>record_of := None\<rparr>) else M2(x := None))"
  note seg1 = skip_next_seg [OF seg dist(1,4), folded M1_def]
  have "as \<noteq> [] \<Longrightarrow> last as \<in> set as" "bs \<noteq> [] \<Longrightarrow> hd bs \<in> set bs" by simp_all
  then have neq: "as \<noteq> [] \<Longrightarrow> x \<noteq> last as" "bs \<noteq> [] \<Longrightarrow> x \<noteq> hd bs" using dist(2,3) by metis+
  have M2x: "M2 x = refs db x" using bypass_nodes(3) [OF seg dist(1,4)] neq by (simp add: M2_def)
  have f: "freeRecordRef x (db\<lparr>refs := M2, rlists := T\<rparr>) = Some (db\<lparr>refs := M3, rlists := T, freed := payload c # freed db\<rparr>)" for T
    using n(1,3) M2x by (simp add: freeRecordRef_def rec_at_def M3_def)
  have p: "refs db (last as) = Some (the (refs db (last as)))" if "as \<noteq> []"
    using lseg_in [OF seg(1), of "last as"] that by auto
  have q: "M1 (hd bs) = Some (the (M1 (hd bs)))" if "bs \<noteq> []"
    using lseg_in [OF seg1(2), of "hd bs"] that by auto
  have s1: "(case prev_rec n of Some p \<Rightarrow> upd_ref p (\<lambda>m. m\<lparr>next_rec := next_rec n\<rparr>) db
      | None \<Rightarrow> upd_list (in_list n) (\<lambda>R. R\<lparr>firstRecord := next_rec n\<rparr>) db) =
      Some (db\<lparr>refs := M1, rlists := (rlists db)(l \<mapsto> R1)\<rparr>)"
    using n R p by (auto simp: M1_def skip_next_def R1_def last_opt_def upd_ref_def upd_list_def fun_upd_idem)
  have s2: "(case next_rec n of Some q \<Rightarrow> upd_ref q (\<lambda>m. m\<lparr>prev_rec := prev_rec n\<rparr>) (db\<lparr>refs := M1, rlists := (rlists db)(l \<mapsto> R1)\<rparr>)
      | None \<Rightarrow> upd_list (in_list n) (\<lambda>R. R\<lparr>lastRecord := prev_rec n\<rparr>) (db\<lparr>refs := M1, rlists := (rlists db)(l \<mapsto> R1)\<rparr>)) =
      Some (db\<lparr>refs := M2, rlists := (rlists db)(l \<mapsto> R')\<rparr>)"
    using n q by (cases bs) (auto simp: M2_def bypass_def Let_def M1_def R'_def upd_ref_def upd_list_def)
  have "remove_record x db = Some (db\<lparr>refs := M3, rlists := (rlists db)(l \<mapsto> R'), freed := payload c # freed db\<rparr>)"
    by (simp only: remove_record_def n(1) option.case s1 bind.simps s2 f)
  then show ?thesis by (simp add: M3_def M2_def R'_def R1_def Let_def)
qed

lemma remove_record_rep:
  assumes rep: "db_rep db L" and L: "L l = as @ x # bs"
  shows "\<exists>db'. remove_record x db = Some db' \<and> db_rep db' (L(l := as @ bs)) \<and> cleans db db' [x]"
proof -
  obtain n c where n: "refs db x = Some n" "in_list n = l" "record_of n = Some c" "prev_rec n = last_opt None as"
    "next_rec n = hd_opt bs None" using db_rep_node [OF rep L] by blast
  have "x \<in> set (L l)" using L by simp
  then obtain R where R: "rlists db l = Some R" using db_rep_in [OF rep] by blast
  have ok: "list_ok db l R (as @ x # bs)" using db_repD(1) [OF rep R] L by simp
  then have seg: "lseg (refs db) l None as (Some x)" "lseg (refs db) l (Some x) bs None"
    and dist: "distinct as" "distinct bs" "x \<notin> set as" "x \<notin> set bs" "set as \<inter> set bs = {}"
    by (auto simp: list_ok_def lseg_append)
  define R' where "R' = (let R = (if as = [] then R\<lparr>firstRecord := hd_opt bs None\<rparr> else R) in
    if bs = [] then R\<lparr>lastRecord := last_opt None as\<rparr> else R)"
  define M2 where "M2 = bypass (refs db) as bs"
  define M3 where "M3 = (if dbref c then M2(x \<mapsto> n\<lparr>record_of := None\<rparr>) else M2(x := None))"
  let ?db = "db\<lparr>refs := M3, rlists := (rlists db)(l \<mapsto> R'), freed := payload c # freed db\<rparr>"
  have inside: "as \<noteq> [] \<Longrightarrow> last as \<in> set as" "bs \<noteq> [] \<Longrightarrow> hd bs \<in> set bs" by simp_all
  have rem: "remove_record x db = Some ?db"
    using remove_record_run [OF n R seg dist(1,3,4,5)] by (simp add: M3_def M2_def R'_def)
  note same = bypass_nodes(1) [OF seg dist(1,5), folded M2_def] and dom = bypass_nodes(2) [OF seg dist(1,5), folded M2_def]
    and other = bypass_nodes(3) [OF seg dist(1,5), folded M2_def]
  have seg3: "lseg M3 l None (as @ bs) None"
  proof -
    have "lseg M3 l None (as @ bs) None = lseg M2 l None (as @ bs) None"
      by (rule lseg_cong) (use dist in \<open>auto simp: M3_def\<close>)
    then show ?thesis using bypass_seg [OF seg dist(1,2,5)] by (simp add: M2_def)
  qed
  have "db_rep ?db (L(l := as @ bs))"
  proof (rule db_rep_change [OF rep R, where R' = R'])
    have "firstRecord R' = hd_opt (as @ bs) None"
      using ok by (cases as) (simp_all add: R'_def Let_def list_ok_def)
    moreover have "lastRecord R' = last_opt None (as @ bs)"
      using ok by (cases bs) (simp_all add: R'_def Let_def list_ok_def)
    ultimately show "list_ok ?db l R' (as @ bs)" using seg3 dist by (simp add: list_ok_def)
    show "list_key R' = list_key R" by (simp add: R'_def Let_def)
    show "refs ?db y = refs db y" if "y \<notin> set (L l) \<union> set (as @ bs)" for y
    proof -
      have "y \<noteq> x" "as \<noteq> [] \<Longrightarrow> y \<noteq> last as" "bs \<noteq> [] \<Longrightarrow> y \<noteq> hd bs" using that L inside by auto
      then show ?thesis using other [of y] by (auto simp: M3_def)
    qed
    show "node_ok ?db (L(l := as @ bs)) y m" if "y \<in> set (L l) \<union> set (as @ bs)" "refs ?db y = Some m" for y m
    proof -
      have "refs db y \<noteq> None" using that(2) dom [of y] n(1) by (cases "y = x") (auto simp: M3_def split: if_splits)
      then obtain k where k: "refs db y = Some k" by blast
      have "node_ok db L y k" by (rule db_repD(4) [OF rep k])
      then show ?thesis using that(2) same [OF k] n(1,3) k dist L
        by (cases "y = x") (auto simp: M3_def node_ok_def split: option.splits if_splits)
    qed
    show "y \<notin> set (L m)" if "y \<in> set (as @ bs)" "m \<noteq> l" for y m
      using that db_rep_disjoint [OF rep, of y l m] L by auto
    show "refs ?db y \<noteq> None" if "y \<in> set (blobs ?db)" for y
      using that db_repD(4,5) [OF rep, of y] dom [of y] n(1,3) by (auto simp: M3_def node_ok_def)
  qed (use R in auto)
  moreover have "cleans db ?db [x]"
  proof -
    have "cell_at ?db = (\<lambda>y. if y \<in> set [x] then None else cell_at db y)"
    proof
      fix y show "cell_at ?db y = (if y \<in> set [x] then None else cell_at db y)"
      proof (cases "y = x")
        case False
        then have "refs ?db y = M2 y" by (simp add: M3_def)
        moreover have "(case M2 y of None \<Rightarrow> None | Some n \<Rightarrow> record_of n) = (case refs db y of None \<Rightarrow> None | Some n \<Rightarrow> record_of n)"
        proof (cases "refs db y")
          case None
          then show ?thesis using dom [of y] by simp
        next
          case (Some m)
          then obtain m' where m': "M2 y = Some m'" using dom [of y] by (cases "M2 y") auto
          then show ?thesis using same [OF Some m'] Some by simp
        qed
        ultimately show ?thesis using False by (simp add: cell_at_def)
      next
        case True
        then show ?thesis by (simp add: cell_at_def M3_def)
      qed
    qed
    moreover have "list_attr ?db = list_attr db" using R by (auto simp: list_attr_def R'_def Let_def fun_eq_iff)
    moreover have "payload_at db x = payload c" using n by (simp add: payload_at_def cell_at_def)
    moreover have "next_rec m' = None" if "refs db y = Some m" "next_rec m = None" "M3 y = Some m'" for y m m'
      using that same [of y m m'] n(1) by (cases "y = x") (auto simp: M3_def split: if_splits)
    ultimately show ?thesis by (simp add: cleans_def)
  qed
  ultimately show ?thesis using rem by blast
qed

lemma cleans_trans:
  assumes "cleans db db' D" "cleans db' db'' D'" "set D \<inter> set D' = {}"
    and "\<And>y n. refs db'' y = Some n \<Longrightarrow> refs db' y \<noteq> None"
  shows "cleans db db'' (D @ D')"
proof -
  have "map (payload_at db') D' = map (payload_at db) D'"
    using assms(1,3) by (auto simp: cleans_def payload_at_def)
  then have f: "freed db'' = rev (map (payload_at db) (D @ D')) @ freed db" using assms(1,2) by (simp add: cleans_def)
  have "next_rec n'' = None" if n: "refs db y = Some n" "next_rec n = None" "refs db'' y = Some n''" for y n n''
  proof -
    obtain n' where n': "refs db' y = Some n'" using assms(4) [OF n(3)] by blast
    then have "next_rec n' = None" using assms(1) n(1,2) by (auto simp: cleans_def)
    then show ?thesis using assms(2) n' n(3) by (auto simp: cleans_def)
  qed
  moreover have "cell_at db'' = (\<lambda>y. if y \<in> set (D @ D') then None else cell_at db y)"
  proof
    fix y show "cell_at db'' y = (if y \<in> set (D @ D') then None else cell_at db y)"
      using assms(1,2) by (simp add: cleans_def del: all_simps imp_conjL)
  qed
  moreover have "list_attr db'' = list_attr db" "table db'' = table db" "blobs db'' = blobs db" "fresh db'' = fresh db"
    using assms(1,2) by (simp_all only: cleans_def)
  ultimately show ?thesis using f unfolding cleans_def by blast
qed

lemma cleansD:
  assumes "cleans db db' D"
  shows "cell_at db' y = (if y \<in> set D then None else cell_at db y)" "list_attr db' = list_attr db"
    "table db' = table db" "blobs db' = blobs db" "fresh db' = fresh db"
    "y \<notin> set D \<Longrightarrow> erased_at db' y = erased_at db y" "y \<notin> set D \<Longrightarrow> payload_at db' y = payload_at db y"
    "freed db' = rev (map (payload_at db) D) @ freed db"
    "refs db y = Some n \<Longrightarrow> next_rec n = None \<Longrightarrow> refs db' y = Some n' \<Longrightarrow> next_rec n' = None"
  using assms by (auto simp: cleans_def erased_at_def payload_at_def)

text \<open>Removing keeps no node alive that was not there.\<close>

lemma rep_mono_refs:
  assumes "db_rep db L" "db_rep db' L'" "cleans db db' D" "refs db' y = Some n"
  shows "refs db y \<noteq> None"
proof (cases "record_of n")
  case None
  then have "y \<in> set (blobs db')" using db_repD(4) [OF assms(2,4)] by (simp add: node_ok_def)
  then show ?thesis using db_repD(5) [OF assms(1)] cleansD(4) [OF assms(3)] by simp
next
  case (Some c)
  then have "cell_at db' y = Some c" using assms(4) by (simp add: cell_at_def)
  then show ?thesis using cleansD(1) [OF assms(3), of y] by (auto simp: cell_at_def split: if_splits option.splits)
qed

lemma rec_at_erased: "rec_at db x = Some (n, c) \<Longrightarrow> erased_at db x = erased c"
  by (simp add: rec_at_cell erased_at_def cell_at_def)

lemma clean_loop_rep:
  "db_rep db L \<Longrightarrow> L l = as @ bs \<Longrightarrow>
    \<exists>db'. clean_loop (hd_opt bs None) db = Some db' \<and> db_rep db' (L(l := as @ filter (\<lambda>x. \<not> erased_at db x) bs)) \<and>
      cleans db db' (filter (erased_at db) bs)"
proof (induction bs arbitrary: db L as)
  case Nil
  have "L(l := as) = L" using Nil(2) by auto
  then show ?case using Nil by (subst clean_loop.simps) (simp add: cleans_refl)
next
  case (Cons x bs)
  obtain n c where x: "rec_at db x = Some (n, c)" "next_rec n = hd_opt bs None"
    using db_rep_rec_at [OF Cons.prems] by blast
  have dist: "x \<notin> set bs" using db_rep_distinct [OF Cons.prems(1), of l] Cons.prems(2) by simp
  show ?case
  proof (cases "erased c")
    case True
    obtain db1 where db1: "remove_record x db = Some db1" "db_rep db1 (L(l := as @ bs))" "cleans db db1 [x]"
      using remove_record_rep [OF Cons.prems] by blast
    have same: "erased_at db1 y = erased_at db y" if "y \<in> set bs" for y
      using cleansD(6) [OF db1(3), of y] that dist by auto
    have fs: "filter (erased_at db1) bs = filter (erased_at db) bs"
      "filter (\<lambda>y. \<not> erased_at db1 y) bs = filter (\<lambda>y. \<not> erased_at db y) bs"
      using same by (auto intro: filter_cong)
    obtain db2 where db2: "clean_loop (hd_opt bs None) db1 = Some db2"
      "db_rep db2 (L(l := as @ filter (\<lambda>y. \<not> erased_at db y) bs))" "cleans db1 db2 (filter (erased_at db) bs)"
      using Cons.IH [OF db1(2) fun_upd_same] by (simp only: fs fun_upd_upd) blast
    have "cleans db db2 ([x] @ filter (erased_at db) bs)"
      by (rule cleans_trans [OF db1(3) db2(3)]) (use dist rep_mono_refs [OF db1(2) db2(2,3)] in auto)
    then show ?thesis using x True db1 db2 rec_at_erased [OF x(1)] by (subst clean_loop.simps) simp
  next
    case False
    obtain db2 where "clean_loop (hd_opt bs None) db = Some db2"
      "db_rep db2 (L(l := (as @ [x]) @ filter (\<lambda>y. \<not> erased_at db y) bs))" "cleans db db2 (filter (erased_at db) bs)"
      using Cons.IH [OF Cons.prems(1), of "as @ [x]"] Cons.prems(2) by (auto simp del: fun_upd_apply)
    then show ?thesis using x False rec_at_erased [OF x(1)] by (subst clean_loop.simps) simp
  qed
qed

lemma cleanRecordList_rep:
  assumes "db_rep db L" "rlists db l = Some R"
  shows "\<exists>db'. cleanRecordList l db = Some db' \<and> db_rep db' (L(l := filter (\<lambda>x. \<not> erased_at db x) (L l))) \<and>
    cleans db db' (filter (erased_at db) (L l))"
  using clean_loop_rep [OF assms(1), of l "[]" "L l"] db_repD(1) [OF assms] assms(2)
  by (simp add: cleanRecordList_def list_ok_def)

text \<open>A field of a list that does not matter for its shape.\<close>

lemma upd_list_rep:
  assumes rep: "db_rep db L" and R: "rlists db l = Some R"
    and f: "firstRecord (f R) = firstRecord R" "lastRecord (f R) = lastRecord R" "list_key (f R) = list_key R"
  shows "\<exists>db'. upd_list l f db = Some db' \<and> db_rep db' L \<and> refs db' = refs db \<and> table db' = table db \<and>
    blobs db' = blobs db \<and> fresh db' = fresh db \<and> freed db' = freed db \<and> rlists db' = (rlists db)(l \<mapsto> f R)"
proof -
  let ?db = "db\<lparr>rlists := (rlists db)(l \<mapsto> f R)\<rparr>"
  have "db_rep ?db (L(l := L l))"
  proof (rule db_rep_change [OF rep R])
    show "node_ok ?db (L(l := L l)) y m" if "refs ?db y = Some m" for y m
      using that db_repD(4) [OF rep, of y m] by (auto simp: node_ok_def split: option.splits)
    show "y \<notin> set (L m)" if "y \<in> set (L l)" "m \<noteq> l" for y m using that db_rep_disjoint [OF rep] by blast
    show "list_ok ?db l (f R) (L l)" using f db_repD(1) [OF rep R] by (simp add: list_ok_def)
  qed (use f db_repD(5) [OF rep] in auto)
  then show ?thesis using R by (auto simp: upd_list_def)
qed

section \<open>References to records\<close>

lemma make_blob_rep:
  assumes rep: "db_rep db L" and x: "x \<in> set (L l)"
  shows "\<exists>db'. make_blob x db = Some db' \<and> db_rep db' L \<and> rlists db' = rlists db \<and> table db' = table db \<and>
    fresh db' = fresh db \<and> freed db' = freed db \<and> set (blobs db') = insert x (set (blobs db)) \<and>
    (\<forall>y. erased_at db' y = erased_at db y \<and> payload_at db' y = payload_at db y) \<and>
    (\<forall>y. map_option next_rec (refs db' y) = map_option next_rec (refs db y))"
proof (cases "x \<in> set (blobs db)")
  case True
  then show ?thesis using rep by (auto simp: make_blob_def)
next
  case False
  obtain n c R where n: "rec_at db x = Some (n, c)" "refs db x = Some n" "record_of n = Some c" "in_list n = l"
    "rlists db l = Some R" using db_rep_in [OF rep x] by blast
  let ?db = "db\<lparr>refs := (refs db)(x \<mapsto> n\<lparr>record_of := Some (c\<lparr>dbref := True\<rparr>)\<rparr>), blobs := x # blobs db\<rparr>"
  have "db_rep ?db (L(l := L l))"
  proof (rule db_rep_change [OF rep n(5), where R' = R])
    show "list_ok ?db l R (L l)"
      using db_repD(1) [OF rep n(5)] lseg_record [of "refs db" l None "L l" None x n] n(2)
      by (simp add: list_ok_def)
    show "node_ok ?db (L(l := L l)) y m" if "y \<in> set (L l) \<union> set (L l)" "refs ?db y = Some m" for y m
      using that db_repD(4) [OF rep, of y] db_repD(4) [OF rep n(2)] n
      by (cases "y = x") (auto simp: node_ok_def split: option.splits)
    show "refs ?db y \<noteq> None" if "y \<in> set (blobs ?db)" for y using that db_repD(5) [OF rep] by auto
    show "refs ?db y = refs db y" if "y \<notin> set (L l) \<union> set (L l)" for y using that x by auto
    show "y \<notin> set (L m)" if "y \<in> set (L l)" "m \<noteq> l" for y m using that db_rep_disjoint [OF rep] by blast
    show "y \<in> set (blobs ?db) \<longleftrightarrow> y \<in> set (blobs db)" if "y \<notin> set (L l) \<union> set (L l)" for y using that x by auto
  qed (use n in auto)
  moreover have "make_blob x db = Some ?db" using False n(1) by (simp add: make_blob_def acquire_record_def)
  ultimately show ?thesis using n(2,3) by (simp add: erased_at_def payload_at_def cell_at_def)
qed

text \<open>Marking a record with a reference as erased.\<close>

lemma mark_erased_rep:
  assumes rep: "db_rep db L" and x: "x \<in> set (L l)" "x \<in> set (blobs db)" and r: "rec_at db x = Some (n, c)"
  shows "\<exists>db'. upd_ref x (\<lambda>n. n\<lparr>record_of := Some (c\<lparr>erased := True\<rparr>)\<rparr>) db = Some db' \<and> db_rep db' L \<and>
    rlists db' = rlists db \<and> table db' = table db \<and> fresh db' = fresh db \<and> freed db' = freed db \<and> blobs db' = blobs db \<and>
    (\<forall>y. erased_at db' y = (erased_at db y \<or> y = x) \<and> payload_at db' y = payload_at db y)"
proof -
  obtain R where n: "refs db x = Some n" "record_of n = Some c" "in_list n = l" "rlists db l = Some R"
    using db_rep_in [OF rep x(1)] r by auto
  let ?db = "db\<lparr>refs := (refs db)(x \<mapsto> n\<lparr>record_of := Some (c\<lparr>erased := True\<rparr>)\<rparr>)\<rparr>"
  have "db_rep ?db (L(l := L l))"
  proof (rule db_rep_change [OF rep n(4), where R' = R])
    show "list_ok ?db l R (L l)"
      using db_repD(1) [OF rep n(4)] lseg_record [of "refs db" l None "L l" None x n] n(1)
      by (simp add: list_ok_def)
    show "node_ok ?db (L(l := L l)) y m" if "y \<in> set (L l) \<union> set (L l)" "refs ?db y = Some m" for y m
      using that db_repD(4) [OF rep, of y] db_repD(4) [OF rep n(1)] n x(2)
      by (cases "y = x") (auto simp: node_ok_def split: option.splits)
    show "refs ?db y \<noteq> None" if "y \<in> set (blobs ?db)" for y using that db_repD(5) [OF rep] by auto
    show "refs ?db y = refs db y" if "y \<notin> set (L l) \<union> set (L l)" for y using that x by auto
    show "y \<notin> set (L m)" if "y \<in> set (L l)" "m \<noteq> l" for y m using that db_rep_disjoint [OF rep] by blast
  qed (use n in auto)
  moreover have "upd_ref x (\<lambda>n. n\<lparr>record_of := Some (c\<lparr>erased := True\<rparr>)\<rparr>) db = Some ?db" using n(1) by (simp add: upd_ref_def)
  ultimately show ?thesis using n(1,2) by (simp add: erased_at_def payload_at_def cell_at_def)
qed

section \<open>Adding records\<close>

lemma lookupRecordList_rep:
  assumes rep: "db_rep db L" and l: "lookupRecordList k db = (l, db1)"
  shows "db_rep db1 L" "\<exists>R. rlists db1 l = Some R \<and> list_key R = k" "map_of (table db1) k = Some l"
    "k' \<noteq> k \<Longrightarrow> map_of (table db1) k' = map_of (table db) k'"
    "map_of (table db) k = Some m \<Longrightarrow> m = l"
    "list_attr db1 m = (if m = l \<and> rlists db l = None then Some (k, False, 0) else list_attr db m)"
    "refs db1 = refs db" "blobs db1 = blobs db" "freed db1 = freed db" "fresh db \<le> fresh db1"
    "map_of (table db) k = None \<Longrightarrow> L l = []"
proof -
  have "db_rep db1 L \<and> (\<exists>R. rlists db1 l = Some R \<and> list_key R = k) \<and> map_of (table db1) k = Some l \<and>
    (k' \<noteq> k \<longrightarrow> map_of (table db1) k' = map_of (table db) k') \<and> (map_of (table db) k = Some m \<longrightarrow> m = l) \<and>
    list_attr db1 m = (if m = l \<and> rlists db l = None then Some (k, False, 0) else list_attr db m) \<and>
    refs db1 = refs db \<and> blobs db1 = blobs db \<and> freed db1 = freed db \<and> fresh db \<le> fresh db1 \<and>
    (map_of (table db) k = None \<longrightarrow> L l = [])"
  proof (cases "map_of (table db) k")
    case (Some l')
    then have "l = l'" "db1 = db" using l by (simp_all add: lookupRecordList_def)
    then show ?thesis using rep Some db_repD(6) [OF rep Some] by auto
  next
    case None
    let ?R = "\<lparr>firstRecord = None, lastRecord = None, list_key = k, dirty = False, references = 0\<rparr>"
    have db1: "l = fresh db" "db1 = db\<lparr>rlists := (rlists db)(l \<mapsto> ?R), table := (k, l) # table db, fresh := l + 1\<rparr>"
      using l None by (auto simp: lookupRecordList_def Let_def)
    have new: "rlists db l = None" using db_repD(2) [OF rep, of l] db1(1) by (cases "rlists db l") auto
    then have Ll: "L l = []" by (rule db_repD(3) [OF rep])
    have fst: "k \<notin> set (map fst (table db))" using None by (simp add: map_of_eq_None_iff)
    have snd: "l \<notin> set (map snd (table db))"
    proof
      assume "l \<in> set (map snd (table db))"
      then obtain k' where "(k', l) \<in> set (table db)" by auto
      then show False using db_repD(7) [OF rep, of k' l] new by auto
    qed
    have "db_rep db1 L"
      unfolding db_rep_def
    proof (intro conjI allI ballI impI)
      show "case rlists db1 m of None \<Rightarrow> L m = [] | Some R \<Rightarrow> m < fresh db1 \<and> list_ok db1 m R (L m)" for m
        using db1 Ll db_repD(1-3) [OF rep, of m] by (cases "m = l") (auto simp: list_ok_def split: option.splits)
      show "node_ok db1 L x n" if "refs db1 x = Some n" for x n
        using that db1 db_repD(4) [OF rep, of x n] by (auto simp: node_ok_def split: option.splits)
      show "((k', m) \<in> set (table db1)) = (\<exists>R. rlists db1 m = Some R \<and> list_key R = k')" for k' m
        using db_repD(7) [OF rep, of k' m] new fst db1 by (cases "m = l") auto
    qed (use db1 fst snd db_repD(5,8,9) [OF rep] in auto)
    then show ?thesis using db1 None new Ll by (auto simp: list_attr_def)
  qed
  then show "db_rep db1 L" "\<exists>R. rlists db1 l = Some R \<and> list_key R = k" "map_of (table db1) k = Some l"
    "k' \<noteq> k \<Longrightarrow> map_of (table db1) k' = map_of (table db) k'"
    "map_of (table db) k = Some m \<Longrightarrow> m = l"
    "list_attr db1 m = (if m = l \<and> rlists db l = None then Some (k, False, 0) else list_attr db m)"
    "refs db1 = refs db" "blobs db1 = blobs db" "freed db1 = freed db" "fresh db \<le> fresh db1"
    "map_of (table db) k = None \<Longrightarrow> L l = []" by blast+
qed

lemma fresh_rep: "db_rep db L \<Longrightarrow> fresh db \<le> f \<Longrightarrow> db_rep (db\<lparr>fresh := f\<rparr>) L"
proof -
  assume rep: "db_rep db L" and f: "fresh db \<le> f"
  let ?db = "db\<lparr>fresh := f\<rparr>"
  show "db_rep ?db L"
    unfolding db_rep_def
  proof (intro conjI allI ballI impI)
    show "case rlists ?db m of None \<Rightarrow> L m = [] | Some R \<Rightarrow> m < fresh ?db \<and> list_ok ?db m R (L m)" for m
      using f db_repD(1-3) [OF rep, of m] by (auto simp: list_ok_def split: option.splits)
    show "node_ok ?db L x n" if "refs ?db x = Some n" for x n
      using that f db_repD(4) [OF rep, of x n] by (auto simp: node_ok_def split: option.splits)
  qed (use db_repD(5,7-9) [OF rep] in auto)
qed

text \<open>Linking the new node \<open>r\<close> at either end of the list.\<close>

definition link_at :: "bool \<Rightarrow> rref \<Rightarrow> rref list \<Rightarrow> rref list" where
  "link_at recorda r xs = (if recorda then r # xs else xs @ [r])"

lemma set_link_at [simp]: "set (link_at z r xs) = insert r (set xs)"
  by (auto simp: link_at_def)

lemma link_record_shape:
  assumes l: "lookupRecordList k db = (l, db1)" and R: "rlists db1 l = Some R"
    and ok: "list_ok db1 l R xs" and r: "refs db1 r = Some n" "record_of n \<noteq> None" "r \<notin> set xs"
  shows "\<exists>M R'. link_record z k r db = Some (db1\<lparr>refs := M, rlists := (rlists db1)(l \<mapsto> R')\<rparr>) \<and>
    list_key R' = list_key R \<and> dirty R' = dirty R \<and> references R' = references R \<and>
    firstRecord R' = hd_opt (link_at z r xs) None \<and> lastRecord R' = last_opt None (link_at z r xs) \<and>
    lseg M l None (link_at z r xs) None \<and>
    (\<forall>y. y \<notin> insert r (set xs) \<longrightarrow> M y = refs db1 y) \<and>
    (\<exists>m. M r = Some m \<and> in_list m = l \<and> record_of m = record_of n) \<and>
    (\<forall>y\<in>set xs. \<forall>m. refs db1 y = Some m \<longrightarrow> (\<exists>m'. M y = Some m' \<and> in_list m' = in_list m \<and> record_of m' = record_of m))"
proof -
  have seg: "lseg (refs db1) l None xs None" "distinct xs" and ends: "firstRecord R = hd_opt xs None" "lastRecord R = last_opt None xs"
    using ok by (simp_all add: list_ok_def)
  show ?thesis
  proof (cases "xs = []")
    case True
    then show ?thesis using l R r ends
      by (intro exI [of _ "(refs db1)(r \<mapsto> n\<lparr>in_list := l, next_rec := None, prev_rec := None\<rparr>)"]
          exI [of _ "R\<lparr>firstRecord := Some r, lastRecord := Some r\<rparr>"])
        (simp add: link_record_def upd_ref_def upd_list_def link_at_def)
  next
    case ne: False
    show ?thesis
    proof (cases z)
      case True
      obtain f ys where f: "xs = f # ys" using ne by (cases xs) auto
      obtain m where m: "refs db1 f = Some m" using seg f by auto
      let ?M = "(refs db1)(r \<mapsto> n\<lparr>in_list := l, prev_rec := None, next_rec := Some f\<rparr>, f \<mapsto> m\<lparr>prev_rec := Some r\<rparr>)"
      have "lseg ((refs db1)(f \<mapsto> m\<lparr>prev_rec := Some r\<rparr>)) l (Some r) (f # ys) None"
        using lseg_first [of "refs db1" l None f ys None m "Some r"] seg m f by (simp del: lseg.simps)
      moreover have "lseg ?M l (Some r) (f # ys) None = lseg ((refs db1)(f \<mapsto> m\<lparr>prev_rec := Some r\<rparr>)) l (Some r) (f # ys) None"
        by (rule lseg_cong) (use r(3) f in auto)
      ultimately have "lseg ?M l None (r # xs) None" using f r by (simp del: lseg.simps(2) add: lseg.simps(2) [of _ _ _ r])
      then show ?thesis using l R r ends f m True
        by (intro exI [of _ ?M] exI [of _ "R\<lparr>firstRecord := Some r\<rparr>"])
          (auto simp: link_record_def upd_ref_def upd_list_def link_at_def)
    next
      case False
      obtain ys e where e: "xs = ys @ [e]" using ne by (cases xs rule: rev_cases) auto
      obtain m where m: "refs db1 e = Some m" using seg e by (auto simp: lseg_append)
      let ?M = "(refs db1)(r \<mapsto> n\<lparr>in_list := l, next_rec := None, prev_rec := Some e\<rparr>, e \<mapsto> m\<lparr>next_rec := Some r\<rparr>)"
      have "lseg ((refs db1)(e \<mapsto> m\<lparr>next_rec := Some r\<rparr>)) l None (ys @ [e]) (Some r)"
        using lseg_last [of "refs db1" l None ys e None m "Some r"] seg m e by (simp del: lseg.simps)
      moreover have "lseg ?M l None (ys @ [e]) (Some r) = lseg ((refs db1)(e \<mapsto> m\<lparr>next_rec := Some r\<rparr>)) l None (ys @ [e]) (Some r)"
        by (rule lseg_cong) (use r(3) e in auto)
      ultimately have "lseg ?M l None (xs @ [r]) None" using e r by (simp add: lseg_append)
      moreover obtain f where "firstRecord R = Some f" "hd_opt ys (Some e) = Some f" using ends e by (cases ys) auto
      ultimately show ?thesis using l R r ends(2) e m False
        by (intro exI [of _ ?M] exI [of _ "R\<lparr>lastRecord := Some r\<rparr>"])
          (auto simp: link_record_def upd_ref_def upd_list_def link_at_def split: option.splits)
    qed
  qed
qed

lemma lookup_commute:
  "lookupRecordList k (db\<lparr>refs := M, blobs := B\<rparr>) =
    (case lookupRecordList k db of (l, db) \<Rightarrow> (l, db\<lparr>refs := M, blobs := B\<rparr>))"
  by (auto simp: lookupRecordList_def Let_def split: option.splits)

text \<open>The new node, with or without a reference, before it is linked.\<close>

definition new_node :: "'p \<Rightarrow> bool \<Rightarrow> 'p recordRef" where
  "new_node p with_ref = \<lparr>in_list = 0, next_rec = None, prev_rec = None,
     record_of = Some \<lparr>payload = p, erased = False, dbref = with_ref\<rparr>\<rparr>"

lemma fresh_unused:
  assumes "db_rep db L"
  shows "refs db (fresh db) = None" "fresh db \<notin> set (L l)" "fresh db \<notin> set (blobs db)"
proof -
  show r: "refs db (fresh db) = None"
    using db_repD(4) [OF assms, of "fresh db"] by (cases "refs db (fresh db)") (auto simp: node_ok_def)
  show "fresh db \<notin> set (L l)" using db_rep_in [OF assms, of "fresh db" l] r by auto
  show "fresh db \<notin> set (blobs db)" using db_repD(5) [OF assms, of "fresh db"] r by auto
qed

lemma record_db_link:
  assumes "db_rep db L" "ref = NoRef \<or> ref = RefVar True"
  shows "record_db z (Some k) (Some p) ref db = map_option (Pair RecTrue) (link_record z k (fresh db)
    (db\<lparr>fresh := fresh db + 1, refs := (refs db)(fresh db \<mapsto> new_node p (ref \<noteq> NoRef)),
      blobs := (if ref = NoRef then blobs db else fresh db # blobs db)\<rparr>))"
  using assms fresh_unused(3) [OF assms(1)]
  by (cases db) (auto simp: record_db_def new_node_def make_blob_def acquire_record_def rec_at_def Let_def)

lemma record_db_rep:
  assumes rep: "db_rep db L" and ref: "ref = NoRef \<or> ref = RefVar True"
  defines "r \<equiv> fresh db"
  shows "\<exists>db' l. record_db z (Some k) (Some p) ref db = Some (RecTrue, db') \<and>
    db_rep db' (L(l := link_at z r (L l))) \<and> map_of (table db') k = Some l \<and>
    (\<forall>m. map_of (table db) k = Some m \<longrightarrow> m = l) \<and> (map_of (table db) k = None \<longrightarrow> L l = []) \<and>
    (\<forall>k'. k' \<noteq> k \<longrightarrow> map_of (table db') k' = map_of (table db) k') \<and>
    (\<forall>y. erased_at db' y = erased_at db y \<and> payload_at db' y = (if y = r then p else payload_at db y)) \<and>
    (\<forall>m. list_attr db' m = (if m = l \<and> rlists db l = None then Some (k, False, 0) else list_attr db m)) \<and>
    freed db' = freed db \<and> blobs db' = (if ref = NoRef then blobs db else r # blobs db)"
proof -
  let ?n = "new_node p (ref \<noteq> NoRef)" and ?B = "if ref = NoRef then blobs db else r # blobs db"
  define dba where "dba = db\<lparr>fresh := r + 1\<rparr>"
  have repa: "db_rep dba L" unfolding dba_def using fresh_rep [OF rep, of "r + 1"] by (simp add: r_def)
  obtain l dbl where l: "lookupRecordList k dba = (l, dbl)" by (cases "lookupRecordList k dba") auto
  note look = lookupRecordList_rep [OF repa l]
  let ?dbk = "dbl\<lparr>refs := (refs db)(r \<mapsto> ?n), blobs := ?B\<rparr>"
  let ?dbm = "db\<lparr>fresh := r + 1, refs := (refs db)(r \<mapsto> ?n), blobs := ?B\<rparr>"
  note new = fresh_unused [OF rep, folded r_def]
  have lm: "lookupRecordList k ?dbm = (l, ?dbk)"
    using lookup_commute [where db = dba and k = k and M = "(refs db)(r \<mapsto> ?n)" and B = ?B] l by (simp add: dba_def)
  obtain R where R: "rlists dbl l = Some R" using look(2) by blast
  have refs: "refs dbl = refs db" "blobs dbl = blobs db" using look(7,8) by (simp_all add: dba_def)
  have "lseg (refs ?dbk) l None (L l) None = lseg (refs dbl) l None (L l) None"
    by (rule lseg_cong) (use new refs in auto)
  then have ok: "list_ok ?dbk l R (L l)" using db_repD(1) [OF look(1) R] by (simp add: list_ok_def)
  have rn: "refs ?dbk r = Some ?n" "record_of ?n \<noteq> None" by (simp_all add: new_node_def)
  have Rk: "rlists ?dbk l = Some R" using R by simp
  have rl: "r \<notin> set (L l)" using new(2) .
  obtain M R' where s: "link_record z k r ?dbm = Some (?dbk\<lparr>refs := M, rlists := (rlists ?dbk)(l \<mapsto> R')\<rparr>)"
    "list_key R' = list_key R" "dirty R' = dirty R" "references R' = references R"
    "firstRecord R' = hd_opt (link_at z r (L l)) None" "lastRecord R' = last_opt None (link_at z r (L l))"
    "lseg M l None (link_at z r (L l)) None" "\<forall>y. y \<notin> insert r (set (L l)) \<longrightarrow> M y = refs ?dbk y"
    "\<exists>m. M r = Some m \<and> in_list m = l \<and> record_of m = record_of ?n"
    "\<forall>y\<in>set (L l). \<forall>m. refs ?dbk y = Some m \<longrightarrow> (\<exists>m'. M y = Some m' \<and> in_list m' = in_list m \<and> record_of m' = record_of m)"
    using link_record_shape [OF lm Rk ok rn rl, of z]
    by - (erule exE, erule exE, (erule conjE)+, rule that)
  have s8: "M y = refs db y" if "y \<notin> insert r (set (L l))" for y using s(8) that by simp
  have s10: "\<exists>m'. M y = Some m' \<and> in_list m' = in_list m \<and> record_of m' = record_of m"
    if "y \<in> set (L l)" "refs db y = Some m" for y m
    using s(10) that rl by (cases "y = r") auto
  let ?db = "?dbk\<lparr>refs := M, rlists := (rlists ?dbk)(l \<mapsto> R')\<rparr>"
  have cell: "cell_at ?db y = (if y = r then record_of ?n else cell_at db y)" for y
  proof -
    consider "y = r" | "y \<in> set (L l)" "y \<noteq> r" | "y \<notin> insert r (set (L l))" by blast
    then show ?thesis
    proof cases
      case 2
      then obtain m where m: "refs db y = Some m" using db_rep_in [OF rep] by blast
      then show ?thesis using s10 [OF 2(1) m] 2 by (auto simp: cell_at_def)
    qed (use s8 s(9) in \<open>auto simp: cell_at_def\<close>)
  qed
  have "db_rep ?db (L(l := link_at z r (L l)))"
  proof (rule db_rep_change [OF look(1) R, where R' = R'])
    show "list_ok ?db l R' (link_at z r (L l))"
      using s(5-7) db_rep_distinct [OF rep, of l] new(2) by (auto simp: list_ok_def link_at_def simp del: ends)
    show "node_ok ?db (L(l := link_at z r (L l))) y m"
      if y: "y \<in> set (L l) \<union> set (link_at z r (L l))" "refs ?db y = Some m" for y m
    proof (cases "y = r")
      case True
      then show ?thesis using s(9) y(2) look(10) by (auto simp: node_ok_def new_node_def dba_def new(3))
    next
      case False
      then have yl: "y \<in> set (L l)" using y by simp
      then obtain m0 where m0: "refs dbl y = Some m0" using db_rep_in [OF rep] refs by fastforce
      have "node_ok dbl L y m0" by (rule db_repD(4) [OF look(1) m0])
      then show ?thesis using s10 [OF yl, of m0] m0 refs y(2) False
        by (auto simp: node_ok_def split: option.splits)
    qed
    show "refs ?db y = refs dbl y" if "y \<notin> set (L l) \<union> set (link_at z r (L l))" for y
      using that s8 [of y] refs by auto
    show "y \<notin> set (L m)" if "y \<in> set (link_at z r (L l))" "m \<noteq> l" for y m
      using that db_rep_disjoint [OF rep, of y l m] new(2) by auto
    show "refs ?db y \<noteq> None" if "y \<in> set (blobs ?db)" for y
    proof -
      consider "y = r" | "y \<in> set (L l)" "y \<noteq> r" | "y \<notin> insert r (set (L l))" by blast
      then show ?thesis
      proof cases
        case 2
        then obtain m where m: "refs db y = Some m" using db_rep_in [OF rep] by blast
        then show ?thesis using s10 [OF 2(1) m] by auto
      next
        case 3
        then show ?thesis using s8 [OF 3] db_repD(5) [OF rep, of y] that by (auto split: if_splits)
      qed (use s(9) in auto)
    qed
  qed (use s refs in \<open>auto simp del: ends\<close>)
  moreover have "list_attr ?db m = list_attr dbl m" for m using s(2-4) R by (simp add: list_attr_def)
  moreover have "erased_at ?db y = erased_at db y \<and> payload_at ?db y = (if y = r then p else payload_at db y)" for y
    using cell [of y] new(1) by (auto simp: erased_at_def payload_at_def new_node_def cell_at_def)
  moreover have "list_attr dbl m = (if m = l \<and> rlists db l = None then Some (k, False, 0) else list_attr db m)" for m
    using look(6) [of m] by (simp add: dba_def list_attr_def)
  moreover have "record_db z (Some k) (Some p) ref db = Some (RecTrue, ?db)"
    using s(1) by (simp only: record_db_link [OF rep ref, of z k p, folded r_def] option.map)
  ultimately show ?thesis
    using look(3-5,9,11) by (intro exI [of _ ?db] exI [of _ l]) (auto simp: dba_def)
qed

end
