(* ===== verification/PL_RecordEnum.thy ===== *)
theory PL_RecordEnum
  imports PL_RecordLists
begin

text \<open>
  The recorded database with its open enumerations as a state machine: the references that enumerations
  hold on lists, the scan of \<^theory_text>\<open>recorded/3\<close>, the steps of the system and its reachable states, the
  contents as a map from keys to lists, and the properties.
\<close>

section \<open>References of enumerations\<close>

text \<open>
  Each list is referred to \<open>H l\<close> times; only a list that is referred to holds erased records, and it
  is then marked.
\<close>

definition counted :: "('k, 'p) rec_db \<Rightarrow> (rlist \<Rightarrow> rref list) \<Rightarrow> (rlist \<Rightarrow> nat) \<Rightarrow> bool" where
  "counted db L H \<longleftrightarrow> db_rep db L \<and>
     (\<forall>l R. rlists db l = Some R \<longrightarrow> references R = int (H l) \<and>
        ((\<exists>x\<in>set (L l). erased_at db x) \<longrightarrow> dirty R \<and> 0 < H l))"

abbreviation live :: "('k, 'p) rec_db \<Rightarrow> rref \<Rightarrow> bool" where
  "live db x \<equiv> \<not> erased_at db x"

text \<open>What is left of the lists when a reference to \<open>l\<close> goes and \<open>G\<close> stay.\<close>

definition released :: "('k, 'p) rec_db \<Rightarrow> (rlist \<Rightarrow> rref list) \<Rightarrow> (rlist \<Rightarrow> nat) \<Rightarrow> rlist \<Rightarrow> (rlist \<Rightarrow> rref list)" where
  "released db L G l = (if G l = 0 then L(l := filter (live db) (L l)) else L)"

text \<open>What does not change while enumerations go on.\<close>

definition same_view :: "('k, 'p) rec_db \<Rightarrow> (rlist \<Rightarrow> rref list) \<Rightarrow> ('k, 'p) rec_db \<Rightarrow> (rlist \<Rightarrow> rref list) \<Rightarrow> bool" where
  "same_view db L db' L' \<longleftrightarrow> table db' = table db \<and>
     (\<forall>m. map_option list_key (rlists db' m) = map_option list_key (rlists db m)) \<and>
     (\<forall>m. filter (live db') (L' m) = filter (live db) (L m)) \<and>
     (\<forall>m. \<forall>y\<in>set (L' m). payload_at db' y = payload_at db y \<and> erased_at db' y = erased_at db y)"

lemma same_view_refl [simp]: "same_view db L db L"
  by (simp add: same_view_def)

lemma same_view_trans:
  assumes "same_view db L db' L'" "same_view db' L' db'' L''" "\<And>m. set (L'' m) \<subseteq> set (L' m)"
  shows "same_view db L db'' L''"
  unfolding same_view_def
proof (intro conjI allI ballI)
  fix m y assume "y \<in> set (L'' m)"
  moreover then have "y \<in> set (L' m)" using assms(3) by blast
  ultimately show "payload_at db'' y = payload_at db y" "erased_at db'' y = erased_at db y"
    using assms(1,2) by (metis same_view_def)+
qed (use assms(1,2) in \<open>simp_all add: same_view_def\<close>)

lemma countedD:
  assumes "counted db L H"
  shows "db_rep db L" "rlists db l = Some R \<Longrightarrow> references R = int (H l)"
    "rlists db l = Some R \<Longrightarrow> x \<in> set (L l) \<Longrightarrow> erased_at db x \<Longrightarrow> dirty R \<and> 0 < H l"
  using assms by (auto simp: counted_def)

lemma cleans_view:
  assumes "cleans db db' (filter (erased_at db) (L l))" "L' = L(l := filter (live db) (L l))"
    "\<And>m. m \<noteq> l \<Longrightarrow> set (L m) \<inter> set (L l) = {}"
  shows "same_view db L db' L'"
proof -
  have kept: "y \<notin> set (filter (erased_at db) (L l))" if "y \<in> set (L' m)" for y m
    using that assms(2,3) by (cases "m = l") auto
  have e: "erased_at db' y = erased_at db y" "payload_at db' y = payload_at db y" if "y \<in> set (L' m)" for y m
    using cleansD(6,7) [OF assms(1)] kept [OF that] by auto
  have "map_option list_key (rlists db' m) = map_option list_key (rlists db m)" for m
    using cleansD(2) [OF assms(1), THEN fun_cong, of m]
    by (cases "rlists db' m"; cases "rlists db m") (simp_all add: list_attr_def)
  moreover have "filter (live db') (L' m) = filter (live db) (L m)" for m
  proof -
    have "filter (live db') (L' m) = filter (live db) (L' m)" using e(1) by (intro filter_cong) auto
    then show ?thesis by (simp add: assms(2))
  qed
  ultimately show ?thesis using e cleansD(3) [OF assms(1)] by (simp add: same_view_def)
qed

lemma list_attr_references:
  "list_attr db' = list_attr db \<Longrightarrow> rlists db' m = Some R' \<Longrightarrow>
    \<exists>R. rlists db m = Some R \<and> references R' = references R \<and> dirty R' = dirty R"
  by (drule fun_cong [of _ _ m]) (cases "rlists db m"; simp add: list_attr_def)

lemma release_list_counted:
  assumes c: "counted db L (G(l := Suc (G l)))" and R: "rlists db l = Some R"
  shows "\<exists>db'. release_list l db = Some db' \<and> counted db' (released db L G l) G \<and>
    same_view db L db' (released db L G l) \<and>
    (\<forall>y n n'. refs db y = Some n \<longrightarrow> next_rec n = None \<longrightarrow> refs db' y = Some n' \<longrightarrow> next_rec n' = None) \<and>
    blobs db' = blobs db"
proof -
  note rep = countedD(1) [OF c]
  obtain db1 where db1: "upd_list l (\<lambda>R. R\<lparr>references := references R - 1\<rparr>) db = Some db1" "db_rep db1 L"
    "refs db1 = refs db" "table db1 = table db" "blobs db1 = blobs db"
    "rlists db1 = (rlists db)(l \<mapsto> R\<lparr>references := references R - 1\<rparr>)"
    using upd_list_rep [OF rep R, of "\<lambda>R. R\<lparr>references := references R - 1\<rparr>"] by auto
  have cell: "erased_at db1 = erased_at db" "payload_at db1 = payload_at db"
    using db1(3) by (simp_all add: erased_at_def payload_at_def cell_at_def fun_eq_iff)
  have refR: "references R = int (Suc (G l))" using countedD(2) [OF c R] by simp
  have view1: "same_view db L db1 L" using db1 R cell by (simp add: same_view_def)
  show ?thesis
  proof (cases "G l = 0 \<and> dirty R")
    case True
    obtain db2 where db2: "cleanRecordList l db1 = Some db2" "db_rep db2 (L(l := filter (live db1) (L l)))"
      "cleans db1 db2 (filter (erased_at db1) (L l))"
      using cleanRecordList_rep [OF db1(2), of l] db1(6) by auto
    have rel: "released db L G l = L(l := filter (live db) (L l))" using True by (simp add: released_def)
    have view2: "same_view db1 L db2 (released db L G l)"
      by (rule cleans_view [where L = L and l = l, OF db2(3)]) (use rel cell db_rep_disjoint [OF rep] in auto)
    have "counted db2 (released db L G l) G"
      unfolding counted_def
    proof (intro conjI allI impI)
      show "db_rep db2 (released db L G l)" using db2(2) rel cell by simp
      fix m R' assume "rlists db2 m = Some R'"
      then obtain R1 where R1: "rlists db1 m = Some R1" "references R' = references R1" "dirty R' = dirty R1"
        using list_attr_references [OF cleansD(2) [OF db2(3)]] by blast
      show "references R' = int (G m)"
        using R1 db1(6) refR countedD(2) [OF c, of m] by (cases "m = l") auto
      assume "\<exists>x\<in>set (released db L G l m). erased_at db2 x"
      then obtain x where x: "x \<in> set (released db L G l m)" "erased_at db1 x"
        using view2 by (auto simp: same_view_def)
      then have "m \<noteq> l" using rel cell by auto
      then show "dirty R'" "0 < G m" using countedD(3) [OF c, of m R1 x] x rel cell R1 db1(6) by auto
    qed
    moreover have "release_list l db = Some db2" using db1 db2(1) True refR by (simp add: release_list_def)
    moreover have "same_view db L db2 (released db L G l)"
      by (rule same_view_trans [OF view1 view2]) (auto simp: rel)
    ultimately show ?thesis using cleansD(4,9) [OF db2(3)] db1(3,5) by auto
  next
    case False
    have "filter (live db) (L l) = L l" if "G l = 0"
      using that False countedD(3) [OF c R] by (auto simp: filter_id_conv)
    then have rel: "released db L G l = L" by (auto simp: released_def)
    have "counted db1 L G"
      unfolding counted_def
    proof (intro conjI allI impI)
      fix m R' assume R': "rlists db1 m = Some R'"
      show "references R' = int (G m)" using R' db1(6) refR countedD(2) [OF c, of m] by (cases "m = l") auto
      assume "\<exists>x\<in>set (L m). erased_at db1 x"
      then obtain x where x: "x \<in> set (L m)" "erased_at db x" using cell by auto
      then show "dirty R'" "0 < G m"
        using R' db1(6) countedD(3) [OF c, of m _ x] countedD(3) [OF c R, of x] False R by (cases "m = l"; auto)+
    qed (rule db1(2))
    moreover have "release_list l db = Some db1" using db1 False refR by (auto simp: release_list_def)
    ultimately show ?thesis using rel view1 db1(3,5) by auto
  qed
qed

section \<open>Advancing\<close>

lemma counted_split:
  assumes "counted db L H" "L l = as @ x # bs"
  shows "\<exists>n c R. rec_at db x = Some (n, c) \<and> refs db x = Some n \<and> in_list n = l \<and> next_rec n = hd_opt bs None \<and>
    rlists db l = Some R \<and> (erased_at db x \<longleftrightarrow> erased c) \<and> payload_at db x = payload c \<and>
    (erased c \<longrightarrow> x \<in> set (blobs db))"
proof -
  note rep = countedD(1) [OF assms(1)]
  obtain n c where n: "rec_at db x = Some (n, c)" "in_list n = l" "next_rec n = hd_opt bs None"
    using db_rep_rec_at [OF rep assms(2)] by blast
  then have x: "refs db x = Some n" "record_of n = Some c" by (simp_all add: rec_at_cell)
  obtain R where "rlists db l = Some R" using db_repD(3) [OF rep, of l] assms(2) by (cases "rlists db l") auto
  then show ?thesis using n x db_repD(4) [OF rep x(1)]
    by (auto simp: node_ok_def erased_at_def payload_at_def cell_at_def)
qed

text \<open>Leaving the last live record gives the reference up; the node is then still there.\<close>

lemma advance_state_counted:
  assumes "counted db L (G(l := Suc (G l)))" "L l = as @ x # bs"
  shows "\<exists>db'. advance_state x db = Some (hd_opt (filter (live db) bs) None, db') \<and>
    (if filter (live db) bs = [] then counted db' (released db L G l) G \<and> same_view db L db' (released db L G l) \<and> blobs db' = blobs db
     else db' = db)"
  using assms(2)
proof (induction bs arbitrary: as x)
  case Nil
  obtain n c R where x: "refs db x = Some n" "in_list n = l" "next_rec n = None" "rlists db l = Some R"
    "rec_at db x = Some (n, c)" "erased_at db x \<longleftrightarrow> erased c" "erased c \<longrightarrow> x \<in> set (blobs db)"
    using counted_split [OF assms(1) Nil] by auto
  obtain db' where db': "release_list l db = Some db'" "counted db' (released db L G l) G"
    "same_view db L db' (released db L G l)" "blobs db' = blobs db"
    "\<And>y n n'. refs db y = Some n \<Longrightarrow> next_rec n = None \<Longrightarrow> refs db' y = Some n' \<Longrightarrow> next_rec n' = None"
    using release_list_counted [OF assms(1) x(4)] by blast
  have "refs db' x \<noteq> None"
  proof (cases "erased_at db x")
    case True
    then show ?thesis using db_repD(5) [OF countedD(1) [OF db'(2)], of x] x db'(4) by auto
  next
    case False
    then have "x \<in> set (released db L G l l)" using Nil by (simp add: released_def)
    then show ?thesis using db_rep_in [OF countedD(1) [OF db'(2)]] by fastforce
  qed
  then obtain n' where n': "refs db' x = Some n'" by blast
  then have "advance_state x db = Some (None, db')"
    using x db'(1) db'(5) [OF x(1,3) n'] by (subst advance_state.simps) simp
  then show ?case using db'(2-4) by simp
next
  case (Cons y bs)
  obtain n where x: "refs db x = Some n" "next_rec n = Some y"
    using counted_split [OF assms(1) Cons.prems] by auto
  have "L l = (as @ [x]) @ y # bs" using Cons.prems by simp
  moreover obtain m c where y: "rec_at db y = Some (m, c)" "erased_at db y \<longleftrightarrow> erased c"
    using counted_split [OF assms(1) calculation] by auto
  ultimately show ?case using Cons.IH [of "as @ [x]" y] x y by (subst advance_state.simps) simp
qed

section \<open>Visiting records\<close>

definition visit_result :: "('k, 'p) goal \<Rightarrow> bool \<Rightarrow> 'k \<Rightarrow> rref \<Rightarrow> 'p \<Rightarrow> visit" where
  "visit_result g enumerating k r p =
     (if \<not> copies g p then Error
      else if \<not> unifies g p \<or> wants_ref g \<and> \<not> ref_unifies g r then (if raises g p then Error else NoAnswer)
      else if enumerating \<and> \<not> key_unifies g k then Error else Answer)"

lemma visit_record_counted:
  assumes c: "counted db L H" and l: "L l = as @ x # bs" and R: "rlists db l = Some R"
  shows "\<exists>db'. visit_record g e x db = Some (visit_result g e (list_key R) x (payload_at db x), db') \<and>
    counted db' L H \<and> same_view db L db' L"
proof -
  obtain n cl where n: "rec_at db x = Some (n, cl)" "in_list n = l" "payload_at db x = payload cl"
    using counted_split [OF c l] by auto
  have xl: "x \<in> set (L l)" using l by simp
  obtain db' where db': "make_blob x db = Some db'" "db_rep db' L" "rlists db' = rlists db" "table db' = table db"
    "\<And>y. erased_at db' y = erased_at db y" "\<And>y. payload_at db' y = payload_at db y"
    using make_blob_rep [OF countedD(1) [OF c] xl] by blast
  have "counted db' L H" using c db' by (simp add: counted_def)
  moreover have "same_view db L db' L" using db' by (simp add: same_view_def)
  ultimately show ?thesis using n c R db'
    by (cases "copies g (payload cl) \<and> unifies g (payload cl) \<and> wants_ref g")
      (auto simp: visit_record_def visit_result_def Let_def)
qed

text \<open>The scan of the records from the current one on.\<close>

function scan_spec :: "(rref \<Rightarrow> visit) \<Rightarrow> (rref \<Rightarrow> bool) \<Rightarrow> bool \<Rightarrow> rref list \<Rightarrow> scan" where
  "scan_spec v lv answered [] = ScanEnd answered"
| "scan_spec v lv answered (x # xs) =
     (case v x of
        Error \<Rightarrow> ScanError x
      | Answer \<Rightarrow> (case xs of [] \<Rightarrow> ScanEnd True | y # _ \<Rightarrow> ScanYield y)
      | NoAnswer \<Rightarrow> scan_spec v lv answered (dropWhile (\<lambda>y. \<not> lv y) xs))"
  by pat_completeness auto
termination
  by (relation "measure (\<lambda>(v, lv, a, xs). length xs)") (auto simp: le_imp_less_Suc length_dropWhile_le)

lemma scan_spec_cong:
  assumes "\<And>w. w \<in> set ws \<Longrightarrow> v w = v' w \<and> lv w = lv' w"
  shows "scan_spec v lv answered ws = scan_spec v' lv' answered ws"
  using assms
proof (induction v lv answered ws rule: scan_spec.induct)
  case (2 v lv answered x xs)
  have dw: "dropWhile (\<lambda>y. \<not> lv y) xs = dropWhile (\<lambda>y. \<not> lv' y) xs" using 2(2) by (intro dropWhile_cong) auto
  have sub: "v w = v' w \<and> lv w = lv' w" if "w \<in> set (dropWhile (\<lambda>y. \<not> lv y) xs)" for w
    using 2(2) [of w] set_dropWhileD [OF that] by simp
  have IH: "scan_spec v lv answered (dropWhile (\<lambda>y. \<not> lv y) xs) = scan_spec v' lv' answered (dropWhile (\<lambda>y. \<not> lv y) xs)"
    if "v x = NoAnswer"
    by (rule 2(1) [OF that]) (rule sub)
  have "v x = v' x" using 2(2) [of x] by simp
  then show ?case using IH dw by (cases "v x") (simp_all split: list.split)
qed simp

lemma filter_dropWhile: "hd_opt (filter P xs) None = hd_opt (dropWhile (\<lambda>y. \<not> P y) xs) None"
  "filter P xs = [] \<longleftrightarrow> dropWhile (\<lambda>y. \<not> P y) xs = []"
  by (induction xs) auto

definition scan_post :: "('k, 'p) rec_db \<Rightarrow> (rlist \<Rightarrow> rref list) \<Rightarrow> (rlist \<Rightarrow> nat) \<Rightarrow> rlist \<Rightarrow> scan \<Rightarrow> ('k, 'p) rec_db \<Rightarrow> bool" where
  "scan_post db L G l s db' \<longleftrightarrow> (case s of
       ScanEnd _ \<Rightarrow> counted db' (released db L G l) G \<and> same_view db L db' (released db L G l)
     | ScanYield y \<Rightarrow> y \<in> set (L l) \<and> counted db' L (G(l := Suc (G l))) \<and> same_view db L db' L
     | ScanError y \<Rightarrow> y \<in> set (L l) \<and> counted db' L (G(l := Suc (G l))) \<and> same_view db L db' L)"

lemma released_view:
  assumes "same_view db L db' L"
  shows "released db' L G l = released db L G l"
  using assms by (auto simp: released_def same_view_def)

lemma released_sub: "set (released db L G l m) \<subseteq> set (L m)"
  by (auto simp: released_def)

lemma same_view_released:
  "same_view (db :: ('k, 'p) rec_db) L db1 L \<Longrightarrow> same_view db1 L db2 (released (db0 :: ('k, 'p) rec_db) L G l) \<Longrightarrow>
    same_view db L db2 (released db0 L G l)"
  by (erule same_view_trans) (auto simp: released_sub)

lemma same_view_same: "same_view db L db1 L \<Longrightarrow> same_view db1 L db2 L \<Longrightarrow> same_view db L db2 L"
  by (erule same_view_trans) auto

lemma scan_list_counted:
  assumes "counted db L (G(l := Suc (G l)))" "L l = as @ x # bs" "rlists db l = Some R"
  shows "\<exists>db'. scan_list g e (Some x) answered db =
      Some (scan_spec (\<lambda>y. visit_result g e (list_key R) y (payload_at db y)) (live db) answered (x # bs), db') \<and>
    scan_post db L G l (scan_spec (\<lambda>y. visit_result g e (list_key R) y (payload_at db y)) (live db) answered (x # bs)) db'"
  using assms
proof (induction "length bs" arbitrary: db as x bs R rule: less_induct)
  case less
  obtain db1 where v: "visit_record g e x db = Some (visit_result g e (list_key R) x (payload_at db x), db1)"
    "counted db1 L (G(l := Suc (G l)))" "same_view db L db1 L"
    using visit_record_counted [OF less.prems] by blast
  obtain n R1 where n: "refs db1 x = Some n" "next_rec n = hd_opt bs None" "rlists db1 l = Some R1"
    using counted_split [OF v(2) less.prems(2)] by blast
  have key: "list_key R1 = list_key R" using v(3) n(3) less.prems(3) by (auto simp: same_view_def dest: spec [of _ l])
  have pay: "payload_at db1 y = payload_at db y" "erased_at db1 y = erased_at db y" if "y \<in> set (x # bs)" for y
  proof -
    have "y \<in> set (L l)" using that less.prems(2) by auto
    then show "payload_at db1 y = payload_at db y" "erased_at db1 y = erased_at db y"
      using v(3) by (auto simp: same_view_def)
  qed
  obtain db2 where a: "advance_state x db1 = Some (hd_opt (filter (live db1) bs) None, db2)"
    "if filter (live db1) bs = [] then counted db2 (released db1 L G l) G \<and> same_view db1 L db2 (released db1 L G l) \<and> blobs db2 = blobs db1
     else db2 = db1"
    using advance_state_counted [OF v(2) less.prems(2)] by blast
  have fil: "filter (live db1) bs = filter (live db) bs" using pay(2) by (intro filter_cong) auto
  note rel = released_view [OF v(3), of G l]
  have done': "scan_post db L G l (ScanEnd b) db2" if "filter (live db) bs = []" for b
    using a(2) that fil rel same_view_released [OF v(3)] by (simp add: scan_post_def)
  show ?case
  proof (cases "visit_result g e (list_key R) x (payload_at db x)")
    case Answer
    then show ?thesis
    proof (cases bs)
      case Nil
      then show ?thesis using Answer v(1) n(1,2) a(1) done' [of True]
        by (subst scan_list.simps) (simp add: scan_list.simps [of _ _ None])
    next
      case (Cons y ys)
      then show ?thesis using Answer v n(1,2) less.prems(2)
        by (subst scan_list.simps) (simp add: scan_post_def)
    qed
  next
    case NoAnswer
    show ?thesis
    proof (cases "dropWhile (\<lambda>y. \<not> live db y) bs")
      case Nil
      then have "filter (live db) bs = []" by (simp add: filter_dropWhile(2))
      moreover have "dropWhile (erased_at db) bs = []" using Nil by simp
      ultimately show ?thesis using NoAnswer v(1) a(1) done' [of answered] fil
        by (subst scan_list.simps) (simp add: scan_list.simps [of _ _ None] del: dropWhile_eq_Nil_conv)
    next
      case (Cons y ys)
      obtain zs where zs: "bs = zs @ y # ys" by (metis Cons takeWhile_dropWhile_id)
      have drop: "hd_opt (filter (live db) bs) None = Some y" "filter (live db) bs \<noteq> []"
        using Cons by (simp_all add: filter_dropWhile)
      then have db2: "db2 = db1" "advance_state x db1 = Some (Some y, db1)" using a fil by auto
      have "L l = (as @ x # zs) @ y # ys" "length ys < length bs" using less.prems(2) zs by simp_all
      then obtain db3 where db3: "scan_list g e (Some y) answered db1 =
          Some (scan_spec (\<lambda>y. visit_result g e (list_key R1) y (payload_at db1 y)) (live db1) answered (y # ys), db3)"
        "scan_post db1 L G l (scan_spec (\<lambda>y. visit_result g e (list_key R1) y (payload_at db1 y)) (live db1) answered (y # ys)) db3"
        using less.hyps [OF _ v(2) _ n(3)] by blast
      have "set (y # ys) \<subseteq> set bs" using zs by auto
      then have spec: "scan_spec (\<lambda>y. visit_result g e (list_key R1) y (payload_at db1 y)) (live db1) answered (y # ys) =
          scan_spec (\<lambda>y. visit_result g e (list_key R) y (payload_at db y)) (live db) answered (y # ys)"
        by (intro scan_spec_cong) (use pay key in auto)
      have "scan_post db L G l s db3" if "scan_post db1 L G l s db3" for s
        using that rel same_view_released [OF v(3)] same_view_same [OF v(3)]
        by (auto simp: scan_post_def split: scan.splits)
      then show ?thesis using NoAnswer v(1) db2 db3 Cons spec
        by (subst scan_list.simps) auto
    qed
  next
    case Error
    then show ?thesis using v less.prems(2) by (subst scan_list.simps) (simp add: scan_post_def)
  qed
qed

section \<open>The loop over the lists\<close>

lemma first_live_seg:
  assumes rep: "db_rep db L"
  shows "L l = as @ bs \<Longrightarrow> first_live db (hd_opt bs None) = Some (hd_opt (filter (live db) bs) None)"
proof (induction bs arbitrary: as)
  case Nil
  show ?case by (subst first_live.simps) simp
next
  case (Cons x bs)
  obtain n c where n: "rec_at db x = Some (n, c)" "next_rec n = hd_opt bs None"
    using db_rep_rec_at [OF rep Cons.prems] by blast
  then show ?case using Cons.IH [of "as @ [x]"] Cons.prems rec_at_erased [OF n(1)]
    by (subst first_live.simps) simp
qed

lemma firstRecordRecordList_rep:
  assumes "db_rep db L" "rlists db l = Some R"
  shows "firstRecordRecordList db l = Some (hd_opt (filter (live db) (L l)) None)"
  using first_live_seg [OF assms(1), of l "[]" "L l"] db_repD(1) [OF assms] assms(2)
  by (simp add: firstRecordRecordList_def list_ok_def)

lemma add_reference:
  assumes "counted db L G" "rlists db l = Some R"
  shows "\<exists>db'. upd_list l (\<lambda>R. R\<lparr>references := references R + 1\<rparr>) db = Some db' \<and>
    counted db' L (G(l := Suc (G l))) \<and> same_view db L db' L \<and> blobs db' = blobs db \<and>
    rlists db' = (rlists db)(l \<mapsto> R\<lparr>references := references R + 1\<rparr>)"
proof -
  obtain db' where db': "upd_list l (\<lambda>R. R\<lparr>references := references R + 1\<rparr>) db = Some db'" "db_rep db' L"
    "refs db' = refs db" "table db' = table db" "blobs db' = blobs db"
    "rlists db' = (rlists db)(l \<mapsto> R\<lparr>references := references R + 1\<rparr>)"
    using upd_list_rep [OF countedD(1) [OF assms(1)] assms(2), of "\<lambda>R. R\<lparr>references := references R + 1\<rparr>"] by auto
  have cell: "erased_at db' = erased_at db" "payload_at db' = payload_at db"
    using db'(3) by (simp_all add: erased_at_def payload_at_def cell_at_def fun_eq_iff)
  have "counted db' L (G(l := Suc (G l)))"
    unfolding counted_def
  proof (intro conjI allI impI)
    fix m R' assume R': "rlists db' m = Some R'"
    show "references R' = int ((G(l := Suc (G l))) m)"
      using R' db'(6) countedD(2) [OF assms(1), of m] countedD(2) [OF assms] by (cases "m = l") auto
    assume "\<exists>x\<in>set (L m). erased_at db' x"
    then obtain x where x: "x \<in> set (L m)" "erased_at db x" using cell by auto
    then show "dirty R'" "0 < (G(l := Suc (G l))) m"
      using R' db'(6) countedD(3) [OF assms(1), of m _ x] countedD(3) [OF assms, of x] by (cases "m = l"; auto)+
  qed (rule db'(2))
  moreover have "same_view db L db' L" using db' cell assms(2) by (simp add: same_view_def)
  ultimately show ?thesis using db' by blast
qed

lemma same_view_dom: "same_view db L db' L' \<Longrightarrow> rlists db' m = None \<longleftrightarrow> rlists db m = None"
  unfolding same_view_def by (metis option.map_disc_iff)

lemma next_key_counted:
  assumes "counted db L G" "\<forall>l\<in>set ls. rlists db l \<noteq> None"
  shows "\<exists>r ls' db'. next_key ls db = Some (r, ls', db') \<and> set ls' \<subseteq> set ls \<and>
    (case r of
       None \<Rightarrow> db' = db \<and> ls' = [] \<and> (\<forall>l\<in>set ls. filter (live db) (L l) = [])
     | Some x \<Rightarrow> length ls' < length ls \<and> (\<exists>l\<in>set ls. x \<in> set (L l) \<and> counted db' L (G(l := Suc (G l))) \<and> same_view db L db' L))"
  using assms(2)
proof (induction ls)
  case (Cons l ls)
  obtain R where R: "rlists db l = Some R" using Cons.prems by auto
  show ?case
  proof (cases "filter (live db) (L l)")
    case Nil
    then show ?thesis
      using Cons firstRecordRecordList_rep [OF countedD(1) [OF assms(1)] R] by (fastforce split: option.splits)
  next
    case (Cons x xs)
    then have "x \<in> set (L l)" by (metis filter_is_subset list.set_intros(1) subset_code(1))
    then show ?thesis
      using Cons firstRecordRecordList_rep [OF countedD(1) [OF assms(1)] R] add_reference [OF assms(1) R] by auto
  qed
qed simp

text \<open>The reference that an enumeration holds, and the lists it still has to visit.\<close>

definition own :: "(rlist \<Rightarrow> rref list) \<Rightarrow> recorded_state \<Rightarrow> rlist \<Rightarrow> nat" where
  "own L st l = (case cur st of None \<Rightarrow> 0 | Some x \<Rightarrow> if x \<in> set (L l) then 1 else 0)"

definition state_ok :: "('k, 'p) rec_db \<Rightarrow> (rlist \<Rightarrow> rref list) \<Rightarrow> recorded_state \<Rightarrow> bool" where
  "state_ok db L st \<longleftrightarrow> (\<forall>x. cur st = Some x \<longrightarrow> (\<exists>l. x \<in> set (L l))) \<and>
     (\<forall>ls. enum st = Some ls \<longrightarrow> (\<forall>l\<in>set ls. rlists db l \<noteq> None))"

lemma own_at:
  assumes "db_rep db L" "x \<in> set (L l)" "cur st = Some x"
  shows "(\<lambda>m. G m + own L st m) = G(l := Suc (G l))"
proof
  fix m
  have "x \<in> set (L m) \<longleftrightarrow> m = l" using db_rep_disjoint [OF assms(1,2), of m] assms(2) by blast
  then show "G m + own L st m = (G(l := Suc (G l))) m" using assms(3) by (simp add: own_def)
qed

lemma own_None: "cur st = None \<Longrightarrow> (\<lambda>m. G m + own L st m) = G"
  by (simp add: own_def)

text \<open>What a call leaves: its own reference with its result, the lists of the others as they were.\<close>

definition call_post :: "('k, 'p) rec_db \<Rightarrow> (rlist \<Rightarrow> rref list) \<Rightarrow> (rlist \<Rightarrow> nat) \<Rightarrow> recorded_result \<Rightarrow>
    ('k, 'p) rec_db \<Rightarrow> (rlist \<Rightarrow> rref list) \<Rightarrow> bool" where
  "call_post db L G res db' L' \<longleftrightarrow> same_view db L db' L' \<and>
     (\<forall>m. set (L' m) \<subseteq> set (L m) \<and> (0 < G m \<longrightarrow> L' m = L m)) \<and>
     (case res of
        Retry st \<Rightarrow> state_ok db' L' st \<and> counted db' L' (\<lambda>m. G m + own L' st m)
      | _ \<Rightarrow> counted db' L' G)"

lemma call_post_trans:
  assumes "same_view db L db1 L1" "\<And>m. set (L1 m) \<subseteq> set (L m)" "\<And>m. 0 < G m \<Longrightarrow> L1 m = L m" "call_post db1 L1 G res db' L'"
  shows "call_post db L G res db' L'"
proof -
  have "same_view db L db' L'"
    by (rule same_view_trans [OF assms(1)]) (use assms(4) in \<open>auto simp: call_post_def\<close>)
  then show ?thesis using assms(2-4) unfolding call_post_def by (metis order_trans)
qed

lemma released_keep: "0 < G m \<Longrightarrow> released db L G l m = L m"
  by (auto simp: released_def)

lemma free_state_counted:
  assumes c: "counted db L (\<lambda>m. G m + own L st m)" and ok: "state_ok db L st"
  shows "\<exists>db' L'. free_state st db = Some db' \<and> call_post db L G Fail db' L'"
proof (cases "cur st")
  case None
  then show ?thesis using c by (auto simp: free_state_def call_post_def own_None intro!: exI [of _ L])
next
  case (Some x)
  then obtain l where l: "x \<in> set (L l)" using ok by (auto simp: state_ok_def)
  note c = c [unfolded own_at [OF countedD(1) [OF c] l Some]]
  obtain as bs where "L l = as @ x # bs" using split_list [OF l] by blast
  then obtain n R where n: "refs db x = Some n" "in_list n = l" "rlists db l = Some R"
    using counted_split [OF c] by blast
  obtain db' where "release_list l db = Some db'" "counted db' (released db L G l) G" "same_view db L db' (released db L G l)"
    using release_list_counted [OF c n(3)] by blast
  then show ?thesis using Some n released_sub [of db L G l] released_keep [of G _ db L l]
    by (auto simp: free_state_def call_post_def intro!: exI [of _ "released db L G l"])
qed

lemma scan_outcome:
  assumes c: "counted db L (\<lambda>m. G m + own L st m)" and ok: "state_ok db L st"
  shows "\<exists>s db'. scan_list g e (cur st) False db = Some (s, db') \<and>
    (case s of
       ScanEnd _ \<Rightarrow> \<exists>L'. counted db' L' G \<and> same_view db L db' L' \<and> (\<forall>m. set (L' m) \<subseteq> set (L m) \<and> (0 < G m \<longrightarrow> L' m = L m))
     | ScanYield y \<Rightarrow> same_view db L db' L \<and> (\<exists>l. y \<in> set (L l) \<and> counted db' L (G(l := Suc (G l))))
     | ScanError y \<Rightarrow> same_view db L db' L \<and> (\<exists>l. y \<in> set (L l) \<and> counted db' L (G(l := Suc (G l)))))"
proof (cases "cur st")
  case None
  then show ?thesis using c by (subst scan_list.simps) (auto simp: own_None intro!: exI [of _ L])
next
  case (Some x)
  then obtain l where l: "x \<in> set (L l)" using ok by (auto simp: state_ok_def)
  note c = c [unfolded own_at [OF countedD(1) [OF c] l Some]]
  obtain as bs where s: "L l = as @ x # bs" using split_list [OF l] by blast
  then obtain R where R: "rlists db l = Some R" using counted_split [OF c] by blast
  obtain s db' where sc: "scan_list g e (Some x) False db = Some (s, db')" "scan_post db L G l s db'"
    using scan_list_counted [OF c s R] by blast
  have "\<forall>m. set (released db L G l m) \<subseteq> set (L m) \<and> (0 < G m \<longrightarrow> released db L G l m = L m)"
    using released_sub [of db L G l] released_keep [of G _ db L l] by blast
  then show ?thesis using sc Some
    by (cases s) (auto simp: scan_post_def intro!: exI [of _ "released db L G l"])
qed

lemma state_ok_view:
  assumes "same_view db L db' L'" "enum st = None \<or> (\<exists>ls. enum st = Some ls \<and> (\<forall>l\<in>set ls. rlists db l \<noteq> None))"
    "\<And>x. cur st = Some x \<Longrightarrow> \<exists>l. x \<in> set (L' l)"
  shows "state_ok db' L' st"
  using assms same_view_dom [OF assms(1)] by (auto simp: state_ok_def)

theorem recorded_loop_counted:
  assumes "counted db L (\<lambda>m. G m + own L st m)" "state_ok db L st"
  shows "\<exists>res db' L'. recorded_loop g st db = Some (res, db') \<and> call_post db L G res db' L'"
  using assms
proof (induction "case enum st of None \<Rightarrow> 0 | Some ls \<Rightarrow> length ls" arbitrary: st db L rule: less_induct)
  case less
  obtain s db1 where s: "scan_list g (enum st \<noteq> None) (cur st) False db = Some (s, db1)" and
    post: "case s of
       ScanEnd _ \<Rightarrow> \<exists>L'. counted db1 L' G \<and> same_view db L db1 L' \<and> (\<forall>m. set (L' m) \<subseteq> set (L m) \<and> (0 < G m \<longrightarrow> L' m = L m))
     | ScanYield y \<Rightarrow> same_view db L db1 L \<and> (\<exists>l. y \<in> set (L l) \<and> counted db1 L (G(l := Suc (G l))))
     | ScanError y \<Rightarrow> same_view db L db1 L \<and> (\<exists>l. y \<in> set (L l) \<and> counted db1 L (G(l := Suc (G l))))"
    using scan_outcome [OF less.prems] by blast
  have state: "state_ok db1 L (st\<lparr>cur := Some y\<rparr>) \<and> counted db1 L (\<lambda>m. G m + own L (st\<lparr>cur := Some y\<rparr>) m)"
    if "same_view db L db1 L" "y \<in> set (L l)" "counted db1 L (G(l := Suc (G l)))" for y l
  proof
    show "state_ok db1 L (st\<lparr>cur := Some y\<rparr>)"
      by (rule state_ok_view [OF that(1)]) (use less.prems(2) that(2) in \<open>(cases "enum st"; auto simp: state_ok_def)+\<close>)
    show "counted db1 L (\<lambda>m. G m + own L (st\<lparr>cur := Some y\<rparr>) m)"
      using that(3) own_at [OF countedD(1) [OF that(3)] that(2), of "st\<lparr>cur := Some y\<rparr>" G] by simp
  qed
  show ?case
  proof (cases s)
    case (ScanYield y)
    then obtain l where l: "same_view db L db1 L" "y \<in> set (L l)" "counted db1 L (G(l := Suc (G l)))" using post by auto
    then show ?thesis using s ScanYield state [OF l]
      by (subst recorded_loop.simps) (auto simp: call_post_def intro!: exI [of _ L])
  next
    case (ScanError y)
    then obtain l where l: "same_view db L db1 L" "y \<in> set (L l)" "counted db1 L (G(l := Suc (G l)))" using post by auto
    obtain db' L' where "free_state (st\<lparr>cur := Some y\<rparr>) db1 = Some db'" "call_post db1 L G Fail db' L'"
      using free_state_counted state [OF l] by blast
    then show ?thesis using s ScanError call_post_trans [OF l(1)]
      by (subst recorded_loop.simps) (auto intro!: exI [of _ L'])
  next
    case (ScanEnd a)
    then obtain L1 where L1: "counted db1 L1 G" "same_view db L db1 L1" "\<And>m. set (L1 m) \<subseteq> set (L m)" "\<And>m. 0 < G m \<Longrightarrow> L1 m = L m"
      using post by auto
    have trans: "call_post db L G res db' L'" if "call_post db1 L1 G res db' L'" for res db' L'
      by (rule call_post_trans [OF L1(2-4) that])
    show ?thesis
    proof (cases "enum st")
      case None
      then show ?thesis using s ScanEnd L1 by (subst recorded_loop.simps) (auto simp: call_post_def intro!: exI [of _ L1])
    next
      case (Some ls)
      have dom: "\<forall>l\<in>set ls. rlists db1 l \<noteq> None"
        using less.prems(2) Some same_view_dom [OF L1(2)] by (simp add: state_ok_def)
      obtain r ls' db2 where n: "next_key ls db1 = Some (r, ls', db2)" "set ls' \<subseteq> set ls"
        "case r of None \<Rightarrow> db2 = db1 \<and> ls' = [] \<and> (\<forall>l\<in>set ls. filter (live db1) (L1 l) = [])
         | Some x \<Rightarrow> length ls' < length ls \<and> (\<exists>l\<in>set ls. x \<in> set (L1 l) \<and> counted db2 L1 (G(l := Suc (G l))) \<and> same_view db1 L1 db2 L1)"
        using next_key_counted [OF L1(1) dom] by blast
      let ?st = "\<lparr>enum = Some ls', cur = r\<rparr>"
      have st: "state_ok db2 L1 ?st \<and> counted db2 L1 (\<lambda>m. G m + own L1 ?st m) \<and> same_view db1 L1 db2 L1"
      proof (cases r)
        case None
        then show ?thesis using n L1(1) by (simp add: state_ok_def own_None)
      next
        case (Some x)
        then obtain l where l: "x \<in> set (L1 l)" "counted db2 L1 (G(l := Suc (G l)))" "same_view db1 L1 db2 L1" using n(3) by auto
        have "state_ok db2 L1 ?st"
          by (rule state_ok_view [OF l(3)]) (use n(2) dom l(1) Some in auto)
        then show ?thesis using l own_at [OF countedD(1) [OF l(2)] l(1), of ?st G] Some by simp
      qed
      show ?thesis
      proof (cases "a \<or> r = None")
        case True
        have "call_post db1 L1 G (if a then Retry ?st else Fail) db2 L1"
          using st True own_None [of ?st G L1] by (auto simp: call_post_def)
        then have "call_post db L G (if a then Retry ?st else Fail) db2 L1" by (rule trans)
        then show ?thesis using s ScanEnd Some n(1) True
          by (subst recorded_loop.simps) (auto split: if_splits)
      next
        case False
        then have len: "length ls' < length ls" using n(3) by (auto split: option.splits)
        obtain res db' L' where r: "recorded_loop g ?st db2 = Some (res, db')" "call_post db2 L1 G res db' L'"
          using less.hyps [of ?st db2 L1] len st Some by auto
        have "call_post db1 L1 G res db' L'" by (rule call_post_trans [OF _ _ _ r(2)]) (use st in auto)
        then have "call_post db L G res db' L'" by (rule trans)
        then show ?thesis using s ScanEnd Some n(1) False r(1)
          by (subst recorded_loop.simps) auto
      qed
    qed
  qed
qed

section \<open>Erasing and reclaiming references\<close>

definition only_list :: "(rlist \<Rightarrow> rref list) \<Rightarrow> (rlist \<Rightarrow> nat) \<Rightarrow> (rlist \<Rightarrow> rref list) \<Rightarrow> bool" where
  "only_list L H L' \<longleftrightarrow> (\<forall>m. set (L' m) \<subseteq> set (L m) \<and> (0 < H m \<longrightarrow> L' m = L m))"

lemma only_list_refl [simp]: "only_list L H L"
  by (simp add: only_list_def)

definition erased_view :: "('k, 'p) rec_db \<Rightarrow> (rlist \<Rightarrow> rref list) \<Rightarrow> rref \<Rightarrow> ('k, 'p) rec_db \<Rightarrow> (rlist \<Rightarrow> rref list) \<Rightarrow> bool" where
  "erased_view db L r db' L' \<longleftrightarrow> table db' = table db \<and>
     (\<forall>m. rlists db' m = None \<longleftrightarrow> rlists db m = None) \<and>
     (\<forall>m. filter (live db') (L' m) = filter (\<lambda>x. x \<noteq> r) (filter (live db) (L m))) \<and>
     (\<forall>m. \<forall>y\<in>set (L' m). payload_at db' y = payload_at db y)"

lemma filter_remove:
  assumes "L l = as @ r # bs" "r \<notin> set as" "r \<notin> set bs" "\<And>m. m \<noteq> l \<Longrightarrow> r \<notin> set (L m)"
  shows "filter P ((L(l := as @ bs)) m) = filter (\<lambda>x. x \<noteq> r) (filter P (L m))"
proof -
  have "filter (\<lambda>x. x \<noteq> r) xs = xs" if "r \<notin> set xs" for xs using that by (induction xs) auto
  then have "(L(l := as @ bs)) m = filter (\<lambda>x. x \<noteq> r) (L m)"
    using assms(1-3) assms(4) [of m] by (cases "m = l") simp_all
  then show ?thesis by (simp add: filter_filter conj_commute)
qed

text \<open>A list that is not referred to loses the record at once, another one keeps it as erased.\<close>

lemma remove_record_counted:
  assumes c: "counted db L H" and rl: "r \<in> set (L l)" and H: "H l = 0"
  shows "\<exists>db' L'. remove_record r db = Some db' \<and> counted db' L' H \<and> only_list L H L' \<and> erased_view db L r db' L'"
proof -
  note rep = countedD(1) [OF c]
  obtain as bs where L: "L l = as @ r # bs" using split_list [OF rl] by blast
  obtain db' where db': "remove_record r db = Some db'" "db_rep db' (L(l := as @ bs))" "cleans db db' [r]"
    using remove_record_rep [OF rep L] by blast
  have notin: "r \<notin> set as" "r \<notin> set bs" using db_rep_distinct [OF rep, of l] L by auto
  have other: "r \<notin> set (L m)" if "m \<noteq> l" for m using db_rep_disjoint [OF rep rl, of m] that by blast
  have same: "erased_at db' y = erased_at db y" "payload_at db' y = payload_at db y" if "y \<noteq> r" for y
    using cleansD(6,7) [OF db'(3), of y] that by simp_all
  have mem: "y \<noteq> r \<and> y \<in> set (L m)" if "y \<in> set ((L(l := as @ bs)) m)" for y m
    using that L notin other [of m] by (cases "m = l") auto
  have "counted db' (L(l := as @ bs)) H"
    unfolding counted_def
  proof (intro conjI allI impI)
    fix m R' assume "rlists db' m = Some R'"
    then obtain R1 where R1: "rlists db m = Some R1" "references R' = references R1" "dirty R' = dirty R1"
      using list_attr_references [OF cleansD(2) [OF db'(3)]] by blast
    then show "references R' = int (H m)" using countedD(2) [OF c] by simp
    assume "\<exists>x\<in>set ((L(l := as @ bs)) m). erased_at db' x"
    then obtain x where "x \<in> set (L m)" "erased_at db x" using mem same by blast
    then show "dirty R'" "0 < H m" using countedD(3) [OF c R1(1)] R1(3) by auto
  qed (rule db'(2))
  moreover have "erased_view db L r db' (L(l := as @ bs))"
  proof -
    have "(rlists db' m = None) = (rlists db m = None)" for m
      using cleansD(2) [OF db'(3), THEN fun_cong, of m] by (cases "rlists db' m"; cases "rlists db m") (auto simp: list_attr_def)
    moreover have "filter (live db') ((L(l := as @ bs)) m) = filter (\<lambda>x. x \<noteq> r) (filter (live db) (L m))" for m
    proof -
      have "filter (live db') ((L(l := as @ bs)) m) = filter (live db) ((L(l := as @ bs)) m)"
        using mem same by (intro filter_cong) auto
      then show ?thesis using filter_remove [where L = L, OF L notin other] by simp
    qed
    ultimately show ?thesis using mem same cleansD(3) [OF db'(3)] by (auto simp: erased_view_def)
  qed
  moreover have "only_list L H (L(l := as @ bs))" using H L by (auto simp: only_list_def)
  ultimately show ?thesis using db'(1) by blast
qed

lemma mark_counted:
  assumes c: "counted db L H" and rl: "r \<in> set (L l)" "r \<in> set (blobs db)" and H: "0 < H l"
    and rec: "rec_at db r = Some (n, cl)"
  shows "\<exists>db'. Option.bind (upd_ref r (\<lambda>n. n\<lparr>record_of := Some (cl\<lparr>erased := True\<rparr>)\<rparr>) db)
      (upd_list l (\<lambda>R. R\<lparr>dirty := True\<rparr>)) = Some db' \<and> counted db' L H \<and> erased_view db L r db' L"
proof -
  note rep = countedD(1) [OF c]
  obtain R where R: "rlists db l = Some R" using db_rep_in [OF rep rl(1)] by blast
  obtain db1 where db1: "upd_ref r (\<lambda>n. n\<lparr>record_of := Some (cl\<lparr>erased := True\<rparr>)\<rparr>) db = Some db1" "db_rep db1 L"
    "rlists db1 = rlists db" "table db1 = table db"
    "\<And>y. erased_at db1 y = (erased_at db y \<or> y = r)" "\<And>y. payload_at db1 y = payload_at db y"
    using mark_erased_rep [OF rep rl rec] by blast
  obtain db2 where db2: "upd_list l (\<lambda>R. R\<lparr>dirty := True\<rparr>) db1 = Some db2" "db_rep db2 L" "refs db2 = refs db1"
    "table db2 = table db1" "rlists db2 = (rlists db1)(l \<mapsto> R\<lparr>dirty := True\<rparr>)"
    using upd_list_rep [OF db1(2), of l R "\<lambda>R. R\<lparr>dirty := True\<rparr>"] R db1(3) by auto
  have cell: "erased_at db2 = erased_at db1" "payload_at db2 = payload_at db1"
    using db2(3) by (simp_all add: erased_at_def payload_at_def cell_at_def fun_eq_iff)
  have "counted db2 L H"
    unfolding counted_def
  proof (intro conjI allI impI)
    fix m R' assume R': "rlists db2 m = Some R'"
    show "references R' = int (H m)"
      using R' db2(5) db1(3) R countedD(2) [OF c, of m] countedD(2) [OF c R] by (cases "m = l") auto
    assume "\<exists>x\<in>set (L m). erased_at db2 x"
    then obtain x where x: "x \<in> set (L m)" "erased_at db x \<or> x = r" using cell db1(5) by auto
    have "dirty R' \<and> 0 < H m"
    proof (cases "m = l")
      case True
      then show ?thesis using R' db2(5) H by auto
    next
      case False
      then have "rlists db m = Some R'" using R' db2(5) db1(3) by simp
      moreover have "erased_at db x" using x False db_rep_disjoint [OF rep rl(1), of m] by blast
      ultimately show ?thesis using countedD(3) [OF c] x(1) by blast
    qed
    then show "dirty R'" "0 < H m" by simp_all
  qed (rule db2(2))
  moreover have "erased_view db L r db2 L"
    using db2(4,5) db1(3-6) cell R by (auto simp: erased_view_def intro: filter_cong)
  ultimately show ?thesis using db1(1) db2(1) by simp
qed

lemma erase_counted:
  assumes c: "counted db L H" and r: "r \<in> set (blobs db)"
  shows "\<exists>res db' L'. erase r hook db = Some (res, db') \<and> counted db' L' H \<and> only_list L H L' \<and> erased_view db L r db' L'"
proof -
  note rep = countedD(1) [OF c]
  obtain n where n: "refs db r = Some n" using db_repD(5) [OF rep r] by blast
  show ?thesis
  proof (cases "\<exists>c. record_of n = Some c \<and> \<not> erased c")
    case False
    have "r \<notin> set (filter (live db) (L m))" for m
      using db_rep_in [OF rep, of r m] False n by (auto simp: erased_at_def cell_at_def)
    then have "filter (\<lambda>x. x \<noteq> r) (filter (live db) (L m)) = filter (live db) (L m)" for m
      by (metis (mono_tags, lifting) filter_True)
    then have "erased_view db L r db L" by (simp add: erased_view_def)
    moreover have "erase r hook db = Some (False, db)"
      using False n by (auto simp: erase_def PL_get_recref_def split: option.splits)
    ultimately show ?thesis using c by auto
  next
    case True
    then obtain cl where cl: "record_of n = Some cl" "\<not> erased cl" by blast
    define l where "l = in_list n"
    have rl: "r \<in> set (L l)" using db_repD(4) [OF rep n] cl by (simp add: node_ok_def l_def)
    then obtain R where R: "rlists db l = Some R" using db_rep_in [OF rep] by blast
    have rec: "rec_at db r = Some (n, cl)" using n cl by (simp add: rec_at_cell)
    have "PL_get_recref r db = Some True" using n cl by (simp add: PL_get_recref_def)
    then have er: "erase r hook db = map_option (Pair hook) (if references R \<noteq> 0
        then Option.bind (upd_ref r (\<lambda>n. n\<lparr>record_of := Some (cl\<lparr>erased := True\<rparr>)\<rparr>) db) (upd_list l (\<lambda>R. R\<lparr>dirty := True\<rparr>))
        else remove_record r db)"
      using rec R by (simp add: erase_def l_def)
    have "references R = int (H l)" by (rule countedD(2) [OF c R])
    then show ?thesis
      using er remove_record_counted [OF c rl] mark_counted [OF c rl r _ rec] by (cases "H l = 0") force+
  qed
qed

lemma release_record_counted:
  assumes c: "counted db L H" and r: "r \<in> set (blobs db)" "live db r"
  shows "\<exists>db'. release_record r db = Some db' \<and> counted db' L H \<and> same_view db L db' L"
proof -
  note rep = countedD(1) [OF c]
  obtain n where n: "refs db r = Some n" using db_repD(5) [OF rep r(1)] by blast
  let ?B = "removeAll r (blobs db)"
  define db' where "db' = (case record_of n of
      Some c \<Rightarrow> db\<lparr>blobs := ?B, refs := (refs db)(r \<mapsto> n\<lparr>record_of := Some (c\<lparr>dbref := False\<rparr>)\<rparr>)\<rparr>
    | None \<Rightarrow> db\<lparr>blobs := ?B, refs := (refs db)(r := None)\<rparr>)"
  have rel: "release_record r db = Some db'" using n by (simp add: release_record_def db'_def split: option.split)
  have cell: "cell_at db' y = (if y = r then map_option (\<lambda>c. c\<lparr>dbref := False\<rparr>) (cell_at db y) else cell_at db y)" for y
    using n by (auto simp: db'_def cell_at_def split: option.split)
  have view: "erased_at db' y = erased_at db y" "payload_at db' y = payload_at db y" if "y \<in> set (L m)" for y m
    using cell [of y] db_rep_in [OF rep that] by (auto simp: erased_at_def payload_at_def cell_at_def)
  have fields: "rlists db' = rlists db" "table db' = table db" "fresh db' = fresh db" "blobs db' = ?B"
    by (simp_all add: db'_def split: option.split)
  have dom: "refs db' y = None \<longleftrightarrow> refs db y = None" if "y \<noteq> r" for y
    using that by (simp add: db'_def split: option.split)
  have "db_rep db' L"
    unfolding db_rep_def
  proof (intro conjI allI ballI impI)
    fix l
    have "lseg (refs db) l None (L l) None \<Longrightarrow> lseg (refs db') l None (L l) None"
    proof (cases "record_of n")
      case None
      then have "r \<notin> set (L l)" using db_rep_in [OF rep, of r l] n by auto
      then have "lseg (refs db') l None (L l) None = lseg (refs db) l None (L l) None"
        using None by (intro lseg_cong) (auto simp: db'_def)
      then show "lseg (refs db) l None (L l) None \<Longrightarrow> lseg (refs db') l None (L l) None" by simp
    next
      case (Some cl)
      then show "lseg (refs db) l None (L l) None \<Longrightarrow> lseg (refs db') l None (L l) None"
        using lseg_record [of "refs db" l None "L l" None r n] n by (simp add: db'_def)
    qed
    then show "case rlists db' l of None \<Rightarrow> L l = [] | Some R \<Rightarrow> l < fresh db' \<and> list_ok db' l R (L l)"
      using db_repD(1-3) [OF rep, of l] fields by (auto simp: list_ok_def split: option.splits)
  next
    fix x m assume m: "refs db' x = Some m"
    show "node_ok db' L x m"
    proof (cases "x = r")
      case True
      then obtain cl where cl: "record_of n = Some cl" using m by (cases "record_of n") (auto simp: db'_def)
      then show ?thesis using m True db_repD(4) [OF rep n] r(2) n
        by (auto simp: db'_def node_ok_def erased_at_def cell_at_def)
    next
      case False
      then have "refs db x = Some m" using m by (simp add: db'_def split: option.splits)
      then show ?thesis using db_repD(4) [OF rep, of x m] False fields by (auto simp: node_ok_def split: option.splits)
    qed
  next
    fix x assume "x \<in> set (blobs db')"
    then show "refs db' x \<noteq> None" using dom [of x] db_repD(5) [OF rep, of x] fields by auto
  qed (use fields db_repD(7-9) [OF rep] in auto)
  then have "counted db' L H" using c view fields by (auto simp: counted_def)
  moreover have "same_view db L db' L" using view fields by (auto simp: same_view_def intro: filter_cong)
  ultimately show ?thesis using rel by blast
qed

section \<open>The database with its open enumerations\<close>

definition holds :: "(rlist \<Rightarrow> rref list) \<Rightarrow> recorded_state list \<Rightarrow> rlist \<Rightarrow> nat" where
  "holds L S l = (\<Sum>st\<leftarrow>S. own L st l)"

definition sys_ok :: "('k, 'p) rec_db \<Rightarrow> recorded_state list \<Rightarrow> (rlist \<Rightarrow> rref list) \<Rightarrow> bool" where
  "sys_ok db S L \<longleftrightarrow> counted db L (holds L S) \<and> (\<forall>st\<in>set S. state_ok db L st)"

text \<open>The state that a call leaves open.\<close>

definition retry :: "recorded_result \<Rightarrow> recorded_state list" where
  "retry res = (case res of Retry st \<Rightarrow> [st] | _ \<Rightarrow> [])"

text \<open>
  The events: a record is added; an enumeration is opened, resumed or closed; a record is erased; the
  symbol that refers to a record that is not erased is reclaimed.
\<close>

inductive rec_step :: "('k, 'p) rec_db \<times> recorded_state list \<Rightarrow> ('k, 'p) rec_db \<times> recorded_state list \<Rightarrow> bool" where
  Record: "ref \<noteq> RefVar False \<Longrightarrow> record_db z key copy ref db = Some (res, db') \<Longrightarrow> rec_step (db, S) (db', S)"
| First: "recorded_first g key db = Some (res, db') \<Longrightarrow> rec_step (db, S) (db', retry res @ S)"
| Redo: "recorded_redo g st db = Some (res, db') \<Longrightarrow> rec_step (db, S1 @ st # S2) (db', retry res @ S1 @ S2)"
| Cut: "recorded_cut st db = Some db' \<Longrightarrow> rec_step (db, S1 @ st # S2) (db', S1 @ S2)"
| Erase: "r \<in> set (blobs db) \<Longrightarrow> erase r hook db = Some (res, db') \<Longrightarrow> rec_step (db, S) (db', S)"
| Release: "r \<in> set (blobs db) \<Longrightarrow> \<not> erased_at db r \<Longrightarrow> release_record r db = Some db' \<Longrightarrow> rec_step (db, S) (db', S)"

inductive rec_reachable :: "('k, 'p) rec_db \<times> recorded_state list \<Rightarrow> bool" where
  init: "rec_reachable (initRecords, [])"
| step: "rec_reachable s \<Longrightarrow> rec_step s s' \<Longrightarrow> rec_reachable s'"

inductive_cases rec_stepE: "rec_step (db, S) (db', S')"

lemma own_le_holds: "st \<in> set S \<Longrightarrow> own L st l \<le> holds L S l"
  by (induction S) (auto simp: holds_def)

lemma holds_simps [simp]:
  "holds L [] l = 0" "holds L (st # S) l = own L st l + holds L S l"
  "holds L (S @ T) l = holds L S l + holds L T l"
  by (simp_all add: holds_def)

lemma keep_others:
  assumes keep: "only_list L (holds L S) L'" and ok: "\<And>st. st \<in> set S \<Longrightarrow> state_ok db L st"
    and dom: "\<And>l. rlists db l \<noteq> None \<Longrightarrow> rlists db' l \<noteq> None"
  shows "holds L' S = holds L S" "st \<in> set S \<Longrightarrow> state_ok db' L' st"
proof -
  have own: "own L' st l = own L st l" if "st \<in> set S" for st l
  proof (cases "0 < holds L S l")
    case True
    then have "L' l = L l" using keep by (simp add: only_list_def)
    then show ?thesis by (auto simp: own_def split: option.split)
  next
    case False
    then have "own L st l = 0" using own_le_holds [OF that, of L l] by simp
    then show ?thesis using keep by (auto simp: only_list_def own_def split: option.splits if_splits)
  qed
  show "holds L' S = holds L S"
    by (auto simp: holds_def fun_eq_iff own intro!: arg_cong [of _ _ sum_list] map_cong)
  assume st: "st \<in> set S"
  have "\<exists>l. x \<in> set (L' l)" if x: "cur st = Some x" for x
  proof -
    obtain l where l: "x \<in> set (L l)" using ok [OF st] x by (auto simp: state_ok_def)
    then have "0 < holds L S l" using own_le_holds [OF st, of L l] x by (simp add: own_def)
    then have "L' l = L l" using keep by (simp add: only_list_def)
    then show ?thesis using l by (intro exI [of _ l]) simp
  qed
  then show "state_ok db' L' st" using ok [OF st] dom by (fastforce simp: state_ok_def)
qed

lemma call_post_only: "call_post db L G res db' L' \<Longrightarrow> only_list L G L'"
  by (simp add: call_post_def only_list_def)

lemma call_post_counted: "call_post db L G res db' L' \<Longrightarrow> counted db' L' (\<lambda>m. holds L' (retry res) m + G m)"
  by (cases res) (simp_all add: call_post_def retry_def add.commute)

text \<open>A call of an enumeration among the others.\<close>

lemma call_sys:
  assumes S: "\<And>st. st \<in> set S \<Longrightarrow> state_ok db L st" and post: "call_post db L (holds L S) res db' L'"
  shows "sys_ok db' (retry res @ S) L'"
proof -
  have view: "same_view db L db' L'" using post by (simp add: call_post_def)
  note keep = keep_others [OF call_post_only [OF post] S, of db']
  have dom: "\<And>l. rlists db l \<noteq> None \<Longrightarrow> rlists db' l \<noteq> None" using same_view_dom [OF view] by simp
  have "holds L' (retry res @ S) = (\<lambda>m. holds L' (retry res) m + holds L S m)"
    using keep(1) dom by (simp add: fun_eq_iff)
  then have "counted db' L' (holds L' (retry res @ S))" using call_post_counted [OF post] by simp
  moreover have "state_ok db' L' st" if "st \<in> set (retry res @ S)" for st
    using that keep(2) [of st] dom post by (cases res) (auto simp: retry_def call_post_def)
  ultimately show ?thesis by (simp add: sys_ok_def)
qed

lemma recorded_redo_sys:
  assumes "sys_ok db (S1 @ st # S2) L"
  shows "\<exists>res db' L'. recorded_redo g st db = Some (res, db') \<and> sys_ok db' (retry res @ S1 @ S2) L' \<and> same_view db L db' L'"
proof -
  have "(\<lambda>m. holds L (S1 @ S2) m + own L st m) = holds L (S1 @ st # S2)" by auto
  then have "counted db L (\<lambda>m. holds L (S1 @ S2) m + own L st m)" "state_ok db L st"
    using assms by (simp_all add: sys_ok_def)
  then obtain res db' L' where r: "recorded_loop g st db = Some (res, db')" "call_post db L (holds L (S1 @ S2)) res db' L'"
    using recorded_loop_counted by blast
  moreover have "sys_ok db' (retry res @ S1 @ S2) L'"
    by (rule call_sys [OF _ r(2)]) (use assms in \<open>auto simp: sys_ok_def\<close>)
  ultimately show ?thesis by (auto simp: recorded_redo_def call_post_def)
qed

lemma recorded_cut_sys:
  assumes "sys_ok db (S1 @ st # S2) L"
  shows "\<exists>db' L'. recorded_cut st db = Some db' \<and> sys_ok db' (S1 @ S2) L' \<and> same_view db L db' L'"
proof -
  have "(\<lambda>m. holds L (S1 @ S2) m + own L st m) = holds L (S1 @ st # S2)" by auto
  then have "counted db L (\<lambda>m. holds L (S1 @ S2) m + own L st m)" "state_ok db L st"
    using assms by (simp_all add: sys_ok_def)
  then obtain db' L' where r: "free_state st db = Some db'" "call_post db L (holds L (S1 @ S2)) Fail db' L'"
    using free_state_counted by blast
  moreover have "sys_ok db' (retry Fail @ S1 @ S2) L'"
    by (rule call_sys [OF _ r(2)]) (use assms in \<open>auto simp: sys_ok_def\<close>)
  ultimately show ?thesis by (auto simp: recorded_cut_def call_post_def retry_def)
qed

lemma isCurrentRecordList_rep:
  assumes "db_rep db L" "map_of (table db) k = Some l"
  shows "isCurrentRecordList k True db = Some (if filter (live db) (L l) = [] then None else Some l)"
proof -
  obtain R where "rlists db l = Some R" using db_repD(6) [OF assms] by blast
  then show ?thesis using assms firstRecordRecordList_rep [OF assms(1)]
    by (cases "filter (live db) (L l)") (simp_all add: isCurrentRecordList_def)
qed

lemma recorded_first_key:
  assumes c: "counted db L G" and k: "map_of (table db) k = Some l" and ne: "filter (live db) (L l) \<noteq> []"
  shows "\<exists>db1 R. recorded_first g (KeyIs k) db = recorded_loop g \<lparr>enum = None, cur = hd_opt (L l) None\<rparr> db1 \<and>
    counted db1 L (G(l := Suc (G l))) \<and> same_view db L db1 L \<and> rlists db1 l = Some R"
proof -
  obtain R where R: "rlists db l = Some R" using db_repD(6) [OF countedD(1) [OF c] k] by blast
  obtain db1 where db1: "upd_list l (\<lambda>R. R\<lparr>references := references R + 1\<rparr>) db = Some db1"
    "counted db1 L (G(l := Suc (G l)))" "same_view db L db1 L"
    "rlists db1 = (rlists db)(l \<mapsto> R\<lparr>references := references R + 1\<rparr>)"
    using add_reference [OF c R] by blast
  have "firstRecord R = hd_opt (L l) None" using db_repD(1) [OF countedD(1) [OF c] R] by (simp add: list_ok_def)
  then show ?thesis
    using isCurrentRecordList_rep [OF countedD(1) [OF c] k] ne db1 by (auto simp: recorded_first_def)
qed

lemma recorded_first_sys:
  assumes "sys_ok db S L"
  shows "\<exists>res db' L'. recorded_first g key db = Some (res, db') \<and> sys_ok db' (retry res @ S) L' \<and> same_view db L db' L'"
proof -
  have c: "counted db L (holds L S)" and S: "\<And>st. st \<in> set S \<Longrightarrow> state_ok db L st" using assms by (auto simp: sys_ok_def)
  note rep = countedD(1) [OF c]
  show ?thesis
  proof (cases key)
    case KeyVar
    let ?st = "\<lparr>enum = Some (map snd (table db)), cur = None\<rparr>"
    have "\<forall>l\<in>set (map snd (table db)). rlists db l \<noteq> None" using db_repD(7) [OF rep] by force
    then have "state_ok db L ?st" by (simp add: state_ok_def)
    moreover have "counted db L (\<lambda>m. holds L S m + own L ?st m)" using c by (simp add: own_None)
    ultimately obtain res db' L' where r: "recorded_loop g ?st db = Some (res, db')" "call_post db L (holds L S) res db' L'"
      using recorded_loop_counted by blast
    then show ?thesis using KeyVar call_sys [OF S r(2)] by (auto simp: recorded_first_def call_post_def)
  next
    case KeyBad
    then show ?thesis using assms by (auto simp: recorded_first_def retry_def intro!: exI [of _ L])
  next
    case (KeyIs k)
    show ?thesis
    proof (cases "\<exists>l. map_of (table db) k = Some l \<and> filter (live db) (L l) \<noteq> []")
      case False
      then have "isCurrentRecordList k True db = Some None"
        using isCurrentRecordList_rep [OF rep, of k]
        by (cases "map_of (table db) k") (auto simp: isCurrentRecordList_def)
      then show ?thesis using KeyIs assms by (auto simp: recorded_first_def retry_def intro!: exI [of _ L])
    next
      case True
      then obtain l where l: "map_of (table db) k = Some l" "filter (live db) (L l) \<noteq> []" by blast
      let ?st = "\<lparr>enum = None, cur = hd_opt (L l) None\<rparr>"
      obtain db1 where db1: "recorded_first g (KeyIs k) db = recorded_loop g ?st db1"
        "counted db1 L ((holds L S)(l := Suc (holds L S l)))" "same_view db L db1 L"
        using recorded_first_key [OF c l, of g] by blast
      obtain x where x: "hd_opt (L l) None = Some x" "x \<in> set (L l)" using l(2) by (cases "L l") auto
      have "counted db1 L (\<lambda>m. holds L S m + own L ?st m)"
        using db1(2) own_at [OF countedD(1) [OF db1(2)] x(2), of ?st "holds L S"] x(1) by simp
      moreover have "state_ok db1 L ?st" using x by (auto simp: state_ok_def)
      ultimately obtain res db' L' where r: "recorded_loop g ?st db1 = Some (res, db')" "call_post db1 L (holds L S) res db' L'"
        using recorded_loop_counted by blast
      have post: "call_post db L (holds L S) res db' L'" by (rule call_post_trans [OF db1(3) _ _ r(2)]) auto
      then show ?thesis using KeyIs db1(1) r(1) call_sys [OF S post] by (auto simp: call_post_def)
    qed
  qed
qed

section \<open>The contents of the database\<close>

text \<open>The nodes from \<open>r\<close> on; the number of addresses in use is enough fuel.\<close>

fun walk :: "nat \<Rightarrow> ('k, 'p) rec_db \<Rightarrow> rref option \<Rightarrow> rref list" where
  "walk fuel db None = []"
| "walk 0 db (Some r) = []"
| "walk (Suc fuel) db (Some r) = (case refs db r of None \<Rightarrow> [] | Some n \<Rightarrow> r # walk fuel db (next_rec n))"

definition list_nodes :: "('k, 'p) rec_db \<Rightarrow> rlist \<Rightarrow> rref list" where
  "list_nodes db l = (case rlists db l of None \<Rightarrow> [] | Some R \<Rightarrow> walk (fresh db) db (firstRecord R))"

text \<open>The records of a key as its users see them.\<close>

definition records_of :: "('k, 'p) rec_db \<Rightarrow> 'k \<Rightarrow> (rref \<times> 'p) list" where
  "records_of db k = (case map_of (table db) k of
     None \<Rightarrow> []
   | Some l \<Rightarrow> map (\<lambda>r. (r, payload_at db r)) (filter (\<lambda>r. \<not> erased_at db r) (list_nodes db l)))"

lemma walk_seg: "lseg (refs db) l p xs None \<Longrightarrow> length xs \<le> fuel \<Longrightarrow> walk fuel db (hd_opt xs None) = xs"
proof (induction xs arbitrary: p fuel)
  case (Cons x xs)
  then show ?case by (cases fuel) auto
qed simp

lemma list_nodes_rep:
  assumes "db_rep db L"
  shows "list_nodes db l = L l"
proof (cases "rlists db l")
  case None
  then show ?thesis using db_repD(3) [OF assms] by (simp add: list_nodes_def)
next
  case (Some R)
  have "set (L l) \<subseteq> {..<fresh db}"
  proof
    fix x assume "x \<in> set (L l)"
    then obtain n where "refs db x = Some n" using db_rep_in [OF assms] by blast
    then show "x \<in> {..<fresh db}" using db_repD(4) [OF assms] by (auto simp: node_ok_def)
  qed
  then have "length (L l) \<le> fresh db"
    using card_mono [of "{..<fresh db}" "set (L l)"] distinct_card [OF db_rep_distinct [OF assms, of l]] by simp
  then show ?thesis using db_repD(1) [OF assms Some] walk_seg [of db l None "L l" "fresh db"] Some
    by (auto simp: list_nodes_def list_ok_def)
qed

definition recs :: "('k, 'p) rec_db \<Rightarrow> (rlist \<Rightarrow> rref list) \<Rightarrow> rlist \<Rightarrow> (rref \<times> 'p) list" where
  "recs db L l = map (\<lambda>r. (r, payload_at db r)) (filter (live db) (L l))"

lemma records_of_rep:
  "db_rep db L \<Longrightarrow> records_of db k = (case map_of (table db) k of None \<Rightarrow> [] | Some l \<Rightarrow> recs db L l)"
  by (simp add: records_of_def recs_def list_nodes_rep split: option.split)

lemma recs_cong:
  assumes "\<And>y. y \<in> set (L' m) \<Longrightarrow> payload_at db' y = payload_at db y" "filter (live db') (L' m) = filter P (filter (live db) (L m))"
  shows "recs db' L' m = filter (\<lambda>(y, p). P y) (recs db L m)"
proof -
  have "recs db' L' m = map (\<lambda>r. (r, payload_at db r)) (filter (live db') (L' m))"
    unfolding recs_def using assms(1) by (intro map_cong) auto
  then show ?thesis by (simp add: assms(2) recs_def filter_map o_def)
qed


section \<open>Steps of the system\<close>

lemma own_link:
  assumes "db_rep db L" "state_ok db L st"
  shows "own (L(l := link_at z (fresh db) (L l))) st m = own L st m"
proof (cases "cur st")
  case (Some x)
  then have "x \<noteq> fresh db" using assms(2) fresh_unused(2) [OF assms(1)] by (auto simp: state_ok_def)
  then show ?thesis using Some by (auto simp: own_def)
qed (simp add: own_def)

lemma holds_link:
  assumes "db_rep db L" "\<And>st. st \<in> set S \<Longrightarrow> state_ok db L st"
  shows "holds (L(l := link_at z (fresh db) (L l))) S = holds L S"
  using own_link [OF assms(1,2)]
  by (auto simp: holds_def fun_eq_iff simp del: fun_upd_apply intro!: arg_cong [of _ _ sum_list] map_cong)

lemma record_sys:
  assumes ok: "sys_ok db S L" and ref: "ref = NoRef \<or> ref = RefVar True"
  shows "\<exists>db' L'. record_db z (Some k) (Some p) ref db = Some (RecTrue, db') \<and> sys_ok db' S L' \<and>
    records_of db' = (records_of db)(k := if z then (fresh db, p) # records_of db k else records_of db k @ [(fresh db, p)])"
proof -
  have c: "counted db L (holds L S)" and S: "\<And>st. st \<in> set S \<Longrightarrow> state_ok db L st" using ok by (auto simp: sys_ok_def)
  note rep = countedD(1) [OF c]
  let ?r = "fresh db"
  obtain db' l where r: "record_db z (Some k) (Some p) ref db = Some (RecTrue, db')"
    "db_rep db' (L(l := link_at z ?r (L l)))" "map_of (table db') k = Some l"
    "\<And>m. map_of (table db) k = Some m \<Longrightarrow> m = l" "map_of (table db) k = None \<Longrightarrow> L l = []"
    "\<And>k'. k' \<noteq> k \<Longrightarrow> map_of (table db') k' = map_of (table db) k'"
    "\<And>y. erased_at db' y = erased_at db y" "\<And>y. payload_at db' y = (if y = ?r then p else payload_at db y)"
    "\<And>m. list_attr db' m = (if m = l \<and> rlists db l = None then Some (k, False, 0) else list_attr db m)"
    using record_db_rep [OF rep ref, of z k p] by - (elim exE conjE, rule that, (assumption | blast)+)
  let ?L = "L(l := link_at z ?r (L l))"
  have new: "\<not> erased_at db ?r" using fresh_unused(1) [OF rep] by (simp add: erased_at_def cell_at_def)
  have attr: "references R' = int (holds L S m) \<and> ((\<exists>x\<in>set (?L m). erased_at db' x) \<longrightarrow> dirty R' \<and> 0 < holds L S m)"
    if R': "rlists db' m = Some R'" for m R'
  proof (cases "m = l \<and> rlists db l = None")
    case True
    then have Ll: "L l = []" by (intro db_repD(3) [OF rep]) simp
    then have "holds L S l = 0" by (induction S) (simp_all add: own_def split: option.split)
    then show ?thesis using r(9) [of m] R' True Ll r(7) new by (simp add: list_attr_def)
  next
    case False
    then have "list_attr db' m = list_attr db m" using r(9) [of m] by auto
    then obtain R where R: "rlists db m = Some R" "references R' = references R" "dirty R' = dirty R"
      using R' by (cases "rlists db m") (auto simp: list_attr_def)
    have "dirty R' \<and> 0 < holds L S m" if ex: "\<exists>x\<in>set (?L m). erased_at db' x"
    proof -
      obtain x where "x \<in> set (L m)" "erased_at db x" using ex r(7) new by (cases "m = l") auto
      then show ?thesis using countedD(3) [OF c R(1)] R(3) by simp
    qed
    then show ?thesis using R(2) countedD(2) [OF c R(1)] by simp
  qed
  have dom: "rlists db' m \<noteq> None" if "rlists db m \<noteq> None" for m
    using r(9) [of m] that by (auto simp: list_attr_def split: if_splits)
  have "state_ok db' ?L st" if "st \<in> set S" for st
    using S [OF that] dom by (fastforce simp: state_ok_def)
  then have "sys_ok db' S ?L"
    using attr r(2) holds_link [OF rep S] by (simp add: sys_ok_def counted_def del: fun_upd_apply)
  moreover have "records_of db' = (records_of db)(k := if z then (?r, p) # records_of db k else records_of db k @ [(?r, p)])"
  proof
    fix k'
    have rec: "recs db' ?L m = (if m = l then (if z then (?r, p) # recs db L l else recs db L l @ [(?r, p)]) else recs db L m)" for m
    proof -
      have pay: "map (\<lambda>y. (y, payload_at db' y)) (filter (live db) (L m)) = map (\<lambda>y. (y, payload_at db y)) (filter (live db) (L m))" for m
        using fresh_unused(2) [OF rep, of m] r(8) by (intro map_cong) auto
      have "payload_at db' ?r = p" by (simp add: r(8))
      then show ?thesis using new pay [of m] by (simp add: recs_def link_at_def r(7))
    qed
    show "records_of db' k' = ((records_of db)(k := if z then (?r, p) # records_of db k else records_of db k @ [(?r, p)])) k'"
    proof (cases "k' = k")
      case True
      have "records_of db k = recs db L l"
        using r(4,5) records_of_rep [OF rep, of k] by (cases "map_of (table db) k") (auto simp: recs_def)
      then show ?thesis using True r(3) records_of_rep [OF r(2), of k] rec [of l] by simp
    next
      case False
      have "m \<noteq> l" if "map_of (table db') k' = Some m" for m
        using db_repD(6) [OF r(2) that] db_repD(6) [OF r(2,3)] False by auto
      then show ?thesis using False r(6) [OF False] records_of_rep [OF r(2), of k'] records_of_rep [OF rep, of k'] rec
        by (auto split: option.split)
    qed
  qed
  ultimately show ?thesis using r(1) by blast
qed

lemma erase_sys:
  assumes ok: "sys_ok db S L" and r: "r \<in> set (blobs db)"
  shows "\<exists>res db' L'. erase r hook db = Some (res, db') \<and> sys_ok db' S L' \<and>
    (\<forall>k. records_of db' k = filter (\<lambda>(x, p). x \<noteq> r) (records_of db k))"
proof -
  have c: "counted db L (holds L S)" and S: "\<And>st. st \<in> set S \<Longrightarrow> state_ok db L st" using ok by (auto simp: sys_ok_def)
  obtain res db' L' where e: "erase r hook db = Some (res, db')" "counted db' L' (holds L S)" "only_list L (holds L S) L'"
    "erased_view db L r db' L'" using erase_counted [OF c r] by blast
  have dom: "\<And>l. rlists db l \<noteq> None \<Longrightarrow> rlists db' l \<noteq> None" using e(4) by (simp add: erased_view_def)
  note keep = keep_others [OF e(3) S, of db']
  have "sys_ok db' S L'" using e(2) keep dom by (simp add: sys_ok_def)
  moreover have "records_of db' k = filter (\<lambda>(x, p). x \<noteq> r) (records_of db k)" for k
  proof -
    have "recs db' L' m = filter (\<lambda>(x, p). x \<noteq> r) (recs db L m)" for m
      using recs_cong [of L' m db' db "\<lambda>x. x \<noteq> r" L] e(4) by (simp add: erased_view_def)
    then show ?thesis
      using records_of_rep [OF countedD(1) [OF c], of k] records_of_rep [OF countedD(1) [OF e(2)], of k] e(4)
      by (simp add: erased_view_def split: option.split)
  qed
  ultimately show ?thesis using e(1) by blast
qed

lemma release_sys:
  assumes ok: "sys_ok db S L" and r: "r \<in> set (blobs db)" "\<not> erased_at db r"
  shows "\<exists>db'. release_record r db = Some db' \<and> sys_ok db' S L \<and> same_view db L db' L"
proof -
  have c: "counted db L (holds L S)" and S: "\<And>st. st \<in> set S \<Longrightarrow> state_ok db L st" using ok by (auto simp: sys_ok_def)
  obtain db' where e: "release_record r db = Some db'" "counted db' L (holds L S)" "same_view db L db' L"
    using release_record_counted [OF c r] by blast
  have "\<And>l. rlists db l \<noteq> None \<Longrightarrow> rlists db' l \<noteq> None" using same_view_dom [OF e(3)] by simp
  then have "sys_ok db' S L" using keep_others(2) [of L S L db db'] e(2) S by (simp add: sys_ok_def)
  then show ?thesis using e by blast
qed

lemma rec_step_sys:
  assumes "rec_step s s'" "sys_ok (fst s) (snd s) L"
  shows "\<exists>L'. sys_ok (fst s') (snd s') L'"
  using assms
proof (cases rule: rec_step.cases)
  case (Record ref z key copy db res db' S)
  then have "db' = db \<or> (\<exists>k p. key = Some k \<and> copy = Some p \<and> (ref = NoRef \<or> ref = RefVar True))"
    by (cases key; cases copy; cases ref) (auto simp: record_db_def)
  then show ?thesis
  proof (elim disjE exE conjE)
    assume "db' = db"
    then show ?thesis using assms(2) Record by auto
  next
    fix k p assume "key = Some k" "copy = Some p" "ref = NoRef" 
    then show ?thesis using record_sys [of db S L ref z k p] assms(2) Record by auto
  next
    fix k p assume "key = Some k" "copy = Some p" "ref = RefVar True" 
    then show ?thesis using record_sys [of db S L ref z k p] assms(2) Record by auto
  qed
next
  case (First g key db res db' S)
  then show ?thesis using recorded_first_sys [of db S L g key] assms(2) by auto
next
  case (Redo g st db res db' S1 S2)
  then show ?thesis using recorded_redo_sys [of db S1 st S2 L g] assms(2) by auto
next
  case (Cut st db db' S1 S2)
  then show ?thesis using recorded_cut_sys [of db S1 st S2 L] assms(2) by auto
next
  case (Erase r db hook res db' S)
  then show ?thesis using erase_sys [of db S L r hook] assms(2) by auto
next
  case (Release r db db' S)
  then show ?thesis using release_sys [of db S L r] assms(2) by auto
qed

lemma rec_reachable_sys: "rec_reachable s \<Longrightarrow> \<exists>L. sys_ok (fst s) (snd s) L"
proof (induction rule: rec_reachable.induct)
  case init
  have "sys_ok initRecords [] (\<lambda>_. [])"
    by (simp add: sys_ok_def counted_def initRecords_rep) (simp add: initRecords_def)
  then show ?case by auto
next
  case (step s s')
  then show ?case using rec_step_sys by blast
qed

section \<open>Counting answers\<close>







section \<open>Properties\<close>

text \<open>A database with one record of key 7, to which a symbol refers.\<close>

definition sample_db :: "(nat, nat) rec_db" where
  "sample_db = snd (the (record_db False (Some 7) (Some 10) (RefVar True) initRecords))"

lemma sample_sys: "\<exists>L. sys_ok initRecords [] L"
  using rec_reachable_sys [OF rec_reachable.init] by auto

lemma sample_db_step:
  "record_db False (Some 7) (Some 10) (RefVar True) initRecords = Some (RecTrue, sample_db)"
  "records_of sample_db 7 = [(0, 10)]"
proof -
  obtain L where "sys_ok (initRecords :: (nat, nat) rec_db) [] L" using sample_sys by blast
  from record_sys [OF this, of "RefVar True" False 7 10]
  show "record_db False (Some 7) (Some 10) (RefVar True) initRecords = Some (RecTrue, sample_db)"
    "records_of sample_db 7 = [(0, 10)]"
    by (auto simp: sample_db_def) (simp_all add: records_of_def initRecords_def)
qed

lemma sample_reachable: "rec_reachable (sample_db, [])"
  by (rule rec_reachable.step [OF rec_reachable.init rec_step.Record [OF _ sample_db_step(1)]]) simp


lemma holds_count:
  "holds L S l = length (filter (\<lambda>st. \<exists>x. cur st = Some x \<and> x \<in> set (L l)) S)"
  by (induction S) (auto simp: own_def split: option.split)

text \<open>C6: in every reachable state each list is a well-formed doubly linked list of distinct records
  with the ends that its header names, its counter is the number of open enumerations that stand in
  it, a list without a reference holds no erased record, and every open enumeration stands on a record
  of a list.\<close>

theorem recdb_invariant:
  assumes "rec_reachable (db, S)"
  shows "(\<forall>l R. rlists db l = Some R \<longrightarrow>
      list_ok db l R (list_nodes db l) \<and>
      references R = int (length (filter (\<lambda>st. \<exists>x. cur st = Some x \<and> x \<in> set (list_nodes db l)) S)) \<and>
      (references R = 0 \<longrightarrow> (\<forall>x\<in>set (list_nodes db l). \<not> erased_at db x))) \<and>
    (\<forall>st\<in>set S. \<forall>x. cur st = Some x \<longrightarrow> (\<exists>n c. rec_at db x = Some (n, c) \<and> x \<in> set (list_nodes db (in_list n))))"
proof -
  obtain L where L: "sys_ok db S L" using rec_reachable_sys [OF assms] by auto
  then have c: "counted db L (holds L S)" and S: "\<And>st. st \<in> set S \<Longrightarrow> state_ok db L st" by (auto simp: sys_ok_def)
  note rep = countedD(1) [OF c]
  have "\<exists>n c. rec_at db x = Some (n, c) \<and> x \<in> set (L (in_list n))" if st: "st \<in> set S" "cur st = Some x" for st x
  proof -
    obtain l where "x \<in> set (L l)" using S [OF st(1)] st(2) by (auto simp: state_ok_def)
    then show ?thesis using db_rep_in [OF rep, of x l] by auto
  qed
  then show ?thesis
    using db_repD(1) [OF rep] countedD(2,3) [OF c] by (auto simp: list_nodes_rep [OF rep] holds_count)
qed

theorem recdb_invariant_witness:
  "\<exists>R. rlists sample_db 1 = Some R \<and> list_ok sample_db 1 R (list_nodes sample_db 1) \<and> references R = 0"
proof -
  have "rlists sample_db 1 \<noteq> None" by code_simp
  then obtain R where "rlists sample_db 1 = Some R" by blast
  then show ?thesis using recdb_invariant [OF sample_reachable] by auto
qed







section \<open>What goes wrong\<close>

text \<open>
  Two records under one key; an enumeration has answered with the first one and stands on the second
  one, which is then erased.
\<close>

definition any_goal :: "(nat \<Rightarrow> bool) \<Rightarrow> (nat, nat) goal" where
  "any_goal P = \<lparr>copies = (\<lambda>_. True), unifies = P, wants_ref = False, ref_unifies = (\<lambda>_. True),
     raises = (\<lambda>_. False), key_unifies = (\<lambda>_. True)\<rparr>"

definition two_records :: "(nat, nat) rec_db" where
  "two_records = snd (the (record_db False (Some 7) (Some 11) (RefVar True) sample_db))"

definition enumerating :: "(recorded_result \<times> (nat, nat) rec_db) option" where
  "enumerating = recorded_first (any_goal (\<lambda>_. True)) (KeyIs 7) two_records"

lemma enumerating_state: "map_option fst enumerating = Some (Retry \<lparr>enum = None, cur = Some 2\<rparr>)"
  by code_simp

definition erased_db :: "(nat, nat) rec_db" where
  "erased_db = snd (the (erase 2 True (snd (the enumerating))))"

text \<open>The enumeration answers with the erased record.\<close>

lemma erased_record_returned:
  "records_of erased_db 7 = [(0, 10)]"
  "map_option fst (recorded_redo (any_goal (\<lambda>p. p = 11)) \<lparr>enum = None, cur = Some 2\<rparr> erased_db) = Some Succeed"
  by code_simp+

text \<open>When the reference to it has been reclaimed, advancing frees the record and then reads its link.\<close>

lemma advance_reads_freed:
  "Option.bind (release_record 2 erased_db) (recorded_redo (any_goal (\<lambda>p. p = 10)) \<lparr>enum = None, cur = Some 2\<rparr>) = None"
  by code_simp

text \<open>A reference that does not unify leaves a symbol that refers to freed memory.\<close>

lemma failed_reference_dangles:
  "map_option (\<lambda>(res, db). (res, blobs db, refs db 0 = None, release_record 0 db = None))
     (record_db False (Some 7) (Some 10) (RefVar False) (initRecords :: (nat, nat) rec_db)) =
   Some (RecFalse, [0], True, True)"
  by code_simp

end
