(* ===== verification/PL_Rolog.thy ===== *)
theory PL_Rolog
  imports PL_Prelude
begin

text \<open>
  The bridge between R and Prolog (rolog\_query.cpp): the translation of R calls to Prolog terms and of
  answers back to R. C++ exceptions, and reads outside of a vector, are \<^const>\<open>None\<close>. Text is eight bits
  wide, as the code passes it.
\<close>

section \<open>Data\<close>

text \<open>
  R objects by their type; an argument of a call has an optional name. Doubles are their bits.
\<close>

datatype sexp =
    NILSXP
  | SYMSXP string
  | LANGSXP sexp "(string option \<times> sexp) list"
  | LGLSXP "int list"
  | INTSXP "cint list"
  | REALSXP "int64 list"
  | STRSXP "string list"
  | VECSXP "sexp list"

text \<open>Prolog terms: the empty list is a reserved symbol of its own.\<close>

datatype pterm =
    PVar
  | PInt int
  | PFloat int64
  | PString string
  | PAtom string
  | PNil
  | PCompound string "pterm list"

definition dot :: string where "dot = ''[|]''"

definition is_dot :: "string \<Rightarrow> pterm list \<Rightarrow> bool" where
  "is_dot f ts \<longleftrightarrow> f = dot \<and> length ts = 2"

definition is_eq :: "pterm \<Rightarrow> bool" where
  "is_eq t = (case t of PCompound f ts \<Rightarrow> f = ''='' \<and> length ts = 2 | _ \<Rightarrow> False)"

text \<open>
  What Rcpp does with other objects than symbols where a symbol is needed, and with wide characters
  in a string vector; the bits of the double -1.
\<close>

record r_env =
  other_symbol :: "sexp \<Rightarrow> string option"
  from_wide :: "string \<Rightarrow> string"
  minus_one :: int64

definition as_Symbol :: "r_env \<Rightarrow> sexp \<Rightarrow> string option" where
  "as_Symbol E s = (case s of SYMSXP n \<Rightarrow> Some n | _ \<Rightarrow> other_symbol E s)"

section \<open>From R to Prolog\<close>

definition leaf_na :: pterm where "leaf_na = PInt (- 1)"

fun pl_list :: "pterm list \<Rightarrow> pterm" where
  "pl_list [] = PNil"
| "pl_list (t # ts) = PCompound dot [t, pl_list ts]"

definition r2pl_real :: "int64 list \<Rightarrow> pterm" where
  "r2pl_real v = (case v of [d] \<Rightarrow> PFloat d | _ \<Rightarrow> pl_list (map PFloat v))"

definition leaf_int :: "cint list \<Rightarrow> pterm option" where
  "leaf_int l = (case l of [] \<Rightarrow> None | i # _ \<Rightarrow> Some (PInt (sint i)))"

definition leaf_logical :: "int list \<Rightarrow> pterm option" where
  "leaf_logical l = (case l of
     [] \<Rightarrow> None
   | b # _ \<Rightarrow> Some (if b = 1 then PAtom ''TRUE'' else if b = 0 then PAtom ''FALSE'' else leaf_na))"

definition r2pl_string :: "string list \<Rightarrow> pterm" where
  "r2pl_string l = (case l of [s] \<Rightarrow> PString s | _ \<Rightarrow> pl_list (map PString l))"

text \<open>A compound without arguments is an atom (\<^theory_text>\<open>PL_cons_functor_v\<close>).\<close>

definition PlCompound :: "string \<Rightarrow> pterm list \<Rightarrow> pterm" where
  "PlCompound f ts = (if ts = [] then PAtom f else PCompound f ts)"

text \<open>\<^theory_text>\<open>leaf\<close> with \<^theory_text>\<open>leaf_lang\<close> and its loop over the arguments.\<close>

fun leaf :: "r_env \<Rightarrow> sexp \<Rightarrow> pterm option" and
    leaf_args :: "r_env \<Rightarrow> (string option \<times> sexp) list \<Rightarrow> pterm list option" where
  "leaf E (LANGSXP f args) =
     (case leaf_args E args of
        None \<Rightarrow> None
      | Some v \<Rightarrow> (case as_Symbol E f of None \<Rightarrow> None | Some pred \<Rightarrow> Some (PlCompound pred v)))"
| "leaf E (REALSXP v) = Some (r2pl_real v)"
| "leaf E (LGLSXP v) = leaf_logical v"
| "leaf E (INTSXP v) = leaf_int v"
| "leaf E (SYMSXP n) = Some (PAtom n)"
| "leaf E (STRSXP v) = Some (r2pl_string v)"
| "leaf E NILSXP = Some leaf_na"
| "leaf E (VECSXP _) = Some leaf_na"
| "leaf_args E [] = Some []"
| "leaf_args E ((argname, s) # args) =
     (case leaf E s of
        None \<Rightarrow> None
      | Some t \<Rightarrow>
          (case leaf_args E args of
             None \<Rightarrow> None
           | Some ts \<Rightarrow> Some ((case argname of None \<Rightarrow> t | Some n \<Rightarrow> PCompound ''='' [PAtom n, t]) # ts)))"

section \<open>From Prolog to R\<close>

text \<open>\<^theory_text>\<open>PlTerm::name\<close>: of compounds and atoms.\<close>

definition term_name :: "pterm \<Rightarrow> string option" where
  "term_name t = (case t of PCompound f _ \<Rightarrow> Some f | PAtom a \<Rightarrow> Some a | _ \<Rightarrow> None)"

definition pl2r_int :: "int \<Rightarrow> sexp option" where
  "pl2r_int n = (if - (2 ^ 31) \<le> n \<and> n < 2 ^ 31 then Some (INTSXP [word_of_int n]) else None)"

definition leaf_symbol :: "string \<Rightarrow> sexp" where
  "leaf_symbol s = (if s = ''TRUE'' then LGLSXP [1] else if s = ''FALSE'' then LGLSXP [0] else SYMSXP s)"

text \<open>
  \<^theory_text>\<open>pl2r_leaf\<close> with the loops of \<^theory_text>\<open>pl2r_list\<close>, on a list cell or the rest of a list, and
  \<^theory_text>\<open>pl2r_lang\<close>, on the arguments.
\<close>

fun pl2r_leaf :: "r_env \<Rightarrow> pterm \<Rightarrow> sexp option" and
    pl2r_list :: "r_env \<Rightarrow> pterm \<Rightarrow> sexp list option" and
    pl2r_args :: "r_env \<Rightarrow> pterm list \<Rightarrow> (string option \<times> sexp) list option" where
  "pl2r_leaf E (PInt n) = pl2r_int n"
| "pl2r_leaf E (PFloat d) = Some (REALSXP [d])"
| "pl2r_leaf E (PString s) = Some (STRSXP [from_wide E s])"
| "pl2r_leaf E (PAtom a) = Some (leaf_symbol a)"
| "pl2r_leaf E PNil = Some (VECSXP [])"
| "pl2r_leaf E (PCompound f ts) =
     (if is_dot f ts then map_option VECSXP (pl2r_list E (PCompound f ts))
      else map_option (LANGSXP (SYMSXP f)) (pl2r_args E ts))"
| "pl2r_leaf E PVar = Some (REALSXP [minus_one E])"
| "pl2r_list E (PCompound f [t, tail]) =
     (if f = dot then
        (case pl2r_leaf E t of
           None \<Rightarrow> None
         | Some s \<Rightarrow> map_option (\<lambda>ss. s # ss) (pl2r_list E tail))
      else None)"
| "pl2r_list E PNil = Some []"
| "pl2r_list E _ = None"
| "pl2r_args E [] = Some []"
| "pl2r_args E (t # ts) =
     (case (if is_eq t then
              (case t of PCompound _ [u, v] \<Rightarrow>
                 (case term_name u of
                    None \<Rightarrow> None
                  | Some n \<Rightarrow> map_option (\<lambda>s. (Some n, s)) (pl2r_leaf E v))
               | _ \<Rightarrow> None)
            else map_option (\<lambda>s. (None, s)) (pl2r_leaf E t)) of
        None \<Rightarrow> None
      | Some a \<Rightarrow> map_option (\<lambda>as. a # as) (pl2r_args E ts))"



section \<open>What survives the bridge\<close>






text \<open>Vectors of other lengths come back as lists.\<close>

lemma pl2r_pl_list:
  assumes "\<And>x. pl2r_leaf E (k x) = Some (g x)"
  shows "pl2r_leaf E (pl_list (map k xs)) = Some (VECSXP (map g xs))"
proof -
  have "pl2r_list E (pl_list (map k xs)) = Some (map g xs)" using assms by (induction xs) (simp_all add: dot_def)
  then show ?thesis by (cases xs) (simp_all add: is_dot_def)
qed

lemma vectors_become_lists:
  "length v \<noteq> 1 \<Longrightarrow> pl2r_leaf E (r2pl_real v) = Some (VECSXP (map (\<lambda>d. REALSXP [d]) v))"
  "length w \<noteq> 1 \<Longrightarrow> pl2r_leaf E (r2pl_string w) = Some (VECSXP (map (\<lambda>s. STRSXP [from_wide E s]) w))"
proof -
  have "pl2r_leaf E (pl_list (map PFloat v)) = Some (VECSXP (map (\<lambda>d. REALSXP [d]) v))"
    by (rule pl2r_pl_list) simp
  then show "length v \<noteq> 1 \<Longrightarrow> pl2r_leaf E (r2pl_real v) = Some (VECSXP (map (\<lambda>d. REALSXP [d]) v))"
    by (cases v rule: remdups_adj.cases) (simp_all add: r2pl_real_def)
  have "pl2r_leaf E (pl_list (map PString w)) = Some (VECSXP (map (\<lambda>s. STRSXP [from_wide E s]) w))"
    by (rule pl2r_pl_list) simp
  then show "length w \<noteq> 1 \<Longrightarrow> pl2r_leaf E (r2pl_string w) = Some (VECSXP (map (\<lambda>s. STRSXP [from_wide E s]) w))"
    by (cases w rule: remdups_adj.cases) (simp_all add: r2pl_string_def)
qed

text \<open>What is lost: empty calls, further elements of integer vectors, \<^theory_text>\<open>NULL\<close>, large integers.\<close>

lemma empty_call_is_symbol: "leaf E (LANGSXP (SYMSXP f) []) = leaf E (SYMSXP f)"
  by (simp add: as_Symbol_def PlCompound_def)

lemma integer_vector_head: "leaf E (INTSXP (i # is)) = leaf E (INTSXP [i])"
  by (simp add: leaf_int_def)

lemma null_is_number: "leaf E NILSXP = leaf E (INTSXP [- 1])"
  by (simp add: leaf_na_def leaf_int_def)

lemma large_integer_raises: "2 ^ 31 \<le> n \<Longrightarrow> pl2r_leaf E (PInt n) = None"
  by (simp add: pl2r_int_def)

lemma name_of_compound: "pl2r_args E [PCompound ''='' [PCompound f ts, PNil]] = Some [(Some f, VECSXP [])]"
  by (simp add: is_eq_def term_name_def)



end
