(* ===== verification/PL_Glob.thy ===== *)
theory PL_Glob
  imports PL_Prelude
begin

text \<open>
  Wildcard patterns (os/pl-glob.c): the compiler to match codes and the matcher that interprets them.
  A string is the list of its bytes, without the terminator. Reads and writes outside of a string, a
  bit map or the code are \<^const>\<open>None\<close>.
\<close>

section \<open>Match codes\<close>

type_synonym matchcode = byte

definition ANY :: matchcode where "ANY = 128"
definition STAR :: matchcode where "STAR = 129"
definition ALT :: matchcode where "ALT = 130"
definition JMP :: matchcode where "JMP = 131"
definition ANYOF :: matchcode where "ANYOF = 132"
definition EXIT :: matchcode where "EXIT = 133"

definition MAXCODE :: nat where "MAXCODE = 1024"


text \<open>The flag for case-sensitive file names and the C library's conversion to lower case.\<close>

record glob_env =
  file_case :: bool
  makeLower :: "byte \<Rightarrow> byte"

definition fold_case :: "glob_env \<Rightarrow> byte \<Rightarrow> byte" where
  "fold_case E c = (if file_case E then c else makeLower E c)"

datatype glob_error = TooLarge | TooLong | UnmatchedBracket | UnmatchedBrace | ReservedCharacter

section \<open>Compiling\<close>

definition Output :: "matchcode list \<Rightarrow> matchcode \<Rightarrow> glob_error + matchcode list" where
  "Output out c = (if MAXCODE - 1 < length out then Inl TooLarge else Inr (out @ [c]))"

text \<open>\<^theory_text>\<open>setMap\<close>, for a character as the \<^theory_text>\<open>int\<close> of a signed \<^theory_text>\<open>char\<close>: the map has 128 bits.\<close>

definition setMap :: "glob_env \<Rightarrow> matchcode list \<Rightarrow> int \<Rightarrow> matchcode list option" where
  "setMap E m c =
     (let c = (if file_case E then c else uint (makeLower E (word_of_int c))) in
      if 0 \<le> c \<and> c < 128
      then Some (m[nat c div 8 := m ! (nat c div 8) OR push_bit (nat c mod 8) 1])
      else None)"

fun setMaps :: "glob_env \<Rightarrow> matchcode list \<Rightarrow> int list \<Rightarrow> matchcode list option" where
  "setMaps E m [] = Some m"
| "setMaps E m (c # cs) = (case setMap E m c of None \<Rightarrow> None | Some m \<Rightarrow> setMaps E m cs)"

text \<open>The loop over the characters between brackets; the end of the string goes unnoticed.\<close>

fun compile_set :: "glob_env \<Rightarrow> matchcode list \<Rightarrow> byte list \<Rightarrow> (glob_error + matchcode list \<times> byte list) option" where
  "compile_set E m [] = None"
| "compile_set E m (c # p) =
     (if c = 92 then
        (case p of
           [] \<Rightarrow> Some (Inl UnmatchedBracket)
         | x # p \<Rightarrow> (case setMap E m (sint x) of None \<Rightarrow> None | Some m \<Rightarrow> compile_set E m p))
      else if c = 93 then Some (Inr (m, p))
      else
        (case p of
           x # y # p' \<Rightarrow>
             if x = 45 \<and> y \<noteq> 93 then
               (case setMaps E m [sint c..sint y] of None \<Rightarrow> None | Some m \<Rightarrow> compile_set E m p')
             else (case setMap E m (sint c) of None \<Rightarrow> None | Some m \<Rightarrow> compile_set E m p)
         | [x] \<Rightarrow>
             if x = 45 then None
             else (case setMap E m (sint c) of None \<Rightarrow> None | Some m \<Rightarrow> compile_set E m p)
         | [] \<Rightarrow> None))"

text \<open>
  \<^theory_text>\<open>compile_pattern\<close> and its loop over the alternatives between braces; the code is a list whose
  offsets are filled in later. The second result is the pattern that is left, \<^const>\<open>None\<close> when the
  terminator has been passed.
\<close>

type_synonym compiled = "(glob_error + matchcode list \<times> byte list option) option"

definition emitting :: "glob_error + matchcode list \<Rightarrow> (matchcode list \<Rightarrow> compiled) \<Rightarrow> compiled" where
  "emitting r f = (case r of Inl e \<Rightarrow> Some (Inl e) | Inr out \<Rightarrow> f out)"

fun compile_pattern :: "nat \<Rightarrow> glob_env \<Rightarrow> matchcode list \<Rightarrow> byte list \<Rightarrow> bool \<Rightarrow> compiled" and
    compile_alts :: "nat \<Rightarrow> glob_env \<Rightarrow> matchcode list \<Rightarrow> byte list \<Rightarrow> nat option \<Rightarrow> compiled" where
  "compile_pattern 0 E out p curl = None"
| "compile_pattern (Suc fuel) E out [] curl = emitting (Output out EXIT) (\<lambda>out. Some (Inr (out, None)))"
| "compile_pattern (Suc fuel) E out (c # p) curl =
     (if c = 92 then
        (case p of
           [] \<Rightarrow> emitting (Output out 92) (\<lambda>out. emitting (Output out EXIT) (\<lambda>out. Some (Inr (out, Some []))))
         | x # p \<Rightarrow> emitting (Output out (x AND 0x7f)) (\<lambda>out. compile_pattern fuel E out p curl))
      else if c = 63 then emitting (Output out ANY) (\<lambda>out. compile_pattern fuel E out p curl)
      else if c = 42 then emitting (Output out STAR) (\<lambda>out. compile_pattern fuel E out p curl)
      else if c = 91 then
        emitting (Output out ANYOF) (\<lambda>out.
          if MAXCODE \<le> length out + 16 then Some (Inl TooLong)
          else (case compile_set E (replicate 16 0) p of
                  None \<Rightarrow> None
                | Some (Inl e) \<Rightarrow> Some (Inl e)
                | Some (Inr (m, p)) \<Rightarrow> compile_pattern fuel E (out @ m) p curl))
      else if c = 123 then
        (case compile_alts fuel E out p None of
           None \<Rightarrow> None
         | Some (Inl e) \<Rightarrow> Some (Inl e)
         | Some (Inr (out, None)) \<Rightarrow> None
         | Some (Inr (out, Some p)) \<Rightarrow> compile_pattern fuel E out p curl)
      else if c \<in> {ANY, STAR, ALT, JMP, ANYOF, EXIT} then Some (Inl ReservedCharacter)
      else if (c = 125 \<or> c = 44) \<and> curl then Some (Inr (out, Some (c # p)))
      else emitting (Output out (fold_case E c)) (\<lambda>out. compile_pattern fuel E out p curl))"
| "compile_alts 0 E out p aj = None"
| "compile_alts (Suc fuel) E out p aj =
     emitting (Output out ALT) (\<lambda>out. let ai = length out in
     emitting (Output out 0) (\<lambda>out.
       case compile_pattern fuel E out p True of
         None \<Rightarrow> None
       | Some (Inl e) \<Rightarrow> Some (Inl e)
       | Some (Inr (out, p)) \<Rightarrow>
           let out = (case aj of None \<Rightarrow> out | Some aj \<Rightarrow> out[aj := word_of_nat (length out - aj)]) in
           (case p of
              None \<Rightarrow> None
            | Some [] \<Rightarrow> Some (Inl UnmatchedBrace)
            | Some (c # p) \<Rightarrow>
                if c = 44 then
                  emitting (Output out JMP) (\<lambda>out. let aj = length out in
                  emitting (Output out 0) (\<lambda>out.
                  emitting (Output (out[ai := word_of_nat (length out - ai)]) ALT) (\<lambda>out.
                  emitting (Output out 0) (\<lambda>out. compile_alts fuel E out p (Some aj)))))
                else if c = 125 then Some (Inr (out, Some p))
                else Some (Inl UnmatchedBrace))))"

text \<open>Enough fuel for every call, of which each second one consumes a character.\<close>

definition compilePattern :: "glob_env \<Rightarrow> byte list \<Rightarrow> (glob_error + matchcode list) option" where
  "compilePattern E p = map_option (map_sum id fst) (compile_pattern (2 * length p + 2) E [] p False)"

section \<open>Matching\<close>

function match_pattern :: "glob_env \<Rightarrow> matchcode list \<Rightarrow> nat \<Rightarrow> byte list \<Rightarrow> bool option" where
  "match_pattern E code pc s =
     (if pc < length code then
        let c = code ! pc; p = Suc pc in
        if c = EXIT then Some (s = [])
        else if c = ANY then (case s of [] \<Rightarrow> Some False | _ # s \<Rightarrow> match_pattern E code p s)
        else if c = ANYOF then
          (let c2 = (case s of [] \<Rightarrow> 0 | x # _ \<Rightarrow> x); c2 = fold_case E c2; at = p + unat c2 div 8 in
           if at < length code then
             (if bit (code ! at) (unat c2 mod 8) then
                (case s of [] \<Rightarrow> None | _ # s \<Rightarrow> match_pattern E code (p + 16) s)
              else Some False)
           else None)
        else if c = STAR then
          (case match_pattern E code p s of
             Some False \<Rightarrow> (case s of [] \<Rightarrow> Some False | _ # s \<Rightarrow> match_pattern E code pc s)
           | r \<Rightarrow> r)
        else if c = JMP then
          (if p < length code then match_pattern E code (p + unat (code ! p)) s else None)
        else if c = ALT then
          (if p < length code then
             (case match_pattern E code (Suc p) s of
                Some False \<Rightarrow> match_pattern E code (p + unat (code ! p)) s
              | r \<Rightarrow> r)
           else None)
        else
          (case s of
             [] \<Rightarrow> if c = 0 \<or> \<not> file_case E \<and> c = makeLower E 0 then None else Some False
           | x # s \<Rightarrow> if c = x \<or> \<not> file_case E \<and> c = makeLower E x then match_pattern E code p s else Some False)
      else None)"
  by auto
termination
  by (relation "measures [\<lambda>(E, code, pc, s). length code - pc, \<lambda>(E, code, pc, s). length s]")
    (auto simp: Let_def split: if_splits)

declare match_pattern.simps [simp del]

datatype glob_result = GlobMatch bool | GlobDomainError

definition wildcard_match :: "glob_env \<Rightarrow> byte list \<Rightarrow> byte list \<Rightarrow> glob_result option" where
  "wildcard_match E p s =
     (case compilePattern E p of
        None \<Rightarrow> None
      | Some (Inl _) \<Rightarrow> Some GlobDomainError
      | Some (Inr code) \<Rightarrow> map_option GlobMatch (match_pattern E code 0 s))"

definition isspecial :: "byte \<Rightarrow> bool" where
  "isspecial c \<longleftrightarrow> c = 91 \<or> c = 123 \<or> c = 63 \<or> c = 42"

fun un_escape :: "byte list \<Rightarrow> byte list" where
  "un_escape (c # d # from) =
     (if c = 92 \<and> (isspecial d \<or> d = 92) then d # un_escape from else c # un_escape (d # from))"
| "un_escape from = from"

section \<open>Patterns and their languages\<close>

datatype set_item = SOne byte | SEsc byte | SRange byte byte

datatype glob = GChar byte | GEsc byte | GAny | GStar | GSet "set_item list" | GAlt "glob list list"




text \<open>Its code.\<close>

definition members :: "set_item \<Rightarrow> byte list" where
  "members i = (case i of SOne c \<Rightarrow> [c] | SEsc c \<Rightarrow> [c]
     | SRange a b \<Rightarrow> map word_of_int [uint a..uint b])"

definition set_bit_of :: "glob_env \<Rightarrow> matchcode list \<Rightarrow> byte \<Rightarrow> matchcode list" where
  "set_bit_of E m c = (let k = unat (fold_case E c) in m[k div 8 := m ! (k div 8) OR push_bit (k mod 8) 1])"

definition gen_set :: "glob_env \<Rightarrow> set_item list \<Rightarrow> matchcode list" where
  "gen_set E is = fold (\<lambda>c m. set_bit_of E m c) (concat (map members is)) (replicate 16 0)"

fun gen :: "glob_env \<Rightarrow> glob \<Rightarrow> matchcode list" and gens :: "glob_env \<Rightarrow> glob list \<Rightarrow> matchcode list" and
    gen_alts :: "glob_env \<Rightarrow> glob list list \<Rightarrow> matchcode list" where
  "gen E (GChar c) = [fold_case E c]"
| "gen E (GEsc c) = [c]"
| "gen E GAny = [ANY]"
| "gen E GStar = [STAR]"
| "gen E (GSet is) = ANYOF # gen_set E is"
| "gen E (GAlt as) = gen_alts E as"
| "gens E [] = []"
| "gens E (g # gs) = gen E g @ gens E gs"
| "gen_alts E [] = []"
| "gen_alts E [a] = [ALT, 0] @ gens E a"
| "gen_alts E (a # b # as) = [ALT, word_of_nat (length (gens E a) + 3)] @ gens E a @
     [JMP, word_of_nat (length (gens E b) + 5), ALT, 0] @ gen_alts E (b # as)"








section \<open>The code of a pattern\<close>









lemma emit_ok [simp]: "length out \<le> 1023 \<Longrightarrow> emitting (Output out c) f = f (out @ [c])"
  by (simp add: emitting_def Output_def MAXCODE_def)









section \<open>The matcher\<close>









abbreviation mpat where "mpat \<equiv> match_pattern"






section \<open>Bit maps\<close>






section \<open>Alternatives\<close>






lemma gen_sizes: "gen_alts E (a # as) \<noteq> [] \<and> 2 + length (gens E a) \<le> length (gen_alts E (a # as))"
  by (cases as) auto










section \<open>Fuel\<close>







section \<open>Properties\<close>

text \<open>What goes wrong outside of these patterns and names.\<close>

definition sample_glob :: glob_env where
  "sample_glob = \<lparr>file_case = True, makeLower = (\<lambda>c. if 65 \<le> c \<and> c \<le> 90 then c + 32 else c)\<rparr>"

lemma last_alternative_overread: "wildcard_match sample_glob [123, 97, 125] [] = None"
  by code_simp

lemma open_bracket_overread: "compilePattern sample_glob [91, 97] = None"
  by code_simp

lemma open_brace_overread: "compilePattern sample_glob [123, 97] = None"
  by code_simp

lemma wide_set_out_of_bounds: "compilePattern sample_glob [91, 200, 93] = None"
  by code_simp





end
