(* ===== verification/PL_SkipList.thy ===== *)
theory PL_SkipList
  imports PL_Heap
begin

text \<open>
  The length of a list (\<^theory_text>\<open>skip_list\<close> and \<^theory_text>\<open>lengthList\<close> of pl-prims.c): Brent's cycle
  detection on the cells of the list, with its two counters as C integers. The functor of lists is a
  parameter.
\<close>

section \<open>Lists on the heap\<close>

definition isList :: "heap \<Rightarrow> functor_t \<Rightarrow> word \<Rightarrow> bool" where
  "isList h dot w = (case w of WTerm f \<Rightarrow> func h f = Some (Functor dot) | _ \<Rightarrow> False)"

text \<open>\<^theory_text>\<open>TailList\<close>, dereferenced.\<close>

definition TailList :: "heap \<Rightarrow> addr \<Rightarrow> addr option" where
  "TailList h l = (case cell h l of WTerm f \<Rightarrow> deRef h (argTermP f 1) | _ \<Rightarrow> None)"

partial_function (option) skip_loop :: "heap \<Rightarrow> functor_t \<Rightarrow> addr \<Rightarrow> addr \<Rightarrow> nat \<Rightarrow> cint \<Rightarrow> cint \<Rightarrow> (nat \<times> addr) option" where
  "skip_loop h dot checkCell currentCell len pow lam =
     (case TailList h currentCell of
        None \<Rightarrow> None
      | Some currentCell \<Rightarrow>
          if \<not> isList h dot (cell h currentCell) \<or> cell h checkCell = cell h currentCell
          then Some (len + 1, currentCell)
          else if pow = lam + 1
          then skip_loop h dot currentCell currentCell (len + 1) (pow * 2) 0
          else skip_loop h dot checkCell currentCell (len + 1) pow (lam + 1))"

declare skip_loop.simps [code]

definition skip_list :: "heap \<Rightarrow> functor_t \<Rightarrow> addr \<Rightarrow> (nat \<times> addr) option" where
  "skip_list h dot l =
     (case deRef h l of
        None \<Rightarrow> None
      | Some l \<Rightarrow> if \<not> isList h dot (cell h l) then Some (0, l) else skip_loop h dot l l 0 1 0)"

text \<open>\<^theory_text>\<open>lengthList\<close>, with the error it raises on demand.\<close>

datatype list_error = ListTypeError

definition lengthList :: "heap \<Rightarrow> functor_t \<Rightarrow> atom_t \<Rightarrow> addr \<Rightarrow> bool \<Rightarrow> (int \<times> list_error option) option" where
  "lengthList h dot nil list errors =
     (case skip_list h dot list of
        None \<Rightarrow> None
      | Some (len, tail) \<Rightarrow>
          if cell h tail = WAtom nil then Some (int len, None)
          else Some (if isVar (cell h tail) then -2 else -1, if errors then Some ListTypeError else None))"

section \<open>The tails of a list\<close>

fun nth_tail :: "heap \<Rightarrow> functor_t \<Rightarrow> addr \<Rightarrow> nat \<Rightarrow> addr option" where
  "nth_tail h dot l 0 = Some l"
| "nth_tail h dot l (Suc n) = (case nth_tail h dot l n of
     None \<Rightarrow> None
   | Some x \<Rightarrow> if isList h dot (cell h x) then TailList h x else None)"

text \<open>A finite set of cells that is closed under tails.\<close>

definition list_cells :: "heap \<Rightarrow> functor_t \<Rightarrow> addr set \<Rightarrow> bool" where
  "list_cells h dot S \<longleftrightarrow> finite S \<and> (\<forall>x\<in>S. isList h dot (cell h x) \<longrightarrow> (\<exists>y\<in>S. TailList h x = Some y))"

lemma nth_tail_in: "list_cells h dot S \<Longrightarrow> l \<in> S \<Longrightarrow> nth_tail h dot l n = Some x \<Longrightarrow> x \<in> S"
proof (induction n arbitrary: x)
  case (Suc n)
  then obtain y where y: "nth_tail h dot l n = Some y" "isList h dot (cell h y)" "TailList h y = Some x"
    by (auto split: option.splits if_splits)
  then have "y \<in> S" using Suc by blast
  then show ?case using Suc.prems(1) y by (fastforce simp: list_cells_def)
qed simp

lemma nth_tail_prefix: "nth_tail h dot l n \<noteq> None \<Longrightarrow> m \<le> n \<Longrightarrow> nth_tail h dot l m \<noteq> None"
  by (induction n) (auto simp: le_Suc_eq split: option.splits)

lemma nth_tail_list:
  "nth_tail h dot l n = Some x \<Longrightarrow> m < n \<Longrightarrow> nth_tail h dot l m = Some y \<Longrightarrow> isList h dot (cell h y)"
proof -
  assume a: "nth_tail h dot l n = Some x" "m < n" "nth_tail h dot l m = Some y"
  then have "nth_tail h dot l (Suc m) \<noteq> None" using nth_tail_prefix [of h dot l n "Suc m"] by simp
  then show ?thesis using a(3) by (auto split: if_splits)
qed

text \<open>Two cells with the same word have the same tails: from there on the list repeats.\<close>

lemma nth_tail_repeat:
  assumes "nth_tail h dot l a = Some x" "nth_tail h dot l b = Some y" "cell h x = cell h y"
  shows "nth_tail h dot l (a + Suc n) = nth_tail h dot l (b + Suc n)"
proof (induction n)
  case 0
  then show ?case using assms by (simp add: TailList_def)
qed simp

lemma pigeonhole_tails:
  assumes "list_cells h dot S" "l \<in> S" "nth_tail h dot l (card S) \<noteq> None"
  shows "\<exists>a b x. a < b \<and> b \<le> card S \<and> nth_tail h dot l a = Some x \<and> nth_tail h dot l b = Some x"
proof -
  let ?f = "\<lambda>n. the (nth_tail h dot l n)"
  have some: "nth_tail h dot l n = Some (?f n)" if "n \<le> card S" for n
    using nth_tail_prefix [OF assms(3) that] by auto
  have "?f ` {..card S} \<subseteq> S" using nth_tail_in [OF assms(1,2)] some by fastforce
  then have "card (?f ` {..card S}) \<le> card S" using assms(1) by (intro card_mono) (auto simp: list_cells_def)
  then have "\<not> inj_on ?f {..card S}" using card_image [of ?f "{..card S}"] by auto
  then obtain a b where ab: "a \<le> card S" "b \<le> card S" "a \<noteq> b" "?f a = ?f b" by (auto simp: inj_on_def)
  show ?thesis
  proof (cases "a < b")
    case True
    then show ?thesis using ab some [OF ab(1)] some [OF ab(2)] by metis
  next
    case False
    then have "b < a" using ab(3) by simp
    then show ?thesis using ab some [OF ab(1)] some [OF ab(2)] by metis
  qed
qed

section \<open>The detection of cycles\<close>

lemma counter_eq: "i < 2 ^ 32 \<Longrightarrow> j < 2 ^ 32 \<Longrightarrow> (word_of_nat i = (word_of_nat j :: cint)) \<longleftrightarrow> i = j"
proof
  assume ij: "i < 2 ^ 32" "j < 2 ^ 32" and eq: "word_of_nat i = (word_of_nat j :: cint)"
  have u: "unat (word_of_nat k :: cint) = k" if "k < 2 ^ 32" for k
  proof -
    have "unat (word_of_nat k :: cint) = take_bit 32 k" by (simp add: unsigned_of_nat)
    also have "\<dots> = k" by (rule take_bit_nat_eq_self [OF that])
    finally show ?thesis .
  qed
  show "i = j" using u [OF ij(1)] u [OF ij(2)] eq by metis
qed simp

text \<open>The state of the loop: the reference point, the position in the list, no match since.\<close>

definition skip_inv :: "heap \<Rightarrow> functor_t \<Rightarrow> addr \<Rightarrow> nat \<Rightarrow> addr \<Rightarrow> addr \<Rightarrow> nat \<Rightarrow> nat \<Rightarrow> nat \<Rightarrow> bool" where
  "skip_inv h dot l K check cur n k j \<longleftrightarrow> nth_tail h dot l n = Some cur \<and> isList h dot (cell h cur) \<and>
     n = 2 ^ k - 1 + j \<and> nth_tail h dot l (2 ^ k - 1) = Some check \<and> j < 2 ^ k \<and> k \<le> K \<and>
     (\<forall>i x. 0 < i \<longrightarrow> i \<le> j \<longrightarrow> nth_tail h dot l (2 ^ k - 1 + i) = Some x \<longrightarrow> cell h x \<noteq> cell h check)"

lemma nth_tail_period:
  assumes "nth_tail h dot l a = Some x" "nth_tail h dot l b = Some x" "a \<le> c" "a < b"
  shows "nth_tail h dot l (c + (b - a)) = nth_tail h dot l c"
proof -
  obtain m where m: "c = a + m" using assms(3) le_iff_add by blast
  have "nth_tail h dot l (a + m) = nth_tail h dot l (b + m)"
    using nth_tail_repeat [OF assms(1,2), of "m - 1"] assms by (cases m) simp_all
  moreover have "c + (b - a) = b + m" using m assms(4) by simp
  ultimately show ?thesis using m by (metis add.commute)
qed

text \<open>Once the reference point lies in the cycle and the distance covers it, the loop ends.\<close>

lemma skip_bound:
  assumes S: "list_cells h dot S" "l \<in> S" and K: "card S < 2 ^ K" and inv: "skip_inv h dot l K check cur n k j"
  shows "n + 1 < 2 ^ K + card S" "k = K \<Longrightarrow> j < card S"
proof -
  have N: "0 < card S" using S by (metis card_gt_0_iff empty_iff list_cells_def)
  have b: "k = K \<Longrightarrow> j < card S"
  proof (rule ccontr)
    assume k: "k = K" "\<not> j < card S"
    have "nth_tail h dot l n \<noteq> None" using inv unfolding skip_inv_def by blast
    moreover have "card S \<le> n"
    proof -
      have "n = 2 ^ K - 1 + j" using inv k(1) unfolding skip_inv_def by blast
      then show ?thesis using K by linarith
    qed
    ultimately have "nth_tail h dot l (card S) \<noteq> None" by (rule nth_tail_prefix)
    then obtain a b x where ab: "a < b" "b \<le> card S" "nth_tail h dot l a = Some x" "nth_tail h dot l b = Some x"
      using pigeonhole_tails [OF S] by blast
    have "a \<le> 2 ^ K - 1" using ab K by linarith
    then have "nth_tail h dot l (2 ^ K - 1 + (b - a)) = Some check"
      using nth_tail_period [OF ab(3,4) _ ab(1), of "2 ^ K - 1"] inv k(1) by (simp add: skip_inv_def)
    moreover have "\<forall>i x. 0 < i \<longrightarrow> i \<le> j \<longrightarrow> nth_tail h dot l (2 ^ K - 1 + i) = Some x \<longrightarrow> cell h x \<noteq> cell h check"
      using inv k(1) unfolding skip_inv_def by blast
    moreover have "0 < b - a" "b - a \<le> j" using ab k(2) by simp_all
    ultimately show False by blast
  qed
  then show "k = K \<Longrightarrow> j < card S" .
  show "n + 1 < 2 ^ K + card S"
  proof (cases "k = K")
    case True
    then show ?thesis using b inv K by (simp add: skip_inv_def)
  next
    case False
    then have "Suc k \<le> K" using inv by (simp add: skip_inv_def)
    then have "(2::nat) ^ Suc k \<le> 2 ^ K" by (intro power_increasing) simp_all
    then show ?thesis using inv N by (simp add: skip_inv_def)
  qed
qed

lemma skip_loop_correct:
  assumes S: "list_cells h dot S" "l \<in> S" and K: "card S < 2 ^ K" "K \<le> 30"
  shows "skip_inv h dot l K check cur n k j \<Longrightarrow>
    \<exists>len tail. skip_loop h dot check cur n (word_of_nat (2 ^ k)) (word_of_nat j) = Some (len, tail) \<and>
      nth_tail h dot l len = Some tail \<and> len < 2 ^ K + card S \<and> 0 < len \<and>
      (isList h dot (cell h tail) \<longrightarrow> (\<exists>i<len. \<exists>x. nth_tail h dot l i = Some x \<and> cell h x = cell h tail))"
proof (induction "2 ^ K + card S - n" arbitrary: check cur n k j rule: less_induct)
  case less
  note inv = less.prems
  have cur: "nth_tail h dot l n = Some cur" "isList h dot (cell h cur)" and n: "n = 2 ^ k - 1 + j" and j: "j < 2 ^ k" and k: "k \<le> K"
    using inv unfolding skip_inv_def by blast+
  note bound = skip_bound [OF S K(1) inv]
  obtain y where y: "TailList h cur = Some y"
    using nth_tail_in [OF S cur(1)] S(1) cur(2) by (fastforce simp: list_cells_def)
  then have ny: "nth_tail h dot l (Suc n) = Some y" using cur by simp
  have lt: "2 ^ K + card S - Suc n < 2 ^ K + card S - n" using bound(1) by simp
  have "(2::nat) ^ k \<le> 2 ^ 30" using k K(2) by (intro power_increasing) simp_all
  then have pw: "(2::nat) ^ k < 2 ^ 32" "j + 1 < 2 ^ 32" using j by simp_all
  have test: "(word_of_nat (2 ^ k) = (word_of_nat j + 1 :: cint)) \<longleftrightarrow> j + 1 = 2 ^ k"
    using counter_eq [OF pw] by (auto simp: add.commute)
  show ?case
  proof (cases "\<not> isList h dot (cell h y) \<or> cell h check = cell h y")
    case True
    then have "skip_loop h dot check cur n (word_of_nat (2 ^ k)) (word_of_nat j) = Some (n + 1, y)"
      using y by (subst skip_loop.simps) simp
    moreover have "\<exists>i<n + 1. \<exists>x. nth_tail h dot l i = Some x \<and> cell h x = cell h y" if "isList h dot (cell h y)"
    proof -
      have "(0::nat) < 2 ^ k" "nth_tail h dot l (2 ^ k - 1) = Some check" using inv by (simp_all add: skip_inv_def)
      moreover from this have "2 ^ k - 1 < n + 1" using n by linarith
      ultimately show ?thesis using True that by blast
    qed
    ultimately show ?thesis using ny bound(1) by auto
  next
    case False
    show ?thesis
    proof (cases "j + 1 = 2 ^ k")
      case True
      have "k \<noteq> K" using bound(2) True K(1) by auto
      moreover have "Suc n = 2 ^ Suc k - 1" using n True by (simp add: mult_2)
      ultimately have "skip_inv h dot l K y y (Suc n) (Suc k) 0"
        using ny False k unfolding skip_inv_def by (auto simp del: power_Suc nth_tail.simps)
      note IH = less.hyps [OF lt this]
      have "skip_loop h dot check cur n (word_of_nat (2 ^ k)) (word_of_nat j) =
          skip_loop h dot y y (Suc n) (word_of_nat (2 ^ k) * 2) 0"
        using y False True test by (subst skip_loop.simps) simp
      moreover have "word_of_nat (2 ^ k) * 2 = (word_of_nat (2 ^ Suc k) :: cint)" by simp
      moreover have "word_of_nat 0 = (0 :: cint)" by simp
      ultimately show ?thesis using IH by metis
    next
      case c: False
      have "skip_inv h dot l K check y (Suc n) k (Suc j)"
        using inv ny False c j by (auto simp: skip_inv_def le_Suc_eq)
      note IH = less.hyps [OF lt this]
      have "word_of_nat j + 1 = (word_of_nat (Suc j) :: cint)" by (simp add: add.commute)
      moreover have "skip_loop h dot check cur n (word_of_nat (2 ^ k)) (word_of_nat j) =
          skip_loop h dot check y (Suc n) (word_of_nat (2 ^ k)) (word_of_nat j + 1)"
        using y False c test by (subst skip_loop.simps) simp
      ultimately show ?thesis using IH by metis
    qed
  qed
qed

section \<open>Properties\<close>

text \<open>C21: on every list whose cells are finitely many, cyclic or not, \<^theory_text>\<open>skip_list\<close> returns, within
  three times as many steps as there are cells, the tail that it reaches after as many steps as it
  says; either that tail is no list, or its cell has been met before and the list is cyclic.\<close>

theorem skip_list_correct:
  assumes "deRef h l0 = Some l" "list_cells h dot S" "l \<in> S" "card S < 2 ^ 29"
  shows "\<exists>len tail. skip_list h dot l0 = Some (len, tail) \<and> nth_tail h dot l len = Some tail \<and> len < 3 * card S \<and>
    (isList h dot (cell h tail) \<longrightarrow> (\<exists>i<len. \<exists>x. nth_tail h dot l i = Some x \<and> cell h x = cell h tail))"
proof (cases "isList h dot (cell h l)")
  case False
  then show ?thesis using assms card_gt_0_iff [of S] by (auto simp: skip_list_def list_cells_def)
next
  case True
  define K where "K = (LEAST K. card S < 2 ^ K)"
  have K: "card S < 2 ^ K" unfolding K_def by (rule LeastI [of _ 29]) (rule assms(4))
  have K30: "K \<le> 30" unfolding K_def using Least_le [of "\<lambda>K. card S < 2 ^ K" 29] assms(4) by simp
  have N: "0 < card S" using assms(2,3) by (metis card_gt_0_iff empty_iff list_cells_def)
  then obtain m where m: "K = Suc m" using K by (cases K) auto
  have "\<not> card S < 2 ^ m" unfolding m [symmetric] using not_less_Least [of m "\<lambda>K. card S < 2 ^ K"] m K_def by simp
  then have two: "2 ^ K \<le> 2 * card S" by (simp add: m)
  have "skip_inv h dot l K l l 0 0 0" using True by (simp add: skip_inv_def)
  from skip_loop_correct [OF assms(2,3) K K30 this] obtain len tail where
    "skip_loop h dot l l 0 1 0 = Some (len, tail)" "nth_tail h dot l len = Some tail" "len < 2 ^ K + card S"
    "isList h dot (cell h tail) \<longrightarrow> (\<exists>i<len. \<exists>x. nth_tail h dot l i = Some x \<and> cell h x = cell h tail)" by auto
  moreover from this two have "len < 3 * card S" by linarith
  ultimately show ?thesis using assms(1) True by (simp add: skip_list_def)
qed

lemma tail_end: "nth_tail h dot l n = Some x \<Longrightarrow> \<not> isList h dot (cell h x) \<Longrightarrow> nth_tail h dot l m = Some y \<Longrightarrow> m \<le> n"
  using nth_tail_list [of h dot l m y n x] by (cases "n < m") auto

lemma cyclic_tails:
  assumes "nth_tail h dot l i = Some x" "nth_tail h dot l n = Some y" "i < n" "cell h x = cell h y"
  shows "nth_tail h dot l m \<noteq> None"
proof -
  have "nth_tail h dot l (n + k) \<noteq> None" for k
  proof (induction k)
    case (Suc k)
    have "i + Suc k \<le> n + k" using assms(3) by simp
    then have "nth_tail h dot l (i + Suc k) \<noteq> None" by (rule nth_tail_prefix [OF Suc])
    then show ?case using nth_tail_repeat [OF assms(1,2,4), of k] by metis
  qed (use assms(2) in simp)
  from this [of m] show ?thesis by (rule nth_tail_prefix) simp
qed

text \<open>C29: \<^theory_text>\<open>lengthList\<close> is the number of elements of a proper list and negative for everything else.\<close>

theorem lengthList_correct:
  assumes "deRef h l0 = Some l" "list_cells h dot S" "l \<in> S" "card S < 2 ^ 29"
  shows "\<exists>n e. lengthList h dot nil l0 errors = Some (n, e) \<and>
    (if \<exists>len tail. nth_tail h dot l len = Some tail \<and> cell h tail = WAtom nil
     then \<exists>tail. nth_tail h dot l (nat n) = Some tail \<and> cell h tail = WAtom nil \<and> 0 \<le> n \<and> e = None
     else n < 0 \<and> e = (if errors then Some ListTypeError else None))"
proof -
  obtain len tail where s: "skip_list h dot l0 = Some (len, tail)" "nth_tail h dot l len = Some tail"
    "isList h dot (cell h tail) \<longrightarrow> (\<exists>i<len. \<exists>x. nth_tail h dot l i = Some x \<and> cell h x = cell h tail)"
    using skip_list_correct [OF assms] by blast
  have nil: "m = len \<and> y = tail" if m: "nth_tail h dot l m = Some y" "cell h y = WAtom nil" for m y
  proof -
    have y: "\<not> isList h dot (cell h y)" using m(2) by (simp add: isList_def)
    have "\<not> isList h dot (cell h tail)"
    proof
      assume "isList h dot (cell h tail)"
      then obtain i x where "i < len" "nth_tail h dot l i = Some x" "cell h x = cell h tail" using s(3) by blast
      then have "nth_tail h dot l (Suc m) \<noteq> None" using cyclic_tails [of h dot l i x len tail] s(2) by blast
      then show False using m(1) y by simp
    qed
    then have "m = len" using tail_end [OF s(2) _ m(1)] tail_end [OF m(1) y s(2)] by simp
    then show ?thesis using m(1) s(2) by simp
  qed
  show ?thesis
  proof (cases "cell h tail = WAtom nil")
    case True
    then show ?thesis using s(1,2) by (auto simp: lengthList_def)
  next
    case False
    then have "\<not> (\<exists>len tail. nth_tail h dot l len = Some tail \<and> cell h tail = WAtom nil)" using nil by blast
    then show ?thesis using s(1) False by (simp add: lengthList_def)
  qed
qed


text \<open>Two cells \<open>[a, b | ...]\<close> of which the second one ends with the atom 9 or goes back to the first.\<close>

definition list_heap :: "bool \<Rightarrow> heap" where
  "list_heap cyclic = \<lparr>cell = (\<lambda>a. if a = 0 then WTerm 10 else if a = 12 then WTerm 20
       else if a = 22 then (if cyclic then WTerm 10 else WAtom 9) else WAtom 1),
     func = (\<lambda>a. if a = 10 \<or> a = 20 then Some (Functor \<lparr>fname = 5, arity = 2\<rparr>) else None),
     ind = (\<lambda>_. IInt64 0), mark_bar = 0, lBase = 100, gfree = 0, tfree = 0, trail = [], wakeup = []\<rparr>"

lemma list_heap_cells: "list_cells (list_heap c) \<lparr>fname = 5, arity = 2\<rparr> {0, 12, 22}"
  by (cases c) (simp_all add: list_cells_def list_heap_def isList_def TailList_def argTermP_def deRef.simps)

theorem skip_list_correct_witness:
  "\<exists>len tail. skip_list (list_heap True) \<lparr>fname = 5, arity = 2\<rparr> 0 = Some (len, tail) \<and> len < 9 \<and>
     nth_tail (list_heap True) \<lparr>fname = 5, arity = 2\<rparr> 0 len = Some tail"
proof -
  have "deRef (list_heap True) 0 = Some 0" by (simp add: list_heap_def deRef.simps)
  from skip_list_correct [OF this list_heap_cells] show ?thesis by auto
qed

theorem lengthList_correct_witness:
  "\<exists>n e. lengthList (list_heap False) \<lparr>fname = 5, arity = 2\<rparr> 9 0 True = Some (n, e) \<and> 0 \<le> n \<and> e = None"
proof -
  have d: "deRef (list_heap False) 0 = Some 0" by (simp add: list_heap_def deRef.simps)
  have "nth_tail (list_heap False) \<lparr>fname = 5, arity = 2\<rparr> 0 2 = Some 22 \<and> cell (list_heap False) 22 = WAtom 9"
    by (simp add: list_heap_def isList_def TailList_def argTermP_def deRef.simps numeral_2_eq_2)
  then show ?thesis using lengthList_correct [OF d list_heap_cells, of 9 True] by (auto split: if_splits)
qed

text \<open>A list whose tail is an attributed variable is not told from other terms.\<close>

lemma attvar_tail_not_partial:
  "lengthList ((list_heap False)\<lparr>cell := (cell (list_heap False))(22 := WAttVar 30)\<rparr>) \<lparr>fname = 5, arity = 2\<rparr> 9 0 False = Some (-1, None)"
  "lengthList ((list_heap False)\<lparr>cell := (cell (list_heap False))(22 := WVar)\<rparr>) \<lparr>fname = 5, arity = 2\<rparr> 9 0 False = Some (-2, None)"
  by code_simp+

end
