(* ===== verification/PL_TermWalk.thy ===== *)
theory PL_TermWalk
  imports PL_SegStack "HOL-Library.Multiset"
begin

text \<open>
  Walks over terms (pl-prims.c, pl-termwalk.c): \<^theory_text>\<open>ground/1\<close> and the occurs check. A walk
  takes cells from an agenda, follows references and decides what to do with each cell; compounds are
  marked so that shared and cyclic terms are walked once. The marks are bits of the functor cells in
  the code and a predicate on their addresses here. The number of works the agenda has memory for is a
  parameter.
\<close>

section \<open>Walks\<close>

type_synonym marks = "addr \<Rightarrow> bool"

text \<open>What to do with a cell: end the walk, go on, go on with the arguments of a compound.\<close>

datatype ('s, 'r) walk_step = Stop 'r | Go 's | Into 's addr nat

definition pushWorkAgenda :: "nat \<Rightarrow> (addr \<times> nat) list \<Rightarrow> nat \<Rightarrow> addr \<Rightarrow> (addr \<times> nat) list option" where
  "pushWorkAgenda limit A amount start =
     (if A \<noteq> [] \<and> 0 < snd (hd A) \<and> limit \<le> length A then None else Some (push_on_list A amount start))"

text \<open>
  The loop over the agenda; \<open>nomem\<close> is what the caller does when the agenda cannot grow: end with a
  result, or go on without the arguments.
\<close>

partial_function (option) walk :: "nat \<Rightarrow> ('s \<Rightarrow> 'r option) \<Rightarrow> heap \<Rightarrow> ('s \<Rightarrow> addr \<Rightarrow> ('s, 'r) walk_step option) \<Rightarrow>
    's \<Rightarrow> (addr \<times> nat) list \<Rightarrow> ('r + 's) option" where
  "walk limit nomem h step s A =
     (case next_list Suc A of
        None \<Rightarrow> Some (Inr s)
      | Some (c, A) \<Rightarrow>
          (case deRef h c of
             None \<Rightarrow> None
           | Some p \<Rightarrow>
               (case step s p of
                  None \<Rightarrow> None
                | Some (Stop r) \<Rightarrow> Some (Inl r)
                | Some (Go s) \<Rightarrow> walk limit nomem h step s A
                | Some (Into s a n) \<Rightarrow>
                    (case pushWorkAgenda limit A n a of
                       Some A \<Rightarrow> walk limit nomem h step s A
                     | None \<Rightarrow> (case nomem s of Some r \<Rightarrow> Some (Inl r) | None \<Rightarrow> walk limit nomem h step s A)))))"

declare walk.simps [code]

section \<open>Cells of a term\<close>

definition args :: "heap \<Rightarrow> addr \<Rightarrow> addr list" where
  "args h f = (case func h f of Some (Functor fd) \<Rightarrow> [argTermP f 0..<argTermP f 0 + arity fd] | _ \<Rightarrow> [])"

text \<open>The cells that can be reached from a cell through references and arguments.\<close>

inductive reaches :: "heap \<Rightarrow> addr \<Rightarrow> addr \<Rightarrow> bool" for h p where
  self: "reaches h p p"
| deref: "reaches h p x \<Longrightarrow> derefs h x r \<Longrightarrow> reaches h p r"
| arg: "reaches h p r \<Longrightarrow> cell h r = WTerm f \<Longrightarrow> a \<in> set (args h f) \<Longrightarrow> reaches h p a"

text \<open>A finite set of cells that holds everything below them; attributes do not count.\<close>

definition closed_cells :: "heap \<Rightarrow> addr set \<Rightarrow> bool" where
  "closed_cells h S \<longleftrightarrow> finite S \<and> (\<forall>x\<in>S. \<exists>r\<in>S. derefs h x r) \<and>
     (\<forall>r\<in>S. \<forall>f. cell h r = WTerm f \<longrightarrow> (\<exists>fd. func h f = Some (Functor fd)) \<and> set (args h f) \<subseteq> S)"

definition functors_in :: "heap \<Rightarrow> addr set \<Rightarrow> addr set" where
  "functors_in h S = {f. \<exists>r\<in>S. cell h r = WTerm f}"

lemma reaches_closed: "reaches h p q \<Longrightarrow> closed_cells h S \<Longrightarrow> p \<in> S \<Longrightarrow> q \<in> S"
proof (induction rule: reaches.induct)
  case (deref x r)
  then have "x \<in> S" by blast
  then obtain r' where "r' \<in> S" "derefs h x r'" using deref.prems by (auto simp: closed_cells_def)
  then show ?case using derefs_unique [OF deref(2)] by simp
qed (auto simp: closed_cells_def)

lemma reaches_trans: "reaches h q r \<Longrightarrow> reaches h p q \<Longrightarrow> reaches h p r"
  by (induction rule: reaches.induct) (auto intro: reaches.intros)

lemma reaches_from_end: "reaches h p q \<Longrightarrow> derefs h p r \<Longrightarrow> q = p \<or> reaches h r q"
proof (induction rule: reaches.induct)
  case (deref x s)
  then consider "x = p" | "reaches h r x" by blast
  then show ?case
  proof cases
    case 1
    then have "s = r" using derefs_unique deref(2) deref.prems by blast
    then show ?thesis by (simp add: reaches.self)
  qed (use deref(2) in \<open>blast intro: reaches.deref\<close>)
next
  case (arg x f a)
  then consider "x = p" | "reaches h r x" by blast
  then show ?case
  proof cases
    case 1
    then have "r = x" using arg(2) arg.prems derefs_self [of h p r] by simp
    then show ?thesis using arg(2,3) reaches.arg [OF reaches.self] by blast
  qed (use arg(2,3) in \<open>blast intro: reaches.arg\<close>)
qed simp

lemma closed_reaches:
  assumes "closed_cells h S" "P \<subseteq> S"
  shows "closed_cells h {q. \<exists>p\<in>P. reaches h p q}" "functors_in h {q. \<exists>p\<in>P. reaches h p q} \<subseteq> functors_in h S"
proof -
  have sub: "{q. \<exists>p\<in>P. reaches h p q} \<subseteq> S" using reaches_closed [OF _ assms(1)] assms(2) by blast
  moreover have "\<exists>r. derefs h x r" if "x \<in> S" for x using assms(1) that by (auto simp: closed_cells_def)
  ultimately have "closed_cells h {q. \<exists>p\<in>P. reaches h p q}" if "finite {q. \<exists>p\<in>P. reaches h p q}"
  proof -
    have "\<exists>r. (\<exists>p\<in>P. reaches h p r) \<and> derefs h x r" if "x \<in> S" "p \<in> P" "reaches h p x" for x p
      using assms(1) that reaches.deref [OF that(3)] by (fastforce simp: closed_cells_def)
    moreover have "(\<exists>fd. func h f = Some (Functor fd)) \<and> set (args h f) \<subseteq> {q. \<exists>p\<in>P. reaches h p q}"
      if "r \<in> S" "p \<in> P" "reaches h p r" "cell h r = WTerm f" for r p f
      using assms(1) that reaches.arg [OF that(3,4)] by (fastforce simp: closed_cells_def)
    ultimately show ?thesis using that sub unfolding closed_cells_def by blast
  qed
  then show "closed_cells h {q. \<exists>p\<in>P. reaches h p q}"
    using assms(1) finite_subset [OF sub] by (simp add: closed_cells_def)
  show "functors_in h {q. \<exists>p\<in>P. reaches h p q} \<subseteq> functors_in h S" using sub by (auto simp: functors_in_def)
qed

lemma finite_functors: "finite S \<Longrightarrow> finite (functors_in h S)"
proof -
  assume "finite S"
  then have "finite ((\<lambda>r. case cell h r of WTerm f \<Rightarrow> f | _ \<Rightarrow> 0) ` S)" by simp
  then show ?thesis unfolding functors_in_def by (rule rev_finite_subset) (force simp: image_iff split: word.split)
qed

section \<open>Walks that mark\<close>

text \<open>
  What the walks share: going into a compound marks it, and a compound that is passed over has been
  marked before.
\<close>

locale marking_walk =
  fixes h :: heap and step :: "'s \<Rightarrow> addr \<Rightarrow> ('s, 'r) walk_step option" and marked :: "'s \<Rightarrow> addr set"
    and expected :: "word \<Rightarrow> bool"
  assumes defined: "(\<forall>f. cell h p = WTerm f \<longrightarrow> (\<exists>fd. func h f = Some (Functor fd))) \<Longrightarrow> step s p \<noteq> None"
    and into: "expected (cell h p) \<Longrightarrow> step s p = Some (Into s' a n) \<Longrightarrow>
      \<exists>f fd. cell h p = WTerm f \<and> func h f = Some (Functor fd) \<and> a = argTermP f 0 \<and> n = arity fd \<and>
        f \<notin> marked s \<and> marked s' = insert f (marked s)"
    and go: "expected (cell h p) \<Longrightarrow> step s p = Some (Go s') \<Longrightarrow>
      marked s' = marked s \<and> (\<forall>f. cell h p = WTerm f \<longrightarrow> f \<in> marked s)"
begin

definition walkable :: "addr set \<Rightarrow> bool" where
  "walkable S \<longleftrightarrow> closed_cells h S \<and> (\<forall>p\<in>S. expected (cell h p))"

text \<open>The cells that a walk has taken from the agenda, with the states before and after.\<close>

inductive walked :: "addr set \<Rightarrow> 's \<Rightarrow> addr list \<Rightarrow> 's \<Rightarrow> bool" for S where
  none: "walked S s [] s"
| some: "c \<in> S \<Longrightarrow> derefs h c p \<Longrightarrow> step s p = Some (Go s1) \<or> step s p = Some (Into s1 a n) \<Longrightarrow> walked S s1 vis s' \<Longrightarrow>
    walked S s (c # vis) s'"

lemma deref_in: "walkable S \<Longrightarrow> c \<in> S \<Longrightarrow> derefs h c p \<Longrightarrow> p \<in> S"
  using derefs_unique by (fastforce simp: closed_cells_def walkable_def)

lemma step_marks:
  assumes "walkable S" "p \<in> S" "step s p = Some (Go s1) \<or> step s p = Some (Into s1 a n)"
  shows "marked s \<subseteq> marked s1 \<and> (\<forall>g. cell h p = WTerm g \<longrightarrow> g \<in> marked s1) \<and> marked s1 \<subseteq> marked s \<union> functors_in h S"
proof -
  have "expected (cell h p)" using assms(1,2) by (simp add: walkable_def)
  then show ?thesis using assms(2,3) into go by (fastforce simp: functors_in_def)
qed

lemma walked_mono: "walked S s vis s' \<Longrightarrow> walkable S \<Longrightarrow> marked s \<subseteq> marked s' \<and> marked s' \<subseteq> marked s \<union> functors_in h S"
proof (induction rule: walked.induct)
  case (some c p s s1 a n vis s')
  then show ?case using step_marks [OF some.prems deref_in [OF some.prems some(1,2)] some(3)] by blast
qed simp

lemma walked_cell: "walked S s vis s' \<Longrightarrow> walkable S \<Longrightarrow> c \<in> set vis \<Longrightarrow> derefs h c p \<Longrightarrow> cell h p = WTerm f \<Longrightarrow> f \<in> marked s'"
proof (induction rule: walked.induct)
  case (some d q s s1 a n vis s')
  note w = some.prems(1)
  show ?case
  proof (cases "c \<in> set vis")
    case False
    then have "p = q" using some(2) some.prems(2,3) derefs_unique by simp
    then have "f \<in> marked s1" using step_marks [OF w deref_in [OF w some(1,2)] some(3)] some.prems(4) by simp
    then show ?thesis using walked_mono [OF some(4) w] by blast
  qed (use some in blast)
qed simp

lemma walked_in: "walked S s vis s' \<Longrightarrow> set vis \<subseteq> S"
  by (induction rule: walked.induct) auto

lemma next_agenda1:
  assumes "works_ok A" "next_list Suc A = Some (c, A')"
  shows "works_ok A'" "cells A = c # cells A'" "length A' \<le> length A"
proof -
  show "works_ok A'" "cells A = c # cells A'" using next_cells [OF assms(1)] assms(2) by simp_all
  show "length A' \<le> length A" using assms(2) by (cases "(Suc, A)" rule: next_list.cases) auto
qed

lemma length_push: "length (push_on_list A n p) \<le> Suc (length A)"
  by (cases "(A, n, p)" rule: push_on_list.cases) auto

lemma args_sum:
  assumes "finite M'" "f \<notin> M" "insert f M \<subseteq> M'"
  shows "(\<Sum>g\<in>M' - M. mset (args h g)) = mset (args h f) + (\<Sum>g\<in>M' - insert f M. mset (args h g))"
proof -
  have "M' - M = insert f (M' - insert f M)" using assms by blast
  moreover have "(\<Sum>g\<in>insert f (M' - insert f M). mset (args h g)) = mset (args h f) + (\<Sum>g\<in>M' - insert f M. mset (args h g))"
    by (rule sum.insert) (use assms(1) in simp_all)
  ultimately show ?thesis by (simp only:)
qed

text \<open>
  With memory for one work per compound the walk returns. Every cell of the agenda and every argument
  of a newly marked compound is taken once, up to those that are left when it is stopped.
\<close>

lemma walk_covers:
  assumes w: "walkable S" and A: "works_ok A" "set (cells A) \<subseteq> S" "length A \<le> Suc (card (marked s))" "marked s \<subseteq> functors_in h S"
    and lim: "card (functors_in h S) < limit"
  shows "\<exists>out vis s' rest. walk limit nomem h step s A = Some out \<and> walked S s vis s' \<and>
    mset (cells A) + (\<Sum>f\<in>marked s' - marked s. mset (args h f)) = mset vis + mset rest \<and>
    (case out of Inr s'' \<Rightarrow> s'' = s' \<and> rest = []
     | Inl r \<Rightarrow> \<exists>c p. c \<in> set rest \<and> c \<in> S \<and> derefs h c p \<and> step s' p = Some (Stop r))"
  using A
proof (induction "(s, A)" arbitrary: s A rule: wf_induct_rule
    [OF wf_measures [of "[\<lambda>(s, A). card (functors_in h S - marked s), \<lambda>(s, A). length (cells A)]"]])
  case (1 s A)
  have closed: "closed_cells h S" using w by (simp add: walkable_def)
  then have fin: "finite (functors_in h S)" by (simp add: closed_cells_def finite_functors)
  show ?case
  proof (cases "next_list Suc A")
    case None
    then have "cells A = []" using next_cells [OF 1(2)] by simp
    then show ?thesis using None walked.none [of S s]
      by (subst walk.simps) (intro exI [of _ "Inr s"] exI [of _ "[]"] exI [of _ s], simp)
  next
    case (Some cA)
    then obtain c A1 where A1: "next_list Suc A = Some (c, A1)" by (cases cA) auto
    note n = next_agenda1 [OF 1(2) A1]
    have c: "c \<in> S" using n(2) 1(3) by simp
    then obtain p where p: "derefs h c p" "p \<in> S" using closed by (auto simp: closed_cells_def)
    have d: "deRef h c = Some p" by (rule derefs_deRef [OF p(1)])
    have ex: "expected (cell h p)" using w p(2) by (simp add: walkable_def)
    have "\<forall>f. cell h p = WTerm f \<longrightarrow> (\<exists>fd. func h f = Some (Functor fd))" using closed p(2) by (simp add: closed_cells_def)
    then obtain st where st: "step s p = Some st" using defined by blast
    show ?thesis
    proof (cases st)
      case (Stop r)
      then have "walk limit nomem h step s A = Some (Inl r)" using A1 d st by (subst walk.simps) simp
      then show ?thesis using walked.none [of S s] Stop st c p n(2)
        by (intro exI [of _ "Inl r"] exI [of _ "[]"] exI [of _ s] exI [of _ "cells A"]) auto
    next
      case (Go s1)
      note m = go [OF ex st [unfolded Go]]
      obtain out vis s' rest where IH: "walk limit nomem h step s1 A1 = Some out" "walked S s1 vis s'"
        "mset (cells A1) + (\<Sum>f\<in>marked s' - marked s1. mset (args h f)) = mset vis + mset rest"
        "case out of Inr s'' \<Rightarrow> s'' = s' \<and> rest = []
         | Inl r \<Rightarrow> \<exists>c p. c \<in> set rest \<and> c \<in> S \<and> derefs h c p \<and> step s' p = Some (Stop r)"
        using 1(1) [of s1 A1] n 1(3-5) m by auto
      have "walk limit nomem h step s A = Some out" using IH(1) A1 d st Go by (subst walk.simps) simp
      moreover have "walked S s (c # vis) s'" using walked.some [OF c p(1)] st Go IH(2) by blast
      ultimately show ?thesis using IH(3,4) n(2) m
        by (intro exI [of _ out] exI [of _ "c # vis"] exI [of _ s'] exI [of _ rest]) (simp split: sum.splits)
    next
      case (Into s1 a k)
      obtain f fd where f: "cell h p = WTerm f" "func h f = Some (Functor fd)" "a = argTermP f 0" "k = arity fd"
        "f \<notin> marked s" "marked s1 = insert f (marked s)" using into [OF ex st [unfolded Into]] by blast
      have fF: "f \<in> functors_in h S" using p(2) f(1) by (auto simp: functors_in_def)
      have "card (insert f (marked s)) \<le> card (functors_in h S)"
        using card_mono [OF fin, of "insert f (marked s)"] 1(5) fF by simp
      moreover have cm: "card (insert f (marked s)) = Suc (card (marked s))"
        using f(5) rev_finite_subset [OF fin 1(5)] by simp
      ultimately have "length A1 < limit" using n(3) 1(4) lim by linarith
      then have push: "pushWorkAgenda limit A1 k a = Some (push_on_list A1 k a)" by (simp add: pushWorkAgenda_def)
      have ar: "cells (push_on_list A1 k a) = args h f @ cells A1" "works_ok (push_on_list A1 k a)"
        using push_cells [OF n(1), of k a] f(2-4) by (simp_all add: args_def)
      have sub: "set (args h f) \<subseteq> S" using closed p(2) f(1) by (simp add: closed_cells_def)
      have "card (functors_in h S - marked s1) < card (functors_in h S - marked s)"
        using f(5,6) fF fin by (intro psubset_card_mono) auto
      then obtain out vis s' rest where IH: "walk limit nomem h step s1 (push_on_list A1 k a) = Some out" "walked S s1 vis s'"
        "mset (cells (push_on_list A1 k a)) + (\<Sum>g\<in>marked s' - marked s1. mset (args h g)) = mset vis + mset rest"
        "case out of Inr s'' \<Rightarrow> s'' = s' \<and> rest = []
         | Inl r \<Rightarrow> \<exists>c p. c \<in> set rest \<and> c \<in> S \<and> derefs h c p \<and> step s' p = Some (Stop r)"
        using 1(1) [of s1 "push_on_list A1 k a"] ar sub n 1(3-5) f(6) fF cm length_push [of A1 k a] by auto
      have "marked s' \<subseteq> functors_in h S" using walked_mono [OF IH(2) w] 1(5) f(6) fF by auto
      then have "(\<Sum>g\<in>marked s' - marked s. mset (args h g)) =
          mset (args h f) + (\<Sum>g\<in>marked s' - marked s1. mset (args h g))"
        unfolding f(6) using args_sum [of "marked s'" f "marked s"] rev_finite_subset [OF fin] f(5,6) walked_mono [OF IH(2) w] by blast
      moreover have "walk limit nomem h step s A = Some out" using IH(1) A1 d st Into push by (subst walk.simps) simp
      moreover have "walked S s (c # vis) s'" using walked.some [OF c p(1)] st Into IH(2) by blast
      ultimately show ?thesis using IH(3,4) n(2) ar(1)
        by (intro exI [of _ out] exI [of _ "c # vis"] exI [of _ s'] exI [of _ rest]) (simp add: ac_simps split: sum.splits)
    qed
  qed
qed

text \<open>Every cell below an agenda that has been worked off has been taken.\<close>

lemma walked_step: "walked S s vis s' \<Longrightarrow> c \<in> set vis \<Longrightarrow>
    \<exists>s0 p s1 a n. derefs h c p \<and> (step s0 p = Some (Go s1) \<or> step s0 p = Some (Into s1 a n))"
proof (induction rule: walked.induct)
  case (some d p s s1 a n vis s')
  then show ?case by (cases "c = d") (blast, simp)
qed simp

lemma walk_all:
  assumes w: "walkable S" "walked S s vis s'"
    and all: "mset (cells A) + (\<Sum>f\<in>marked s' - marked s. mset (args h f)) = mset vis"
    and start: "\<And>f. f \<in> marked s \<Longrightarrow> set (args h f) \<subseteq> set (cells A)" "finite (marked s)"
    and x: "x \<in> set (cells A)"
  shows "reaches h x q \<Longrightarrow> \<exists>c\<in>set vis. c = q \<or> derefs h c q"
proof -
  have taken: "y \<in> set vis" if "y \<in># mset (cells A) + (\<Sum>f\<in>marked s' - marked s. mset (args h f))" for y
    using that unfolding all set_mset_mset .
  show "reaches h x q \<Longrightarrow> \<exists>c\<in>set vis. c = q \<or> derefs h c q"
proof (induction rule: reaches.induct)
  case self
  have "x \<in> set vis" using x by (intro taken) simp
  then show ?case by blast
next
  case (deref y r)
  then obtain c where c: "c \<in> set vis" "c = y \<or> derefs h c y" by blast
  from c(2) have "derefs h c r"
  proof
    assume d: "derefs h c y"
    then have "r = y" using deref(2) by (simp add: derefs_self derefs_end)
    then show ?thesis using d by simp
  qed (use deref(2) in simp)
  then show ?case using c(1) by blast
next
  case (arg r f a)
  then obtain c where c: "c \<in> set vis" "c = r \<or> derefs h c r" by blast
  have "derefs h r r" using arg(2) by (intro derefs.here) simp
  then have f: "f \<in> marked s'" using walked_cell [OF w(2,1) c(1) _ arg(2)] c(2) by blast
  have "a \<in># mset (cells A) + (\<Sum>f\<in>marked s' - marked s. mset (args h f))"
  proof (cases "f \<in> marked s")
    case True
    then show ?thesis using start(1) arg(3) by auto
  next
    case False
    have "finite (marked s')"
      using walked_mono [OF w(2,1)] start(2) w(1) finite_functors [of S h] finite_subset [of "marked s'" "marked s \<union> functors_in h S"]
      by (simp add: walkable_def closed_cells_def)
    then show ?thesis using False f arg(3) set_mset_sum [of "marked s' - marked s" "\<lambda>f. mset (args h f)"] by auto
  qed
  then show ?case using taken by blast
qed
qed

end

section \<open>Ground terms\<close>

datatype phase = ph_mark | ph_unmark

text \<open>Has this phase passed the compound? It has now.\<close>

fun ph_visited :: "phase \<Rightarrow> marks \<Rightarrow> addr \<Rightarrow> bool \<times> marks" where
  "ph_visited ph_mark m f = (if m f then (True, m) else (False, m(f := True)))"
| "ph_visited ph_unmark m f = (if \<not> m f then (True, m) else (False, m(f := False)))"

definition ground_step :: "heap \<Rightarrow> phase \<Rightarrow> marks \<Rightarrow> addr \<Rightarrow> (marks, addr \<times> marks) walk_step option" where
  "ground_step h ph m p =
     (if canBind (cell h p) then Some (Stop (p, m))
      else case cell h p of
        WTerm f \<Rightarrow>
          (case ph_visited ph m f of
             (True, m) \<Rightarrow> Some (Go m)
           | (False, m) \<Rightarrow>
               (case func h f of Some (Functor fd) \<Rightarrow> Some (Into m (argTermP f 0) (arity fd)) | _ \<Rightarrow> None))
      | _ \<Rightarrow> Some (Go m))"

definition ph_ground :: "nat \<Rightarrow> heap \<Rightarrow> marks \<Rightarrow> addr \<Rightarrow> phase \<Rightarrow> (addr option \<times> marks) option" where
  "ph_ground limit h m p ph =
     (case walk limit (\<lambda>_. None) h (ground_step h ph) m [(p, 1)] of
        None \<Rightarrow> None
      | Some (Inl (q, m)) \<Rightarrow> Some (Some q, m)
      | Some (Inr m) \<Rightarrow> Some (None, m))"

text \<open>The cell that makes the term nonground, if there is one; \<open>None\<close> if the assertion fails.\<close>

definition ground :: "nat \<Rightarrow> heap \<Rightarrow> marks \<Rightarrow> addr \<Rightarrow> (addr option \<times> marks) option" where
  "ground limit h m p =
     (case deRef h p of
        None \<Rightarrow> None
      | Some p \<Rightarrow>
          (if canBind (cell h p) then Some (Some p, m)
           else if \<not> isTerm (cell h p) then Some (None, m)
           else case ph_ground limit h m p ph_mark of
             None \<Rightarrow> None
           | Some (rc1, m) \<Rightarrow>
               (case ph_ground limit h m p ph_unmark of
                  None \<Rightarrow> None
                | Some (rc2, m) \<Rightarrow> (if rc1 = rc2 then Some (rc1, m) else None))))"

interpretation ground_walk: marking_walk h "ground_step h ph_mark" "\<lambda>m. {f. m f}" "\<lambda>_. True" for h
  by unfold_locales
    (auto simp: ground_step_def split: if_splits word.splits option.splits fword.splits prod.splits bool.splits)

text \<open>The second phase follows the first and takes back the marks it set.\<close>

fun out_marks :: "addr \<times> marks + marks \<Rightarrow> marks" where
  "out_marks (Inl (_, m)) = m"
| "out_marks (Inr m) = m"

fun with_marks :: "marks \<Rightarrow> addr \<times> marks + marks \<Rightarrow> addr \<times> marks + marks" where
  "with_marks m (Inl (q, _)) = Inl (q, m)"
| "with_marks m (Inr _) = Inr m"

definition unmark_run :: "nat \<Rightarrow> (marks \<Rightarrow> (addr \<times> marks) option) \<Rightarrow> heap \<Rightarrow>
    (marks \<Rightarrow> addr \<Rightarrow> (marks, addr \<times> marks) walk_step option) \<Rightarrow> marks \<Rightarrow> (addr \<times> nat) list \<Rightarrow> addr \<times> marks + marks \<Rightarrow> bool" where
  "unmark_run limit nomem h step m A out \<longleftrightarrow> step = ground_step h ph_mark \<longrightarrow> nomem = (\<lambda>_. None) \<longrightarrow>
     (\<forall>f. m f \<longrightarrow> out_marks out f) \<and>
     walk limit nomem h (ground_step h ph_unmark) (\<lambda>f. out_marks out f \<and> \<not> m f) A = Some (with_marks (\<lambda>_. False) out)"

lemma ground_step_unmark:
  assumes "ground_step h ph_mark m p = Some st" "\<And>f. m f \<Longrightarrow> d f"
  shows "case st of
      Stop r \<Rightarrow> r = (p, m) \<and> ground_step h ph_unmark (\<lambda>f. d f \<and> \<not> m f) p = Some (Stop (p, \<lambda>f. d f \<and> \<not> m f))
    | Go m' \<Rightarrow> m' = m \<and> ground_step h ph_unmark (\<lambda>f. d f \<and> \<not> m f) p = Some (Go (\<lambda>f. d f \<and> \<not> m f))
    | Into m' a n \<Rightarrow> (\<forall>f. m f \<longrightarrow> m' f) \<and>
        ((\<forall>f. m' f \<longrightarrow> d f) \<longrightarrow> ground_step h ph_unmark (\<lambda>f. d f \<and> \<not> m f) p = Some (Into (\<lambda>f. d f \<and> \<not> m' f) a n))"
proof (cases "cell h p")
  case (WTerm f)
  have "(\<lambda>g. d g \<and> \<not> m g)(f := False) = (\<lambda>g. d g \<and> \<not> (m(f := True)) g)" by auto
  then show ?thesis using assms WTerm
    by (cases "m f") (auto simp: ground_step_def canBind_def isVar_def split: option.splits fword.splits)
qed (use assms(1) in \<open>auto simp: ground_step_def canBind_def isVar_def\<close>)

lemma unmark_follows:
  assumes "walk limit (\<lambda>_. None) h (ground_step h ph_mark) m A = Some out"
  shows "unmark_run limit (\<lambda>_. None) h (ground_step h ph_mark) m A out"
  using assms
proof (rule walk.raw_induct [where P = unmark_run, rotated], goal_cases)
  case (1 wk limit nomem h step m A out)
  show ?case unfolding unmark_run_def
  proof (intro impI)
    assume st: "step = ground_step h ph_mark" and nm: "nomem = (\<lambda>_. None)"
    have IH: "(\<forall>f. m f \<longrightarrow> out_marks out f) \<and> walk limit (\<lambda>_. None) h (ground_step h ph_unmark)
        (\<lambda>f. out_marks out f \<and> \<not> m f) A = Some (with_marks (\<lambda>_. False) out)"
      if "wk limit nomem h step m A = Some out" for m A out
      using 1(1) [OF that] st nm by (simp add: unmark_run_def)
    show "(\<forall>f. m f \<longrightarrow> out_marks out f) \<and> walk limit nomem h (ground_step h ph_unmark)
        (\<lambda>f. out_marks out f \<and> \<not> m f) A = Some (with_marks (\<lambda>_. False) out)"
    proof (cases "next_list Suc A")
      case None
      then show ?thesis using 1(2) by (subst walk.simps) auto
    next
      case (Some cA)
      then obtain c A1 p s where n: "next_list Suc A = Some (c, A1)" "deRef h c = Some p" "step m p = Some s"
        using 1(2) by (cases cA) (auto split: option.splits)
      note u = ground_step_unmark [OF n(3) [unfolded st]]
      show ?thesis
      proof (cases s)
        case (Stop r)
        then show ?thesis using 1(2) n u [of m] by (subst walk.simps) (auto simp: nm)
      next
        case (Go m')
        then have "m' = m" using u [of m] by simp
        then have i: "wk limit nomem h step m A1 = Some out" using 1(2) n Go by simp
        then show ?thesis using IH [OF i] n u [of "out_marks out"] Go by (subst walk.simps) (auto simp: nm)
      next
        case (Into m' a k)
        then have mono: "\<forall>f. m f \<longrightarrow> m' f" using u [of m] by simp
        have i: "wk limit nomem h step m' (case pushWorkAgenda limit A1 k a of Some B \<Rightarrow> B | None \<Rightarrow> A1) = Some out"
          using 1(2) n Into nm by (auto split: option.splits)
        then have o: "\<forall>f. m' f \<longrightarrow> out_marks out f" using IH [OF i] by blast
        then have "ground_step h ph_unmark (\<lambda>f. out_marks out f \<and> \<not> m f) p = Some (Into (\<lambda>f. out_marks out f \<and> \<not> m' f) a k)"
          using u [of "out_marks out"] mono Into by auto
        then have "walk limit nomem h (ground_step h ph_unmark) (\<lambda>f. out_marks out f \<and> \<not> m f) A =
            walk limit nomem h (ground_step h ph_unmark) (\<lambda>f. out_marks out f \<and> \<not> m' f)
              (case pushWorkAgenda limit A1 k a of Some B \<Rightarrow> B | None \<Rightarrow> A1)"
          using n by (subst walk.simps) (simp add: nm split: option.split)
        then show ?thesis using IH [OF i] o mono nm by auto
      qed
    qed
  qed
qed

text \<open>The walk finds an unbound cell below the term, if there is one.\<close>

lemma ph_ground_mark:
  assumes S: "closed_cells h S" "p \<in> S" "card (functors_in h S) < limit"
  shows "\<exists>rc m. ph_ground limit h (\<lambda>_. False) p ph_mark = Some (rc, m) \<and>
    (case rc of None \<Rightarrow> \<forall>q. reaches h p q \<longrightarrow> \<not> canBind (cell h q)
     | Some q \<Rightarrow> reaches h p q \<and> canBind (cell h q))"
proof -
  let ?R = "{q. \<exists>x\<in>{p}. reaches h x q}"
  have R: "closed_cells h ?R" "functors_in h ?R \<subseteq> functors_in h S" using closed_reaches [OF S(1), of "{p}"] S(2) by auto
  then have w: "ground_walk.walkable h ?R" by (simp add: ground_walk.walkable_def)
  have A: "works_ok [(p, 1)]" "set (cells [(p, 1)]) \<subseteq> ?R" by (simp_all add: works_ok_def cells_def reaches.self)
  have "card (functors_in h ?R) < limit"
    using card_mono [OF finite_functors R(2)] S(1,3) by (simp add: closed_cells_def)
  then obtain out vis m rest where W: "walk limit (\<lambda>_. None) h (ground_step h ph_mark) (\<lambda>_. False) [(p, 1)] = Some out"
    "ground_walk.walked h ?R (\<lambda>_. False) vis m"
    "mset (cells [(p, 1)]) + (\<Sum>f\<in>{f. m f} - {f. False}. mset (args h f)) = mset vis + mset rest"
    "case out of Inr s'' \<Rightarrow> s'' = m \<and> rest = []
     | Inl r \<Rightarrow> \<exists>c q. c \<in> set rest \<and> c \<in> ?R \<and> derefs h c q \<and> ground_step h ph_mark m q = Some (Stop r)"
    using ground_walk.walk_covers [OF w A, of "\<lambda>_. False" limit "\<lambda>_. None"] by auto
  show ?thesis
  proof (cases out)
    case (Inl r)
    then obtain c q where q: "reaches h p c" "derefs h c q" "ground_step h ph_mark m q = Some (Stop r)" using W(4) by auto
    then have "r = (q, m)" "canBind (cell h q)"
      by (auto simp: ground_step_def split: if_splits word.splits option.splits fword.splits prod.splits bool.splits)
    then show ?thesis using W(1) Inl reaches.deref [OF q(1,2)] by (simp add: ph_ground_def)
  next
    case (Inr m')
    have all: "mset (cells [(p, 1)]) + (\<Sum>f\<in>{f. m f} - {f. False}. mset (args h f)) = mset vis" using W(3,4) Inr by simp
    have "\<not> canBind (cell h q)" if r: "reaches h p q" for q
    proof
      assume b: "canBind (cell h q)"
      obtain c where c: "c \<in> set vis" "c = q \<or> derefs h c q"
        using ground_walk.walk_all [OF w W(2) all, of p q] r by (auto simp: cells_def)
      obtain s0 q' s1 a n where "derefs h c q'" "ground_step h ph_mark s0 q' = Some (Go s1) \<or> ground_step h ph_mark s0 q' = Some (Into s1 a n)"
        using ground_walk.walked_step [OF W(2) c(1)] by blast
      moreover have "derefs h q q" using b by (intro derefs.here) (cases "cell h q", auto simp: canBind_def isVar_def)
      moreover from this c(2) have "derefs h c q" by blast
      ultimately show False using b derefs_unique [of h c q' q] by (auto simp: ground_step_def)
    qed
    then show ?thesis using W(1) Inr by (simp add: ph_ground_def)
  qed
qed

lemma ph_ground_unmark:
  assumes "ph_ground limit h (\<lambda>_. False) p ph_mark = Some (rc, m)"
  shows "ph_ground limit h m p ph_unmark = Some (rc, \<lambda>_. False)"
proof -
  obtain out where o: "walk limit (\<lambda>_. None) h (ground_step h ph_mark) (\<lambda>_. False) [(p, 1)] = Some out"
    using assms by (auto simp: ph_ground_def split: option.splits)
  have u: "walk limit (\<lambda>_. None) h (ground_step h ph_unmark) (out_marks out) [(p, 1)] = Some (with_marks (\<lambda>_. False) out)"
    using unmark_follows [OF o] by (simp add: unmark_run_def)
  show ?thesis
  proof (cases out)
    case (Inl r)
    then show ?thesis using u assms o by (cases r) (simp add: ph_ground_def)
  next
    case (Inr m')
    then show ?thesis using u assms o by (simp add: ph_ground_def)
  qed
qed

text \<open>C18: \<^theory_text>\<open>ground__LD\<close> returns with all marks taken back and its assertion true, for cyclic and
  shared terms too; it returns no cell exactly if no unbound cell can be reached, and otherwise one
  that can.\<close>
theorem ground_correct:
  assumes "closed_cells h S" "p \<in> S" "card (functors_in h S) < limit"
  shows "\<exists>rc. ground limit h (\<lambda>_. False) p = Some (rc, \<lambda>_. False) \<and>
    (case rc of None \<Rightarrow> \<forall>q. reaches h p q \<longrightarrow> \<not> canBind (cell h q)
     | Some q \<Rightarrow> reaches h p q \<and> canBind (cell h q))"
proof -
  obtain r where r: "r \<in> S" "derefs h p r" using assms(1,2) by (auto simp: closed_cells_def)
  obtain rc m where g: "ph_ground limit h (\<lambda>_. False) r ph_mark = Some (rc, m)"
    "case rc of None \<Rightarrow> \<forall>q. reaches h r q \<longrightarrow> \<not> canBind (cell h q) | Some q \<Rightarrow> reaches h r q \<and> canBind (cell h q)"
    using ph_ground_mark [OF assms(1) r(1) assms(3)] by blast
  have up: "reaches h p q" if "reaches h r q" for q
    using reaches_trans [OF that] reaches.deref [OF reaches.self r(2)] by blast
  have down: "reaches h r q" if "reaches h p q" "canBind (cell h q)" for q
    using reaches_from_end [OF that(1) r(2)] that(2) derefs_self [of h q r] r(2)
    by (cases "cell h q") (auto simp: canBind_def isVar_def reaches.self)
  show ?thesis
  proof (cases "\<not> canBind (cell h r) \<and> isTerm (cell h r)")
    case True
    then have "ground limit h (\<lambda>_. False) p = Some (rc, \<lambda>_. False)"
      using g(1) ph_ground_unmark [OF g(1)] derefs_deRef [OF r(2)] by (simp add: ground_def)
    then show ?thesis using g(2) up down by (cases rc) auto
  next
    case False
    have "q = r" if "reaches h r q" for q
      using that by induction (use False derefs_end [OF r(2)] in \<open>auto simp: derefs_self canBind_def isVar_def\<close>)
    then show ?thesis using False derefs_deRef [OF r(2)] up [OF reaches.self] down
      by (auto simp: ground_def)
  qed
qed

text \<open>A cyclic term \<open>F = f(F, _)\<close> and a nested one \<open>f(f(_, a), a)\<close>.\<close>

definition looping_heap :: heap where
  "looping_heap = \<lparr>cell = (\<lambda>_. WVar)(0 := WTerm 10, 11 := WTerm 10), func = [10 \<mapsto> Functor \<lparr>fname = 5, arity = 2\<rparr>],
    ind = \<lambda>_. IMpz 0, mark_bar = 0, lBase = 100, gfree = 10, tfree = 10, trail = [], wakeup = []\<rparr>"

definition nested_heap :: heap where
  "nested_heap = looping_heap\<lparr>cell := (\<lambda>_. WAtom 7)(0 := WTerm 10, 11 := WTerm 20, 21 := WVar),
    func := [10 \<mapsto> Functor \<lparr>fname = 5, arity = 2\<rparr>, 20 \<mapsto> Functor \<lparr>fname = 5, arity = 2\<rparr>]\<rparr>"

lemma cyclic_closed: "closed_cells looping_heap {0, 11, 12}" "functors_in looping_heap {0, 11, 12} = {10}"
  by (auto simp: closed_cells_def functors_in_def looping_heap_def args_def argTermP_def derefs_self)

lemma cyclic_reaches: "reaches looping_heap 0 12"
  by (rule reaches.arg [OF reaches.self, of _ _ 10]) (auto simp: looping_heap_def args_def argTermP_def)

theorem ground_correct_witness:
  "\<exists>q. ground 2 looping_heap (\<lambda>_. False) 0 = Some (Some q, \<lambda>_. False) \<and> canBind (cell looping_heap q)"
proof -
  have b: "canBind (cell looping_heap 12)" by (simp add: looping_heap_def canBind_def isVar_def)
  obtain rc where "ground 2 looping_heap (\<lambda>_. False) 0 = Some (rc, \<lambda>_. False)"
    "case rc of None \<Rightarrow> \<forall>q. reaches looping_heap 0 q \<longrightarrow> \<not> canBind (cell looping_heap q)
     | Some q \<Rightarrow> reaches looping_heap 0 q \<and> canBind (cell looping_heap q)"
    using ground_correct [OF cyclic_closed(1), of 0 2] cyclic_closed(2) by auto
  then show ?thesis using cyclic_reaches b by (cases rc) auto
qed

text \<open>
  The result of \<^theory_text>\<open>pushWorkAgenda\<close> is not looked at: without memory for the second work, the nested
  term is found to be ground.
\<close>

lemma ground_out_of_memory:
  "map_option fst (ground 1 nested_heap (\<lambda>_. False) 0) = Some None" "reaches nested_heap 0 21"
  "canBind (cell nested_heap 21)"
proof -
  show "map_option fst (ground 1 nested_heap (\<lambda>_. False) 0) = Some None" by code_simp
  have "reaches nested_heap 0 11"
    by (rule reaches.arg [OF reaches.self, of _ _ 10]) (auto simp: nested_heap_def args_def argTermP_def)
  then show "reaches nested_heap 0 21"
    by (rule reaches.arg [of _ _ _ 20]) (auto simp: nested_heap_def args_def argTermP_def)
  show "canBind (cell nested_heap 21)" by (simp add: nested_heap_def canBind_def isVar_def)
qed

section \<open>The occurs check\<close>

datatype occurs_rc = OCCURS_FALSE | OCCURS_TRUE | OCCURS_MEMORY_OVERFLOW

text \<open>The marks and the compounds that were marked, last first, on a stack with memory for \<open>vlimit\<close>.\<close>

type_synonym occurs_state = "marks \<times> addr list"

definition occurs_step :: "nat \<Rightarrow> heap \<Rightarrow> addr \<Rightarrow> occurs_state \<Rightarrow> addr \<Rightarrow> (occurs_state, occurs_rc \<times> occurs_state) walk_step option" where
  "occurs_step vlimit h v st t =
     (if v = t then Some (Stop (OCCURS_TRUE, st))
      else case cell h t of
        WTerm f \<Rightarrow>
          (case func h f of
             Some (Functor fd) \<Rightarrow>
               (if fst st f then Some (Go st)
                else if vlimit \<le> length (snd st) then Some (Stop (OCCURS_MEMORY_OVERFLOW, (fst st)(f := True), snd st))
                else Some (Into ((fst st)(f := True), f # snd st) (argTermP f 0) (arity fd)))
           | _ \<Rightarrow> None)
      | _ \<Rightarrow> Some (Go st))"

definition clear_visited :: "occurs_state \<Rightarrow> marks" where
  "clear_visited st = fold (\<lambda>f m. m(f := False)) (snd st) (fst st)"

text \<open>After a memory overflow the marks stay.\<close>

definition occurs_result :: "occurs_rc \<times> occurs_state + occurs_state \<Rightarrow> occurs_rc \<times> marks" where
  "occurs_result out =
     (case out of
        Inl (OCCURS_MEMORY_OVERFLOW, st) \<Rightarrow> (OCCURS_MEMORY_OVERFLOW, fst st)
      | Inl (rc, st) \<Rightarrow> (rc, clear_visited st)
      | Inr st \<Rightarrow> (OCCURS_FALSE, clear_visited st))"

definition var_occurs_in :: "nat \<Rightarrow> nat \<Rightarrow> heap \<Rightarrow> marks \<Rightarrow> addr \<Rightarrow> addr \<Rightarrow> (occurs_rc \<times> marks) option" where
  "var_occurs_in limit vlimit h m v t =
     (case deRef h t of
        None \<Rightarrow> None
      | Some t \<Rightarrow>
          (case cell h t of
             WTerm f \<Rightarrow>
               (case func h f of
                  Some (Functor fd) \<Rightarrow>
                    map_option occurs_result
                      (walk limit (\<lambda>st. Some (OCCURS_MEMORY_OVERFLOW, st)) h (occurs_step vlimit h v)
                        (m(f := True), [f]) [(argTermP f 0, arity fd)])
                | _ \<Rightarrow> None)
           | _ \<Rightarrow> Some (OCCURS_FALSE, m)))"

interpretation occurs_walk: marking_walk h "occurs_step vlimit h v" "\<lambda>st. {f. fst st f}" "\<lambda>_. True" for h vlimit v
  by unfold_locales
    (auto simp: occurs_step_def split: if_splits word.splits option.splits fword.splits)

definition visited_ok :: "occurs_state \<Rightarrow> bool" where
  "visited_ok st \<longleftrightarrow> distinct (snd st) \<and> (\<forall>f. fst st f \<longleftrightarrow> f \<in> set (snd st))"

lemma visited_step:
  assumes "occurs_step vlimit h v st p = Some (Go s1) \<or> occurs_step vlimit h v st p = Some (Into s1 a n)" "visited_ok st"
  shows "visited_ok s1"
  using assms(1)
proof
  assume "occurs_step vlimit h v st p = Some (Go s1)"
  then have "s1 = st" by (auto simp: occurs_step_def split: if_splits word.splits option.splits fword.splits)
  then show ?thesis using assms(2) by simp
next
  assume "occurs_step vlimit h v st p = Some (Into s1 a n)"
  then obtain f where "\<not> fst st f" "s1 = ((fst st)(f := True), f # snd st)"
    by (auto simp: occurs_step_def split: if_splits word.splits option.splits fword.splits)
  then show ?thesis using assms(2) by (auto simp: visited_ok_def)
qed

lemma visited_walked: "occurs_walk.walked h vlimit v S s vis s' \<Longrightarrow> visited_ok s \<Longrightarrow> visited_ok s'"
proof (induction rule: occurs_walk.walked.induct)
  case (some c p s s1 a n vis s')
  then show ?case using visited_step by blast
qed

lemma clear_visited: "\<forall>f. fst st f \<longleftrightarrow> f \<in> set (snd st) \<Longrightarrow> clear_visited st = (\<lambda>_. False)"
proof -
  have "fold (\<lambda>f m. m(f := False)) vs m = (\<lambda>f. m f \<and> f \<notin> set vs)" for vs and m :: marks
    by (induction vs arbitrary: m) auto
  then show "\<forall>f. fst st f \<longleftrightarrow> f \<in> set (snd st) \<Longrightarrow> clear_visited st = (\<lambda>_. False)" by (auto simp: clear_visited_def)
qed

lemma occurs_stop:
  assumes "occurs_step vlimit h v st t = Some (Stop r)" "visited_ok st" "{f. fst st f} \<subseteq> functors_in h S" "t \<in> S"
    "finite S" "card (functors_in h S) \<le> vlimit"
  shows "r = (OCCURS_TRUE, st) \<and> v = t"
proof (cases "v = t")
  case False
  then obtain f where f: "cell h t = WTerm f" "\<not> fst st f" "vlimit \<le> length (snd st)"
    using assms(1) by (auto simp: occurs_step_def split: if_splits word.splits option.splits fword.splits)
  then have "insert f {f. fst st f} \<subseteq> functors_in h S" using assms(3,4) by (auto simp: functors_in_def)
  then have "card (insert f {f. fst st f}) \<le> card (functors_in h S)" by (rule card_mono [OF finite_functors [OF assms(5)]])
  moreover have "{f. fst st f} = set (snd st)" using assms(2) by (auto simp: visited_ok_def)
  then have "card (insert f {f. fst st f}) = Suc (length (snd st))"
    using assms(2) f(2) distinct_card [of "snd st"] by (simp add: visited_ok_def)
  ultimately show ?thesis using f(3) assms(6) by simp
qed (use assms(1) in \<open>simp add: occurs_step_def\<close>)

text \<open>A compound and everything below its arguments.\<close>

definition below :: "heap \<Rightarrow> addr \<Rightarrow> addr set" where
  "below h f = {q. \<exists>p\<in>set (args h f). reaches h p q}"

lemma below_closed:
  assumes "closed_cells h S" "r \<in> S" "cell h r = WTerm f"
  shows "closed_cells h (below h f)" "closed_cells h (insert r (below h f))" "insert r (below h f) \<subseteq> S"
    "set (args h f) \<subseteq> below h f" "\<exists>fd. func h f = Some (Functor fd)"
proof -
  have fd: "\<exists>fd. func h f = Some (Functor fd)" "set (args h f) \<subseteq> S" using assms unfolding closed_cells_def by metis+
  show "closed_cells h (below h f)" unfolding below_def using closed_reaches [OF assms(1) fd(2)] by blast
  moreover show "set (args h f) \<subseteq> below h f" using reaches.self by (auto simp: below_def)
  moreover have "derefs h r r" using assms(3) by (simp add: derefs_self)
  ultimately show "closed_cells h (insert r (below h f))" using assms(3) fd(1) unfolding closed_cells_def by fastforce
  show "insert r (below h f) \<subseteq> S" using reaches_closed [OF _ assms(1)] fd(2) assms(2) by (auto simp: below_def)
qed (use assms in \<open>simp add: closed_cells_def\<close>)

text \<open>The walk below a compound that has been marked.\<close>

lemma occurs_walk_below:
  assumes S: "closed_cells h S" "r \<in> S" "cell h r = WTerm f" "func h f = Some (Functor fd)"
    and mem: "card (functors_in h S) < limit" "card (functors_in h S) \<le> vlimit" and v: "\<not> isRef (cell h v)"
  shows "\<exists>out s'. walk limit (\<lambda>st. Some (OCCURS_MEMORY_OVERFLOW, st)) h (occurs_step vlimit h v) ((\<lambda>_. False)(f := True), [f])
      [(argTermP f 0, arity fd)] = Some out \<and> visited_ok s' \<and>
    (case out of Inl res \<Rightarrow> res = (OCCURS_TRUE, s') \<and> v \<in> below h f | Inr s'' \<Rightarrow> s'' = s' \<and> v \<notin> below h f)"
proof -
  let ?A = "[(argTermP f 0, arity fd)]" and ?s = "((\<lambda>_. False)(f := True), [f])" and ?R = "insert r (below h f)"
  note b = below_closed [OF S(1-3)]
  have w: "occurs_walk.walkable h ?R" using b(2) by (simp add: occurs_walk.walkable_def)
  have A: "works_ok ?A" "cells ?A = args h f" using S(4) by (simp_all add: works_ok_def cells_def args_def)
  have sub: "set (cells ?A) \<subseteq> ?R" using A(2) b(4) by auto
  have F: "functors_in h ?R \<subseteq> functors_in h S" "finite (functors_in h S)" "finite S"
    using b(3) S(1) finite_functors by (auto simp: functors_in_def closed_cells_def)
  have lim: "card (functors_in h ?R) < limit" "card (functors_in h ?R) \<le> vlimit"
    using card_mono [OF F(2,1)] mem by simp_all
  have s: "{g. fst ?s g} = {f}" "visited_ok ?s" by (auto simp: visited_ok_def)
  have f: "f \<in> functors_in h ?R" using S(3) by (auto simp: functors_in_def)
  have c: "length ?A \<le> Suc (card {g. fst ?s g})" "{g. fst ?s g} \<subseteq> functors_in h ?R" using f unfolding s(1) by simp_all
  obtain out vis s' rest where W: "walk limit (\<lambda>st. Some (OCCURS_MEMORY_OVERFLOW, st)) h (occurs_step vlimit h v) ?s ?A = Some out"
    "occurs_walk.walked h vlimit v ?R ?s vis s'"
    "mset (cells ?A) + (\<Sum>g\<in>{g. fst s' g} - {g. fst ?s g}. mset (args h g)) = mset vis + mset rest"
    "case out of Inr s'' \<Rightarrow> s'' = s' \<and> rest = []
     | Inl r \<Rightarrow> \<exists>c p. c \<in> set rest \<and> c \<in> ?R \<and> derefs h c p \<and> occurs_step vlimit h v s' p = Some (Stop r)"
    using occurs_walk.walk_covers [OF w A(1) sub c lim(1), of "\<lambda>st. Some (OCCURS_MEMORY_OVERFLOW, st)"] by blast
  have ok: "visited_ok s'" by (rule visited_walked [OF W(2) s(2)])
  have mono: "{g. fst s' g} \<subseteq> functors_in h ?R" using occurs_walk.walked_mono [OF W(2) w] s(1) f by auto
  have "case out of Inl res \<Rightarrow> res = (OCCURS_TRUE, s') \<and> v \<in> below h f | Inr s'' \<Rightarrow> s'' = s' \<and> v \<notin> below h f"
  proof (cases out)
    case (Inl res)
    then obtain c p where c: "c \<in> set rest" "c \<in> ?R" "derefs h c p" "occurs_step vlimit h v s' p = Some (Stop res)"
      using W(4) by auto
    have "p \<in> ?R" by (rule occurs_walk.deref_in [OF w c(2,3)])
    then have res: "res = (OCCURS_TRUE, s')" "v = p"
      using occurs_stop [OF c(4) ok mono _ finite_subset [OF b(3) F(3)] lim(2)] by blast+
    have "c \<in># mset (cells ?A) + (\<Sum>g\<in>{g. fst s' g} - {g. fst ?s g}. mset (args h g))" using c(1) unfolding W(3) by simp
    moreover have "finite {g. fst s' g}" using ok by (simp add: visited_ok_def)
    ultimately consider "c \<in> set (args h f)" | g where "fst s' g" "g \<noteq> f" "c \<in> set (args h g)"
      using A(2) set_mset_sum [of "{g. fst s' g} - {g. fst ?s g}" "\<lambda>f. mset (args h f)"] by (auto split: if_splits)
    then have "c \<in> below h f"
    proof cases
      case 2
      then have "g \<in> functors_in h ?R" using mono by blast
      then obtain x where "x \<in> below h f" "cell h x = WTerm g" using S(3) 2(2) by (auto simp: functors_in_def)
      then show ?thesis using b(1) 2(3) unfolding closed_cells_def by blast
    qed (use b(4) in blast)
    then have "p \<in> below h f" using reaches.deref [OF _ c(3)] unfolding below_def by blast
    then show ?thesis using Inl res by simp
  next
    case (Inr s'')
    have all: "mset (cells ?A) + (\<Sum>g\<in>{g. fst s' g} - {g. fst ?s g}. mset (args h g)) = mset vis"
      using W(3,4) Inr by simp
    have "\<not> reaches h a v" if a: "a \<in> set (args h f)" for a
    proof
      assume "reaches h a v"
      moreover have "set (args h g) \<subseteq> set (cells ?A)" if "g \<in> {g. fst ?s g}" for g using that A(2) by (simp split: if_splits)
      moreover have "finite {g. fst ?s g}" "a \<in> set (cells ?A)" using a A(2) s(1) by simp_all
      ultimately obtain c where c: "c \<in> set vis" "c = v \<or> derefs h c v"
        using occurs_walk.walk_all [OF w W(2) all, of a v] by blast
      then have d: "derefs h c v" using v derefs.here by blast
      obtain s0 p s1 a n where "derefs h c p" "occurs_step vlimit h v s0 p = Some (Go s1) \<or> occurs_step vlimit h v s0 p = Some (Into s1 a n)"
        using occurs_walk.walked_step [OF W(2) c(1)] by blast
      then show False using derefs_unique [OF d] by (auto simp: occurs_step_def)
    qed
    then show ?thesis using W(4) Inr by (auto simp: below_def)
  qed
  then show ?thesis using W(1) ok by blast
qed

text \<open>C19: with memory for the works and the visited compounds, \<^theory_text>\<open>var_occurs_in\<close> takes back all marks
  and finds the cell exactly if it can be reached from an argument of the term, whatever cycles and
  sharing the term has.\<close>
theorem var_occurs_in_correct:
  assumes "closed_cells h S" "t \<in> S" "card (functors_in h S) < limit" "card (functors_in h S) \<le> vlimit"
    and "\<not> isRef (cell h v)"
  shows "var_occurs_in limit vlimit h (\<lambda>_. False) v t =
    Some (if \<exists>r f. derefs h t r \<and> cell h r = WTerm f \<and> (\<exists>a\<in>set (args h f). reaches h a v) then OCCURS_TRUE else OCCURS_FALSE, \<lambda>_. False)"
proof -
  obtain r where r: "r \<in> S" "derefs h t r" using assms(1,2) by (auto simp: closed_cells_def)
  have only: "(\<exists>r f. derefs h t r \<and> cell h r = WTerm f \<and> (\<exists>a\<in>set (args h f). reaches h a v)) \<longleftrightarrow>
      (\<exists>f. cell h r = WTerm f \<and> v \<in> below h f)"
  proof
    assume "\<exists>r f. derefs h t r \<and> cell h r = WTerm f \<and> (\<exists>a\<in>set (args h f). reaches h a v)"
    then obtain s f where s: "derefs h t s" "cell h s = WTerm f" "v \<in> below h f" by (auto simp: below_def)
    then show "\<exists>f. cell h r = WTerm f \<and> v \<in> below h f" using derefs_unique [OF r(2) s(1)] by blast
  qed (use r(2) in \<open>auto simp: below_def\<close>)
  have "var_occurs_in limit vlimit h (\<lambda>_. False) v t =
      Some (if \<exists>f. cell h r = WTerm f \<and> v \<in> below h f then OCCURS_TRUE else OCCURS_FALSE, \<lambda>_. False)"
  proof (cases "cell h r")
    case (WTerm f)
    obtain fd where fd: "func h f = Some (Functor fd)" using below_closed(5) [OF assms(1) r(1) WTerm] by blast
    obtain out s' where W: "walk limit (\<lambda>st. Some (OCCURS_MEMORY_OVERFLOW, st)) h (occurs_step vlimit h v)
        ((\<lambda>_. False)(f := True), [f]) [(argTermP f 0, arity fd)] = Some out" "visited_ok s'"
      "case out of Inl res \<Rightarrow> res = (OCCURS_TRUE, s') \<and> v \<in> below h f | Inr s'' \<Rightarrow> s'' = s' \<and> v \<notin> below h f"
      using occurs_walk_below [OF assms(1) r(1) WTerm fd assms(3-5)] by blast
    have "clear_visited s' = (\<lambda>_. False)" using W(2) clear_visited by (simp add: visited_ok_def)
    moreover have "var_occurs_in limit vlimit h (\<lambda>_. False) v t = Some (occurs_result out)"
      using W(1) derefs_deRef [OF r(2)] WTerm fd by (simp add: var_occurs_in_def)
    ultimately show ?thesis using W(3) WTerm by (cases out) (simp_all add: occurs_result_def)
  qed (use derefs_deRef [OF r(2)] in \<open>simp_all add: var_occurs_in_def\<close>)
  then show ?thesis by (simp only: only)
qed

theorem var_occurs_in_correct_witness:
  "var_occurs_in 2 1 looping_heap (\<lambda>_. False) 12 0 = Some (OCCURS_TRUE, \<lambda>_. False)"
proof -
  have "derefs looping_heap 0 0" "reaches looping_heap 12 12" "12 \<in> set (args looping_heap 10)"
    by (simp_all add: derefs_self looping_heap_def args_def argTermP_def reaches.self)
  then have "\<exists>r f. derefs looping_heap 0 r \<and> cell looping_heap r = WTerm f \<and> (\<exists>a\<in>set (args looping_heap f). reaches looping_heap a 12)"
    by (intro exI [of _ 0] exI [of _ 10]) (auto simp: looping_heap_def)
  then show ?thesis using var_occurs_in_correct [OF cyclic_closed(1), of 0 2 1 12] cyclic_closed(2)
    by (simp add: looping_heap_def)
qed

text \<open>Out of memory the compounds keep their marks.\<close>

lemma occurs_out_of_memory:
  "map_option (\<lambda>(rc, m). (rc, m 10, m 20)) (var_occurs_in 2 1 nested_heap (\<lambda>_. False) 100 0) =
     Some (OCCURS_MEMORY_OVERFLOW, True, True)"
  by code_simp

end
