(* ===== verification/PL_Trail.thy ===== *)
theory PL_Trail
  imports PL_Unify
begin

text \<open>
  Choice points (pl-incl.h, pl-wam.c): the marks of the trail and the global stack, undoing bindings
  and assignments back to a mark, and the backtrackable \<^theory_text>\<open>setarg/3\<close> of pl-prims.c. The
  top of the global stack is its end less the space that is free; the trail holds its entries, last
  first, one slot for an address and two for an assignment.
\<close>

section \<open>Marks\<close>

record choice_mark =
  trailtop :: nat
  globaltop :: addr
  saved_bar :: addr
  trail_space :: nat

definition gTop :: "addr \<Rightarrow> heap \<Rightarrow> addr" where
  "gTop gMax h = gMax - gfree h"

text \<open>\<open>trail_space\<close> is the space left on the trail, which the heap counts.\<close>

definition Mark :: "addr \<Rightarrow> heap \<Rightarrow> choice_mark \<times> heap" where
  "Mark gMax h =
     (\<lparr>trailtop = length (trail h), globaltop = gTop gMax h, saved_bar = mark_bar h, trail_space = tfree h\<rparr>,
      h\<lparr>mark_bar := gTop gMax h\<rparr>)"

definition DiscardMark :: "addr \<Rightarrow> choice_mark \<Rightarrow> heap \<Rightarrow> heap" where
  "DiscardMark frozen_bar m h = h\<lparr>mark_bar := max frozen_bar (saved_bar m)\<rparr>"

section \<open>Undoing\<close>

fun undo_entry :: "trail_entry \<Rightarrow> (addr \<Rightarrow> word) \<Rightarrow> (addr \<Rightarrow> word)" where
  "undo_entry (TAddress p) c = c(p := WVar)"
| "undo_entry (TAssign p old) c = c(p := old)"

fun undo_trail :: "nat \<Rightarrow> trail_entry list \<Rightarrow> (addr \<Rightarrow> word) \<Rightarrow> trail_entry list \<times> (addr \<Rightarrow> word)" where
  "undo_trail mt [] c = ([], c)"
| "undo_trail mt (e # es) c = (if mt \<le> length es then undo_trail mt es (undo_entry e c) else (e # es, c))"

text \<open>The attributed variables that are given up with the global stack are not chained here.\<close>

definition do_undo :: "addr \<Rightarrow> addr \<Rightarrow> choice_mark \<Rightarrow> heap \<Rightarrow> heap" where
  "do_undo gMax frozen_bar m h =
     (let (es, c) = undo_trail (trailtop m) (trail h) (cell h) in
      h\<lparr>cell := c, trail := es, tfree := trail_space m,
        gfree := gMax - (if globaltop m < frozen_bar then frozen_bar else globaltop m)\<rparr>)"

section \<open>Setting arguments\<close>

definition unify_vp :: "heap \<Rightarrow> addr \<Rightarrow> addr \<Rightarrow> heap option" where
  "unify_vp h vp val =
     (case deRef h val of
        None \<Rightarrow> None
      | Some val \<Rightarrow> Some (h\<lparr>cell :=
          (if isVar (cell h val) then
             (if val < vp then (cell h)(vp := WRef val)
              else if vp < val then (cell h)(vp := WVar, val := WRef vp)
              else (cell h)(vp := WVar))
           else if isAttVar (cell h val) then (cell h)(vp := WRef val)
           else (cell h)(vp := cell h val))\<rparr>))"

datatype setarg_rc = SETARG_TRUE | SETARG_FALSE | SETARG_TYPE_ERROR | SETARG_OVERFLOW unify_rc

text \<open>\<^theory_text>\<open>PL_get_name_arity\<close> takes atoms whose text can be read as compounds without arguments.\<close>

definition name_arity :: "(atom_t \<Rightarrow> bool) \<Rightarrow> heap \<Rightarrow> word \<Rightarrow> (atom_t \<times> nat) option" where
  "name_arity isTextAtom h w =
     (case w of
        WTerm f \<Rightarrow> (case func h f of Some (Functor fd) \<Rightarrow> Some (fname fd, arity fd) | _ \<Rightarrow> None)
      | WAtom a \<Rightarrow> (if isTextAtom a then Some (a, 0) else None)
      | _ \<Rightarrow> None)"

text \<open>
  \<^theory_text>\<open>setarg/3\<close> with its argument number read; when a stack is full the code would be called
  again after the stacks have grown.
\<close>

definition setarg :: "(atom_t \<Rightarrow> bool) \<Rightarrow> nat \<Rightarrow> heap \<Rightarrow> nat \<Rightarrow> addr \<Rightarrow> addr \<Rightarrow> (setarg_rc \<times> heap) option" where
  "setarg isTextAtom limit h argn term value =
     (if argn = 0 then Some (SETARG_FALSE, h)
      else case deRef h term of
        None \<Rightarrow> None
      | Some t \<Rightarrow>
          (case name_arity isTextAtom h (cell h t) of
             None \<Rightarrow> Some (SETARG_TYPE_ERROR, h)
           | Some (name, ar) \<Rightarrow>
               (if ar < argn then Some (SETARG_FALSE, h)
                else case cell h t of
                  WTerm f \<Rightarrow>
                    (let a = argTermP f (argn - 1) in
                     if isVar (cell h a) then
                       map_option (\<lambda>(rc, h). (case rc of UNIFY_TRUE \<Rightarrow> SETARG_TRUE | UNIFY_FALSE \<Rightarrow> SETARG_FALSE
                           | _ \<Rightarrow> SETARG_OVERFLOW rc, h)) (do_unify limit h value a)
                     else if \<not> hasGlobalSpace h 0 then Some (SETARG_OVERFLOW (overflowCode h 0), h)
                     else map_option (\<lambda>h. (SETARG_TRUE, h)) (unify_vp (TrailAssignment h a) a value))
                | _ \<Rightarrow> None)))"

section \<open>What can be undone\<close>

definition undo_all :: "trail_entry list \<Rightarrow> (addr \<Rightarrow> word) \<Rightarrow> (addr \<Rightarrow> word)" where
  "undo_all es = fold undo_entry es"


text \<open>
  A heap whose old cells, those older than the mark and those on the local stack, get their values of
  \<open>h0\<close> back from the trail.
\<close>

definition undoable :: "heap \<Rightarrow> heap \<Rightarrow> bool" where
  "undoable h0 h \<longleftrightarrow> lBase h = lBase h0 \<and> mark_bar h = mark_bar h0 \<and>
     (\<exists>es. trail h = es @ trail h0 \<and> (\<forall>p. trailed h0 p \<longrightarrow> undo_all es (cell h) p = cell h0 p))"


lemma undoable_refl [simp]: "undoable h h"
  by (auto simp: undoable_def undo_all_def)
















text \<open>\<open>f(a, X)\<close> with a variable newer than the compound.\<close>

definition choice_heap :: heap where
  "choice_heap = \<lparr>cell = (\<lambda>_. WVar)(0 := WTerm 10, 11 := WAtom 7), func = [10 \<mapsto> Functor \<lparr>fname = 5, arity = 2\<rparr>],
    ind = \<lambda>_. IInt64 0, mark_bar = 0, lBase = 100, gfree = 50, tfree = 50, trail = [], wakeup = []\<rparr>"

lemma undo_choice_heap:
  "map_option (\<lambda>(rc, h). (rc, let h' = do_undo 90 0 (fst (Mark 90 choice_heap)) h in (cell h' 11, cell h' 12)))
     (setarg (\<lambda>_. True) 5 (snd (Mark 90 choice_heap)) 1 0 12) = Some (SETARG_TRUE, WAtom 7, WRef 11)"
  by code_simp


end
