(* ===== verification/PL_Btree.thy ===== *)
theory PL_Btree
  imports PL_Compare "HOL-Library.Tree"
begin

text \<open>
  Search trees made of Prolog terms (pl-btree.c): \<^theory_text>\<open>$btree_find_node/5\<close> follows the left and
  right arguments of nodes with one functor by the standard order of terms. Its meaning is the search in
  an abstract tree of node addresses.
\<close>

section \<open>Finding a node\<close>

text \<open>The outcome: the node, and the atom that says how the key relates to it.\<close>

datatype btree_arg = ATOM_equals | ATOM_smaller | ATOM_larger

datatype btree_result = BtreeNode addr btree_arg | BtreeTypeError | BtreeCompareError

text \<open>The argument positions, from 0, in unsigned integers: \<open>256 * 256 * KeyPos + 256 * LeftPos + RightPos\<close>.\<close>

definition key_pos :: "32 Word.word \<Rightarrow> 32 Word.word" where "key_pos p = and (drop_bit 16 p) 0xff - 1"
definition left_pos :: "32 Word.word \<Rightarrow> 32 Word.word" where "left_pos p = and (drop_bit 8 p) 0xff - 1"
definition right_pos :: "32 Word.word \<Rightarrow> 32 Word.word" where "right_pos p = and p 0xff - 1"

partial_function (option) btree_loop :: "cmp_env \<Rightarrow> nat \<Rightarrow> nat \<Rightarrow> nat \<Rightarrow> nat \<Rightarrow> functor_t \<Rightarrow> addr \<Rightarrow> heap \<Rightarrow> addr \<Rightarrow> addr \<Rightarrow>
    (btree_result \<times> heap) option" where
  "btree_loop env limit kp lp rp fd k h t f =
     (case compareStandard env limit h k (argTermP f kp) False of
        None \<Rightarrow> None
      | Some (d, h) \<Rightarrow>
          (if d = CMP_ERROR then Some (BtreeCompareError, h)
           else if d = CMP_EQUAL then Some (BtreeNode t ATOM_equals, h)
           else let arg = (if d = CMP_LESS then lp else rp);
                    nomatch = Some (BtreeNode t (if arg = lp then ATOM_smaller else ATOM_larger), h) in
             (case deRef h (argTermP f arg) of
                None \<Rightarrow> None
              | Some n \<Rightarrow>
                  (case cell h n of
                     WTerm g \<Rightarrow>
                       (case func h g of
                          Some (Functor gd) \<Rightarrow> if gd \<noteq> fd then nomatch else btree_loop env limit kp lp rp fd k h n g
                        | _ \<Rightarrow> None)
                   | _ \<Rightarrow> nomatch))))"

declare btree_loop.simps [code]

definition btree_find_node :: "cmp_env \<Rightarrow> nat \<Rightarrow> heap \<Rightarrow> addr \<Rightarrow> addr \<Rightarrow> 32 Word.word \<Rightarrow> (btree_result \<times> heap) option" where
  "btree_find_node env limit h key tree p =
     (case (deRef h key, deRef h tree) of
        (Some k, Some t) \<Rightarrow>
          (case cell h t of
             WTerm f \<Rightarrow>
               (case func h f of
                  Some (Functor fd) \<Rightarrow>
                    (if arity fd < unat (key_pos p) \<or> arity fd < unat (left_pos p) \<or> arity fd < unat (right_pos p)
                     then Some (BtreeTypeError, h)
                     else btree_loop env limit (unat (key_pos p)) (unat (left_pos p)) (unat (right_pos p)) fd k h t f)
                | _ \<Rightarrow> None)
           | _ \<Rightarrow> Some (BtreeTypeError, h))
      | _ \<Rightarrow> None)"

section \<open>Search trees\<close>

text \<open>The tree of the nodes below a cell.\<close>

inductive btree_at :: "heap \<Rightarrow> functor_t \<Rightarrow> nat \<Rightarrow> nat \<Rightarrow> addr \<Rightarrow> addr tree \<Rightarrow> bool" for h fd lp rp where
  leaf: "derefs h n r \<Longrightarrow> \<not> isTerm (cell h r) \<Longrightarrow> btree_at h fd lp rp n Leaf"
| other: "derefs h n r \<Longrightarrow> cell h r = WTerm f \<Longrightarrow> func h f = Some (Functor gd) \<Longrightarrow> gd \<noteq> fd \<Longrightarrow> btree_at h fd lp rp n Leaf"
| node: "derefs h n r \<Longrightarrow> cell h r = WTerm f \<Longrightarrow> func h f = Some (Functor fd) \<Longrightarrow>
    btree_at h fd lp rp (argTermP f lp) l \<Longrightarrow> btree_at h fd lp rp (argTermP f rp) u \<Longrightarrow> btree_at h fd lp rp n (Node l r u)"

inductive_cases btree_LeafE: "btree_at h fd lp rp n Leaf"
inductive_cases btree_NodeE: "btree_at h fd lp rp n (Node l r u)"

text \<open>The search by the comparisons \<open>c\<close> of the key with the nodes.\<close>

fun find_node :: "(addr \<Rightarrow> int) \<Rightarrow> addr tree \<Rightarrow> addr \<Rightarrow> btree_arg \<Rightarrow> addr \<times> btree_arg" where
  "find_node c Leaf parent arg = (parent, arg)"
| "find_node c (Node l a r) _ _ =
     (if c a = CMP_EQUAL then (a, ATOM_equals)
      else if c a = CMP_LESS then find_node c l a ATOM_smaller
      else find_node c r a ATOM_larger)"

text \<open>The key of a node, and trees whose keys are in order around the search key.\<close>

definition node_key :: "heap \<Rightarrow> nat \<Rightarrow> addr \<Rightarrow> addr" where
  "node_key h kp n = (case cell h n of WTerm f \<Rightarrow> argTermP f kp | _ \<Rightarrow> n)"

definition around :: "(addr \<Rightarrow> int) \<Rightarrow> addr tree \<Rightarrow> bool" where
  "around c T \<longleftrightarrow> sorted_wrt (\<lambda>a b. c b < c a \<or> c a = c b \<and> c a \<noteq> CMP_EQUAL) (inorder T)"

text \<open>
  The leaf where the search ends is the place of the key: all nodes before it are smaller and all nodes
  after it are larger.
\<close>

definition insertion_point :: "(addr \<Rightarrow> int) \<Rightarrow> addr tree \<Rightarrow> addr \<Rightarrow> btree_arg \<Rightarrow> bool" where
  "insertion_point c T a arg \<longleftrightarrow> (\<exists>xs ys. inorder T = xs @ a # ys \<and>
     (\<forall>x\<in>set xs. c x = CMP_GREATER) \<and> (\<forall>y\<in>set ys. c y = CMP_LESS) \<and>
     c a = (if arg = ATOM_smaller then CMP_LESS else CMP_GREATER))"

lemma around_Node:
  assumes "around c (Node l a u)" "\<forall>n\<in>set_tree (Node l a u). c n \<in> {CMP_LESS, CMP_EQUAL, CMP_GREATER}"
  shows "around c l" "around c u"
    "c a = CMP_LESS \<Longrightarrow> y \<in> set_tree u \<Longrightarrow> c y = CMP_LESS"
    "c a = CMP_GREATER \<Longrightarrow> x \<in> set_tree l \<Longrightarrow> c x = CMP_GREATER"
proof -
  have s: "sorted_wrt (\<lambda>a b. c b < c a \<or> c a = c b \<and> c a \<noteq> CMP_EQUAL) (inorder l @ a # inorder u)"
    using assms(1) by (simp add: around_def)
  then show "around c l" "around c u" by (auto simp: around_def sorted_wrt_append)
  have v: "c n = -1 \<or> c n = 0 \<or> c n = 1" if "n \<in> set_tree (Node l a u)" for n using assms(2) that by (auto simp: cmp_consts)
  show "c y = CMP_LESS" if "c a = CMP_LESS" "y \<in> set_tree u"
  proof -
    have "c y < c a \<or> c a = c y" using s that(2) by (auto simp: sorted_wrt_append)
    then show ?thesis using v [of y] that by (auto simp: cmp_consts)
  qed
  show "c x = CMP_GREATER" if "c a = CMP_GREATER" "x \<in> set_tree l"
  proof -
    have "c a < c x \<or> c x = c a" using s that(2) by (auto simp: sorted_wrt_append)
    then show ?thesis using v [of x] that by (auto simp: cmp_consts)
  qed
qed

lemma find_node_correct:
  assumes "T \<noteq> Leaf" "around c T" "\<forall>n\<in>set_tree T. c n \<in> {CMP_LESS, CMP_EQUAL, CMP_GREATER}"
  shows "case find_node c T p arg of (n, r) \<Rightarrow>
    if \<exists>a\<in>set_tree T. c a = CMP_EQUAL then n \<in> set_tree T \<and> c n = CMP_EQUAL \<and> r = ATOM_equals
    else insertion_point c T n r"
  using assms
proof (induction T arbitrary: p arg)
  case (Node l a u)
  note ord = around_Node [OF Node.prems(2,3)]
  have ca: "c a \<in> {CMP_LESS, CMP_EQUAL, CMP_GREATER}" using Node.prems(3) by simp
  then consider (eq) "c a = CMP_EQUAL" | (less) "c a = CMP_LESS" | (greater) "c a = CMP_GREATER" by blast
  then show ?case
  proof cases
    case less
    have u: "\<forall>y\<in>set_tree u. c y = CMP_LESS" using ord(3) [OF less] by blast
    obtain n r where f: "find_node c l a ATOM_smaller = (n, r)" by fastforce
    show ?thesis
    proof (cases "l = Leaf")
      case True
      have "insertion_point c (Node l a u) a ATOM_smaller"
        using True less u unfolding insertion_point_def by (intro exI [of _ "[]"] exI [of _ "inorder u"]) auto
      then show ?thesis using True less u by (auto simp: cmp_consts)
    next
      case False
      have "\<forall>n\<in>set_tree l. c n \<in> {CMP_LESS, CMP_EQUAL, CMP_GREATER}" using Node.prems(3) by simp
      note IH = Node.IH(1) [OF False ord(1) this, of a ATOM_smaller, unfolded f prod.case]
      have "insertion_point c (Node l a u) n r" if ip: "insertion_point c l n r"
      proof -
        obtain xs ys where "inorder l = xs @ n # ys" "\<forall>x\<in>set xs. c x = CMP_GREATER" "\<forall>y\<in>set ys. c y = CMP_LESS"
          "c n = (if r = ATOM_smaller then CMP_LESS else CMP_GREATER)" using ip by (auto simp: insertion_point_def)
        then show ?thesis using less u unfolding insertion_point_def
          by (intro exI [of _ xs] exI [of _ "ys @ a # inorder u"]) auto
      qed
      then show ?thesis using IH less u f by (auto simp: cmp_consts split: if_splits)
    qed
  next
    case greater
    have l: "\<forall>x\<in>set_tree l. c x = CMP_GREATER" using ord(4) [OF greater] by blast
    obtain n r where f: "find_node c u a ATOM_larger = (n, r)" by fastforce
    show ?thesis
    proof (cases "u = Leaf")
      case True
      have "insertion_point c (Node l a u) a ATOM_larger"
        using True greater l unfolding insertion_point_def by (intro exI [of _ "inorder l"] exI [of _ "[]"]) auto
      then show ?thesis using True greater l by (auto simp: cmp_consts)
    next
      case False
      have "\<forall>n\<in>set_tree u. c n \<in> {CMP_LESS, CMP_EQUAL, CMP_GREATER}" using Node.prems(3) by simp
      note IH = Node.IH(2) [OF False ord(2) this, of a ATOM_larger, unfolded f prod.case]
      have "insertion_point c (Node l a u) n r" if ip: "insertion_point c u n r"
      proof -
        obtain xs ys where "inorder u = xs @ n # ys" "\<forall>x\<in>set xs. c x = CMP_GREATER" "\<forall>y\<in>set ys. c y = CMP_LESS"
          "c n = (if r = ATOM_smaller then CMP_LESS else CMP_GREATER)" using ip by (auto simp: insertion_point_def)
        then show ?thesis using greater l unfolding insertion_point_def
          by (intro exI [of _ "inorder l @ a # xs"] exI [of _ ys]) auto
      qed
      then show ?thesis using IH greater l f by (auto simp: cmp_consts split: if_splits)
    qed
  qed simp
qed simp

text \<open>The loop is the search in the tree of nodes.\<close>

definition key_compares :: "cmp_env \<Rightarrow> nat \<Rightarrow> heap \<Rightarrow> addr \<Rightarrow> nat \<Rightarrow> (addr \<Rightarrow> int) \<Rightarrow> addr set \<Rightarrow> bool" where
  "key_compares env limit h k kp c N \<longleftrightarrow>
     (\<forall>n\<in>N. c n \<in> {CMP_LESS, CMP_EQUAL, CMP_GREATER} \<and> compareStandard env limit h k (node_key h kp n) False = Some (c n, h))"

lemma btree_loop_find:
  assumes "lp \<noteq> rp" "btree_at h fd lp rp m (Node l t u)" "key_compares env limit h k kp c (set_tree (Node l t u))"
    and "cell h t = WTerm f"
  shows "btree_loop env limit kp lp rp fd k h t f =
    (case find_node c (Node l t u) p arg of (n, r) \<Rightarrow> Some (BtreeNode n r, h))"
  using assms(2-)
proof (induction "Node l t u" arbitrary: m l t u f p arg rule: measure_induct_rule [of size])
  case less
  have T: "btree_at h fd lp rp (argTermP f lp) l" "btree_at h fd lp rp (argTermP f rp) u"
    using less(2,4) by (auto elim: btree_NodeE)
  have c: "compareStandard env limit h k (argTermP f kp) False = Some (c t, h)"
    "c t \<in> {CMP_LESS, CMP_EQUAL, CMP_GREATER}" using less(3,4) by (simp_all add: key_compares_def node_key_def)
  have sub: "btree_loop env limit kp lp rp fd k h t f =
      (case find_node c s t side of (n, r) \<Rightarrow> Some (BtreeNode n r, h))"
    if s: "btree_at h fd lp rp (argTermP f arg) s" "s = l \<or> s = u" and a: "arg = (if c t = CMP_LESS then lp else rp)"
      "side = (if arg = lp then ATOM_smaller else ATOM_larger)" "c t \<noteq> CMP_EQUAL" for s arg side
    using s(1)
  proof (cases rule: btree_at.cases)
    case (node r g l' u')
    have "key_compares env limit h k kp c (set_tree s)" using less(3) s(2) by (auto simp: key_compares_def)
    then have "btree_loop env limit kp lp rp fd k h r g = (case find_node c s t side of (n, r) \<Rightarrow> Some (BtreeNode n r, h))"
      using less(1) [of l' r u' "argTermP f arg" g t side] s node by auto
    then show ?thesis using node c a
      by (subst btree_loop.simps) (auto simp: derefs_deRef Let_def cmp_consts CMP_ERROR_def)
  qed (use c a in \<open>subst btree_loop.simps; auto simp: derefs_deRef Let_def cmp_consts CMP_ERROR_def split: word.splits\<close>)+
  show ?case
  proof (cases "c t = CMP_EQUAL")
    case True
    then show ?thesis using c by (subst btree_loop.simps) (simp add: cmp_consts CMP_ERROR_def)
  next
    case False
    then show ?thesis using sub [OF T(1)] sub [OF T(2)] assms(1) by (auto simp: cmp_consts)
  qed
qed

section \<open>Properties\<close>

text \<open>C23: on a finite tree of nodes whose keys are in order around the search key,
  \<^theory_text>\<open>$btree_find_node/5\<close> returns and leaves the heap as it was; it finds the node with an equal
  key with the answer \<open>=\<close> if there is one, and otherwise the node and the side where a new node keeps
  the keys in order.\<close>
theorem btree_find_correct:
  assumes "derefs h key k" "btree_at h fd (unat (left_pos p)) (unat (right_pos p)) tree T" "T \<noteq> Leaf"
    and "unat (key_pos p) \<le> arity fd" "unat (left_pos p) \<le> arity fd" "unat (right_pos p) \<le> arity fd"
    and "unat (left_pos p) \<noteq> unat (right_pos p)"
    and "key_compares env limit h k (unat (key_pos p)) c (set_tree T)" "around c T"
  shows "\<exists>n arg. btree_find_node env limit h key tree p = Some (BtreeNode n arg, h) \<and>
    (if \<exists>a\<in>set_tree T. c a = CMP_EQUAL then n \<in> set_tree T \<and> c n = CMP_EQUAL \<and> arg = ATOM_equals
     else insertion_point c T n arg)"
proof -
  obtain l t u where T: "T = Node l t u" using assms(3) by (cases T) auto
  then obtain f where f: "derefs h tree t" "cell h t = WTerm f" "func h f = Some (Functor fd)"
    using assms(2) by (auto elim: btree_NodeE)
  obtain n arg where s: "find_node c T t ATOM_equals = (n, arg)" by fastforce
  have "btree_find_node env limit h key tree p = Some (BtreeNode n arg, h)"
    using btree_loop_find [OF assms(7,2) [unfolded T] assms(8) [unfolded T] f(2), of t ATOM_equals]
      derefs_deRef [OF assms(1)] derefs_deRef [OF f(1)] f(2,3) assms(4-6) s T
    by (simp add: btree_find_node_def)
  moreover have "\<forall>n\<in>set_tree T. c n \<in> {CMP_LESS, CMP_EQUAL, CMP_GREATER}" using assms(8) by (simp add: key_compares_def)
  ultimately show ?thesis using find_node_correct [OF assms(3,9), of t ATOM_equals] s by auto
qed

text \<open>\<open>t(2, t(1, -, -), -)\<close> with the keys at the first, the subtrees at the second and third argument.\<close>

definition tree_heap :: heap where
  "tree_heap = \<lparr>cell = (\<lambda>_. WAtom 7)(0 := WTerm 10, 11 := WInt 2, 12 := WTerm 20, 21 := WInt 1, 30 := WInt 1, 31 := WInt 3),
    func = [10 \<mapsto> Functor \<lparr>fname = 5, arity = 3\<rparr>, 20 \<mapsto> Functor \<lparr>fname = 5, arity = 3\<rparr>],
    ind = \<lambda>_. IInt64 0, mark_bar = 0, lBase = 100, gfree = 50, tfree = 50, trail = [], wakeup = []\<rparr>"

abbreviation tree_positions :: "32 Word.word" where "tree_positions \<equiv> 0x010203"

lemma tree_positions: "key_pos tree_positions = 0" "left_pos tree_positions = 1" "right_pos tree_positions = 2"
  by (simp_all add: key_pos_def left_pos_def right_pos_def)

theorem btree_find_correct_witness:
  "btree_find_node sample_env 5 tree_heap 30 0 tree_positions = Some (BtreeNode 12 ATOM_equals, tree_heap)"
proof -
  let ?c = "\<lambda>n. if n = 0 then CMP_LESS else CMP_EQUAL" and ?T = "Node (Node Leaf 12 Leaf) 0 Leaf"
  have d: "derefs tree_heap n n" for n by (rule derefs.here) (simp add: tree_heap_def)
  have "btree_at tree_heap \<lparr>fname = 5, arity = 3\<rparr> 1 2 12 (Node Leaf 12 Leaf)"
    by (rule btree_at.node [OF d, of _ 20]) (auto simp: tree_heap_def argTermP_def intro!: btree_at.leaf [OF d [unfolded tree_heap_def]])
  then have "btree_at tree_heap \<lparr>fname = 5, arity = 3\<rparr> 1 2 0 ?T"
    by (intro btree_at.node [OF d, of _ 10])
      (auto simp: tree_heap_def argTermP_def intro!: btree_at.leaf [OF d [unfolded tree_heap_def]])
  moreover have "key_compares sample_env 5 tree_heap 30 0 ?c (set_tree ?T)"
    by (auto simp: key_compares_def node_key_def argTermP_def compareStandard_def deRef.simps compare_primitives_def isVar_def
        tree_heap_def sample_env_def bits_host_def Let_def get_integer_def cmpNumbers_def cmp_same_def word_sless_alt cmp_consts CMP_COMPOUND_def)
  moreover have "around ?c ?T" by (simp add: around_def cmp_consts)
  moreover note btree_find_correct [where key = 30 and k = 30 and fd = "\<lparr>fname = 5, arity = 3\<rparr>" and p = tree_positions
      and tree = 0 and T = ?T and env = sample_env and limit = 5 and c = ?c, OF d]
  ultimately have "\<exists>n. btree_find_node sample_env 5 tree_heap 30 0 tree_positions = Some (BtreeNode n ATOM_equals, tree_heap) \<and>
      (n = 0 \<or> n = 12) \<and> ?c n = CMP_EQUAL"
    by (simp add: tree_positions cmp_consts)
  then show ?thesis by (auto simp: cmp_consts)
qed

text \<open>
  The positions start from 0 but are tested against the arity as if they started from 1: with a key
  position of 4, the cell behind the compound with three arguments is compared.
\<close>

lemma btree_position_overread:
  "map_option fst (btree_find_node sample_env 5 (tree_heap\<lparr>cell := (cell tree_heap)(14 := WInt 1)\<rparr>) 30 0 0x040203) =
     Some (BtreeNode 0 ATOM_equals)"
  by (simp add: btree_find_node_def btree_loop.simps deRef.simps tree_heap_def key_pos_def left_pos_def right_pos_def
      compareStandard_def compare_primitives_def isVar_def argTermP_def Let_def cmp_consts CMP_COMPOUND_def CMP_ERROR_def)

text \<open>
  The comparison function of a blob type may return any negative number; its result is taken as that of
  the standard order, where -2 is an error.
\<close>

definition blob_env :: cmp_env where
  "blob_env = sample_env\<lparr>atoms := (text_table (\<lambda>a. [a]))\<lparr>bcompare := \<lambda>_. Some (\<lambda>a b. int a - int b)\<rparr>\<rparr>"

lemma blob_comparison_is_error:
  "map_option fst (compareStandard blob_env 5 (tree_heap\<lparr>cell := (\<lambda>_. WAtom 4)(1 := WAtom 6)\<rparr>) 0 1 False) = Some CMP_ERROR"
  by (simp add: compareStandard_def compare_primitives_def deRef.simps blob_env_def sample_env_def text_table_def
      compareAtoms_def Let_def CMP_COMPOUND_def CMP_ERROR_def)

end
