(* ===== verification/PL_Dict.thy ===== *)
theory PL_Dict
  imports PL_Trail PL_Compare
begin

text \<open>
  Dicts (pl-dict.c): compounds whose arguments after the tag are values and keys in turn, ordered by the
  machine words of the keys. Modelled are the test for dicts, the look-up by binary search, and adding
  and deleting keys, which write a new compound on top of the global stack. The number of a key's word
  is a parameter; the comparison of values with \<^theory_text>\<open>compareStandard\<close> leaves the heap as it was.
\<close>

section \<open>Keys and values\<close>

record dict_env =
  wbits :: "word \<Rightarrow> nat"
  ATOM_dict :: atom_t
  dict_cmp :: cmp_env

definition is_key :: "word \<Rightarrow> bool" where
  "is_key w = (case w of WAtom _ \<Rightarrow> True | WInt _ \<Rightarrow> True | _ \<Rightarrow> False)"

text \<open>The key word at the end of references, and the word that stands for a value in another compound.\<close>

definition deRef2 :: "heap \<Rightarrow> addr \<Rightarrow> word option" where
  "deRef2 h p = map_option (cell h) (deRef h p)"

definition linkVal :: "heap \<Rightarrow> addr \<Rightarrow> word option" where
  "linkVal h p = map_option (\<lambda>q. if canBind (cell h q) then WRef q else cell h q) (deRef h p)"

definition dict_functor :: "dict_env \<Rightarrow> nat \<Rightarrow> functor_t" where
  "dict_functor E pairs = \<lparr>fname = ATOM_dict E, arity = pairs * 2 + 1\<rparr>"

definition store :: "heap \<Rightarrow> addr \<Rightarrow> word \<Rightarrow> heap" where
  "store h p w = h\<lparr>cell := (cell h)(p := w)\<rparr>"

section \<open>Testing\<close>

text \<open>The return values \<^theory_text>\<open>TRUE\<close>, \<^theory_text>\<open>FALSE\<close>, \<open>-1\<close> and \<open>-2\<close>.\<close>

datatype ordered_rc = ORDERED | UNORDERED | NOT_A_KEY | DUPLICATE_KEY

text \<open>\<open>data\<close> is the key behind the one with the word \<open>k1\<close>; \<open>count\<close> keys are left.\<close>

fun ordered_loop :: "dict_env \<Rightarrow> heap \<Rightarrow> word \<Rightarrow> addr \<Rightarrow> nat \<Rightarrow> ordered_rc \<Rightarrow> ordered_rc option" where
  "ordered_loop E h k1 data 0 ordered = Some ordered"
| "ordered_loop E h k1 data (Suc count) ordered =
     (case deRef2 h data of
        None \<Rightarrow> None
      | Some k2 \<Rightarrow>
          (if \<not> is_key k2 then Some NOT_A_KEY
           else if wbits E k1 < wbits E k2 then ordered_loop E h k2 (data + 2) count ordered
           else if wbits E k2 < wbits E k1 then ordered_loop E h k2 (data + 2) count UNORDERED
           else Some DUPLICATE_KEY))"

definition dict_ordered :: "dict_env \<Rightarrow> heap \<Rightarrow> addr \<Rightarrow> nat \<Rightarrow> ordered_rc option" where
  "dict_ordered E h data count =
     (if count = 0 then Some ORDERED
      else case deRef2 h (data + 1) of
        None \<Rightarrow> None
      | Some k1 \<Rightarrow> (if \<not> is_key k1 then Some NOT_A_KEY else ordered_loop E h k1 (data + 3) (count - 1) ORDERED))"

definition PL_is_dict :: "dict_env \<Rightarrow> heap \<Rightarrow> addr \<Rightarrow> bool option" where
  "PL_is_dict E h t =
     (case deRef h t of
        None \<Rightarrow> None
      | Some p \<Rightarrow>
          (case cell h p of
             WTerm f \<Rightarrow>
               (case func h f of
                  Some (Functor fd) \<Rightarrow>
                    (if fname fd = ATOM_dict E \<and> arity fd mod 2 = 1
                     then map_option (\<lambda>rc. rc = ORDERED) (dict_ordered E h (argTermP f 1) (arity fd div 2))
                     else Some False)
                | _ \<Rightarrow> None)
           | _ \<Rightarrow> Some False))"

section \<open>Looking up\<close>

partial_function (option) lookup_loop :: "dict_env \<Rightarrow> heap \<Rightarrow> addr \<Rightarrow> word \<Rightarrow> nat \<Rightarrow> nat \<Rightarrow> addr option option" where
  "lookup_loop E h f name l u =
     (let m = (l + u) div 2 in
      case deRef h (argTermP f (m * 2)) of
        None \<Rightarrow> None
      | Some p \<Rightarrow>
          (if cell h p = name then Some (Some (p - 1))
           else if l = u then Some None
           else if wbits E (cell h p) < wbits E name then lookup_loop E h f name (m + 1) u
           else if m = l then lookup_loop E h f name l m
           else lookup_loop E h f name l (m - 1)))"

declare lookup_loop.simps [code]

text \<open>The address of the value; the outer option is \<open>None\<close> where an assertion fails.\<close>

definition dict_lookup_ptr :: "dict_env \<Rightarrow> heap \<Rightarrow> word \<Rightarrow> word \<Rightarrow> addr option option" where
  "dict_lookup_ptr E h dict name =
     (case dict of
        WTerm f \<Rightarrow>
          (case func h f of
             Some (Functor fd) \<Rightarrow>
               (if arity fd = 1 then Some None
                else if arity fd mod 2 \<noteq> 1 then None
                else lookup_loop E h f name 1 (arity fd div 2))
           | _ \<Rightarrow> None)
      | _ \<Rightarrow> None)"

section \<open>Adding keys\<close>

definition assign_in_dict :: "heap \<Rightarrow> addr \<Rightarrow> addr \<Rightarrow> (unify_rc + heap) option" where
  "assign_in_dict h dp val =
     (case deRef h val of
        None \<Rightarrow> None
      | Some val \<Rightarrow>
          (if \<not> canBind (cell h val) then Some (Inr (store h dp (cell h val)))
           else if isAttVar (cell h val) then Some (Inr (store h dp (WRef val)))
           else if dp < val then
             (if tfree h \<le> 1 then Some (Inl TRAIL_OVERFLOW) else Some (Inr (Trail (store h dp WVar) val (WRef dp))))
           else Some (Inr (store h dp (WRef val)))))"

text \<open>
  The pairs left in the dict and in the new values, the place for the next pair and whether the
  result differs from the dict.
\<close>

record put_state =
  pheap :: heap
  pout :: addr
  pin :: addr
  pin_left :: nat
  pnv :: addr
  pnv_left :: nat
  modified :: bool

definition put_pair :: "put_state \<Rightarrow> addr \<Rightarrow> word \<Rightarrow> (unify_rc + put_state) option" where
  "put_pair s val name =
     map_option (map_sum id (\<lambda>h. s\<lparr>pheap := store h (pout s + 1) name, pout := pout s + 2\<rparr>))
       (assign_in_dict (pheap s) (pout s) val)"

definition link_pair :: "put_state \<Rightarrow> addr \<Rightarrow> word \<Rightarrow> put_state option" where
  "link_pair s val name =
     map_option (\<lambda>v. s\<lparr>pheap := store (store (pheap s) (pout s) v) (pout s + 1) name, pout := pout s + 2\<rparr>)
       (linkVal (pheap s) val)"

definition next_in :: "put_state \<Rightarrow> put_state" where
  "next_in s = s\<lparr>pin := pin s + 2, pin_left := pin_left s - 1\<rparr>"

definition next_nv :: "put_state \<Rightarrow> put_state" where
  "next_nv s = s\<lparr>pnv := pnv s + 2, pnv_left := pnv_left s - 1\<rparr>"

text \<open>One round of the merge: an error, or the next state.\<close>

definition merge_round :: "dict_env \<Rightarrow> nat \<Rightarrow> put_state \<Rightarrow> (unify_rc + put_state) option" where
  "merge_round E limit s =
     (case (deRef2 (pheap s) (pin s + 1), deRef2 (pheap s) (pnv s + 1)) of
        (Some i_name, Some n_name) \<Rightarrow>
          (if i_name = n_name then
             (case put_pair s (pnv s) i_name of
                Some (Inr s1) \<Rightarrow>
                  (if modified s1 then Some (Inr (next_nv (next_in s1)))
                   else case compareStandard (dict_cmp E) limit (pheap s1) (pnv s1) (pin s1) True of
                     None \<Rightarrow> None
                   | Some (rc, h) \<Rightarrow> Some (Inr (next_nv (next_in (s1\<lparr>pheap := h, modified := rc \<noteq> 0\<rparr>)))))
              | res \<Rightarrow> res)
           else if wbits E i_name < wbits E n_name then map_option (\<lambda>s. Inr (next_in s)) (link_pair s (pin s) i_name)
           else map_option (map_sum id (\<lambda>s. next_nv (s\<lparr>modified := True\<rparr>))) (put_pair s (pnv s) n_name))
      | _ \<Rightarrow> None)"

function merge_loop :: "dict_env \<Rightarrow> nat \<Rightarrow> nat \<Rightarrow> put_state \<Rightarrow> (unify_rc + put_state) option" where
  "merge_loop E limit 0 s = None"
| "merge_loop E limit (Suc fuel) s =
     (if 0 < pin_left s \<and> 0 < pnv_left s then
        (case merge_round E limit s of Some (Inr s) \<Rightarrow> merge_loop E limit fuel s | res \<Rightarrow> res)
      else Some (Inr s))"
  by pat_completeness auto
termination by size_change

fun copy_in :: "nat \<Rightarrow> put_state \<Rightarrow> put_state option" where
  "copy_in 0 s = Some s"
| "copy_in (Suc n) s =
     (case deRef2 (pheap s) (pin s + 1) of
        None \<Rightarrow> None
      | Some i_name \<Rightarrow> (case link_pair s (pin s) i_name of None \<Rightarrow> None | Some s \<Rightarrow> copy_in n (next_in s)))"

fun copy_nv :: "nat \<Rightarrow> put_state \<Rightarrow> (unify_rc + put_state) option" where
  "copy_nv 0 s = Some (Inr s)"
| "copy_nv (Suc n) s =
     (case deRef2 (pheap s) (pnv s + 1) of
        None \<Rightarrow> None
      | Some n_name \<Rightarrow> (case put_pair s (pnv s) n_name of Some (Inr s) \<Rightarrow> copy_nv n (next_nv s) | res \<Rightarrow> res))"

text \<open>The tag and the functor cell of the new compound, whose pairs end at \<open>out\<close>.\<close>

definition close_dict :: "dict_env \<Rightarrow> addr \<Rightarrow> heap \<Rightarrow> addr \<Rightarrow> addr \<Rightarrow> addr \<Rightarrow> (word \<times> heap) option" where
  "close_dict E gMax h new out tagp =
     map_option (\<lambda>tag. (WTerm new, (store h (new + 1) tag)\<lparr>gfree := gMax - out,
         func := (func h)(new := Some (Functor (dict_functor E ((out - (new + 1)) div 2))))\<rparr>))
       (linkVal h tagp)"

definition put_dict :: "dict_env \<Rightarrow> nat \<Rightarrow> addr \<Rightarrow> heap \<Rightarrow> word \<Rightarrow> nat \<Rightarrow> addr \<Rightarrow> (unify_rc + word \<times> heap) option" where
  "put_dict E limit gMax h dict count nv =
     (case dict of
        WTerm f \<Rightarrow>
          (case func h f of
             Some (Functor fd) \<Rightarrow>
               (let new = gTop gMax h in
                if arity fd mod 2 \<noteq> 1 then None
                else if count = 0 then Some (Inr (dict, h))
                else if gMax < new + 1 + arity fd + 2 * count then Some (Inl GLOBAL_OVERFLOW)
                else
                  (case merge_loop E limit (arity fd + count)
                      \<lparr>pheap = h, pout = new + 2, pin = argTermP f 1, pin_left = arity fd div 2, pnv = nv, pnv_left = count,
                       modified = False\<rparr> of
                     Some (Inr s) \<Rightarrow>
                       (if pnv_left s = 0 then
                          (if \<not> modified s then Some (Inr (dict, pheap s))
                           else case copy_in (pin_left s) s of
                             None \<Rightarrow> None
                           | Some s \<Rightarrow> map_option Inr (close_dict E gMax (pheap s) new (pout s) (argTermP f 0)))
                        else
                          (case copy_nv (pnv_left s) s of
                             Some (Inr s) \<Rightarrow> map_option Inr (close_dict E gMax (pheap s) new (pout s) (argTermP f 0))
                           | Some (Inl rc) \<Rightarrow> Some (Inl rc)
                           | None \<Rightarrow> None))
                   | Some (Inl rc) \<Rightarrow> Some (Inl rc)
                   | None \<Rightarrow> None))
           | _ \<Rightarrow> None)
      | _ \<Rightarrow> None)"

section \<open>Deleting a key\<close>

fun delete_loop :: "word \<Rightarrow> nat \<Rightarrow> put_state \<Rightarrow> put_state option" where
  "delete_loop key 0 s = Some s"
| "delete_loop key (Suc n) s =
     (case deRef2 (pheap s) (pin s + 1) of
        None \<Rightarrow> None
      | Some i_name \<Rightarrow>
          (if i_name \<noteq> key then
             (case link_pair s (pin s) i_name of None \<Rightarrow> None | Some s \<Rightarrow> delete_loop key n (next_in s))
           else delete_loop key n (next_in s)))"

definition del_dict :: "dict_env \<Rightarrow> addr \<Rightarrow> heap \<Rightarrow> word \<Rightarrow> word \<Rightarrow> (unify_rc + word \<times> heap) option" where
  "del_dict E gMax h dict key =
     (case dict of
        WTerm f \<Rightarrow>
          (case func h f of
             Some (Functor fd) \<Rightarrow>
               (let new = gTop gMax h in
                if arity fd mod 2 \<noteq> 1 then None
                else if int gMax < int new + 1 + int (arity fd) - 2 then Some (Inl GLOBAL_OVERFLOW)
                else
                  (case delete_loop key (arity fd div 2)
                      \<lparr>pheap = h, pout = new + 2, pin = argTermP f 1, pin_left = arity fd div 2, pnv = 0, pnv_left = 0,
                       modified = False\<rparr> of
                     None \<Rightarrow> None
                   | Some s \<Rightarrow> map_option Inr (close_dict E gMax (pheap s) new (pout s) (argTermP f 0))))
           | _ \<Rightarrow> None)
      | _ \<Rightarrow> None)"

section \<open>Dicts as lists of pairs\<close>

text \<open>The pairs of values and keys at an address, and old cells, those below the top of the stack.\<close>

fun entries :: "heap \<Rightarrow> addr \<Rightarrow> (word \<times> word) list \<Rightarrow> bool" where
  "entries h a [] \<longleftrightarrow> True"
| "entries h a ((v, k) # kvs) \<longleftrightarrow> linkVal h a = Some v \<and> deRef2 h (a + 1) = Some k \<and> is_key k \<and> entries h (a + 2) kvs"

definition old_ok :: "heap \<Rightarrow> addr \<Rightarrow> bool" where
  "old_ok h lim \<longleftrightarrow> (\<forall>p<lim. \<forall>q. cell h p = WRef q \<longrightarrow> q < lim)"

definition agrees :: "addr \<Rightarrow> heap \<Rightarrow> heap \<Rightarrow> bool" where
  "agrees lim h h' \<longleftrightarrow> (\<forall>p<lim. cell h' p = cell h p)"

lemma agrees_refl [simp]: "agrees lim h h"
  by (simp add: agrees_def)

lemma agrees_store: "agrees lim h h' \<Longrightarrow> lim \<le> p \<Longrightarrow> agrees lim h (store h' p w)"
  by (auto simp: agrees_def store_def)

lemma store_sel [simp]:
  "cell (store h p w) = (cell h)(p := w)" "func (store h p w) = func h" "gfree (store h p w) = gfree h"
  "ind (store h p w) = ind h"
  by (simp_all add: store_def)

lemma derefs_old: "derefs h p r \<Longrightarrow> old_ok h lim \<Longrightarrow> p < lim \<Longrightarrow> agrees lim h h' \<Longrightarrow> derefs h' p r \<and> r < lim"
proof (induction rule: derefs.induct)
  case (here p)
  then show ?case by (auto simp: agrees_def intro: derefs.here)
next
  case (step p q r)
  then have "q < lim" "cell h' p = WRef q" by (auto simp: old_ok_def agrees_def)
  then show ?case using step by (auto intro: derefs.step)
qed

text \<open>The words a new compound gets as values.\<close>

definition value_word :: "heap \<Rightarrow> addr \<Rightarrow> word \<Rightarrow> bool" where
  "value_word h lim v \<longleftrightarrow> (case v of WRef q \<Rightarrow> q < lim \<and> canBind (cell h q) | _ \<Rightarrow> \<not> canBind v)"

lemma link_old:
  assumes "old_ok h lim" "p < lim" "linkVal h p = Some v" "agrees lim h h'"
  shows "linkVal h' p = Some v" "value_word h lim v"
    "\<exists>q<lim. deRef h' p = Some q \<and> cell h' q = cell h q \<and> \<not> isRef (cell h q) \<and> v = (if canBind (cell h q) then WRef q else cell h q)"
proof -
  obtain q where q: "derefs h p q" "v = (if canBind (cell h q) then WRef q else cell h q)"
    using assms(3) by (auto simp: linkVal_def deRef_iff)
  note o = derefs_old [OF q(1) assms(1,2,4)]
  have c: "cell h' q = cell h q" using conjunct2 [OF o] assms(4) by (simp add: agrees_def)
  show "linkVal h' p = Some v" using derefs_deRef [OF conjunct1 [OF o]] q(2) c by (simp add: linkVal_def)
  show "value_word h lim v" using q(2) o derefs_end [OF q(1)] by (cases "cell h q") (auto simp: value_word_def)
  show "\<exists>q<lim. deRef h' p = Some q \<and> cell h' q = cell h q \<and> \<not> isRef (cell h q) \<and> v = (if canBind (cell h q) then WRef q else cell h q)"
    using derefs_deRef [OF conjunct1 [OF o]] conjunct2 [OF o] q(2) c derefs_end [OF q(1)] by simp
qed

lemma deRef2_old:
  assumes "old_ok h lim" "p < lim" "deRef2 h p = Some k" "agrees lim h h'"
  shows "deRef2 h' p = Some k"
proof -
  obtain q where q: "derefs h p q" "k = cell h q" using assms(3) by (auto simp: deRef2_def deRef_iff)
  note o = derefs_old [OF q(1) assms(1,2,4)]
  show ?thesis using derefs_deRef [OF conjunct1 [OF o]] conjunct2 [OF o] q(2) assms(4) by (simp add: deRef2_def agrees_def)
qed

lemma entries_old: "entries h a kvs \<Longrightarrow> old_ok h lim \<Longrightarrow> a + 2 * length kvs \<le> lim \<Longrightarrow> agrees lim h h' \<Longrightarrow> entries h' a kvs"
  by (induction h a kvs rule: entries.induct) (auto intro: link_old(1) deRef2_old)

text \<open>Writing pairs on top of the stack.\<close>

fun write_pairs :: "heap \<Rightarrow> addr \<Rightarrow> (word \<times> word) list \<Rightarrow> heap" where
  "write_pairs h out [] = h"
| "write_pairs h out ((v, k) # kvs) = write_pairs (store (store h out v) (out + 1) k) (out + 2) kvs"

lemma write_append: "write_pairs h out (kvs @ nvs) = write_pairs (write_pairs h out kvs) (out + 2 * length kvs) nvs"
  by (induction h out kvs rule: write_pairs.induct) simp_all

lemma write_agrees: "agrees lim h h' \<Longrightarrow> lim \<le> out \<Longrightarrow> agrees lim h (write_pairs h' out kvs)"
  by (induction h' out kvs rule: write_pairs.induct) (simp_all add: agrees_store)

lemma write_sel: "func (write_pairs h out kvs) = func h" "ind (write_pairs h out kvs) = ind h" "gfree (write_pairs h out kvs) = gfree h"
  "p < out \<or> out + 2 * length kvs \<le> p \<Longrightarrow> cell (write_pairs h out kvs) p = cell h p"
  by (induction h out kvs rule: write_pairs.induct) auto

lemma link_written:
  assumes "agrees lim h h'" "value_word h lim v" "cell h' p = v"
  shows "linkVal h' p = Some v"
proof (cases "isRef v")
  case True
  then obtain q where q: "v = WRef q" "q < lim" "canBind (cell h q)" using assms(2) by (cases v) (auto simp: value_word_def)
  then have c: "cell h' q = cell h q" using assms(1) by (simp add: agrees_def)
  have self: "derefs h' q q" using q(3) c by (intro derefs.here) (cases "cell h q"; simp add: canBind_def isVar_def)
  have "derefs h' p q" by (rule derefs.step [OF _ self]) (simp add: assms(3) q(1))
  from derefs_deRef [OF this] show ?thesis using q c by (simp add: linkVal_def)
next
  case False
  then have "derefs h' p p" using assms(3) by (intro derefs.here) simp
  moreover have "\<not> canBind v" using assms(2) False by (cases v) (auto simp: value_word_def)
  ultimately show ?thesis using assms(3) derefs_deRef by (simp add: linkVal_def)
qed

lemma entries_written:
  assumes "old_ok h lim" "agrees lim h h'" "lim \<le> out" "\<forall>(v, k)\<in>set kvs. value_word h lim v \<and> is_key k"
    and "\<forall>p. out \<le> p \<and> p < out + 2 * length kvs \<longrightarrow> cell h' p = cell (write_pairs h'' out kvs) p"
  shows "entries h' out kvs"
  using assms(3-5)
proof (induction kvs arbitrary: out h'')
  case (Cons vk kvs)
  obtain v k where vk: "vk = (v, k)" by (cases vk)
  have g: "value_word h lim v" "is_key k" using Cons.prems(2) vk by auto
  have cells: "cell h' out = v" "cell h' (out + 1) = k"
    using Cons.prems(3) [rule_format, of out] Cons.prems(3) [rule_format, of "out + 1"] by (simp_all add: vk write_sel(4))
  have "entries h' (out + 2) kvs"
    using Cons.prems by (intro Cons.IH [of _ "store (store h'' out v) (out + 1) k"]) (auto simp: vk)
  moreover have "deRef2 h' (out + 1) = Some k"
  proof -
    have "derefs h' (out + 1) (out + 1)" using g(2) cells(2) by (intro derefs.here) (auto simp: is_key_def split: word.splits)
    from derefs_deRef [OF this] show ?thesis using cells(2) by (simp add: deRef2_def)
  qed
  moreover have "linkVal h' out = Some v" by (rule link_written [OF assms(2) g(1) cells(1)])
  ultimately show ?case using g(2) by (simp add: vk)
qed simp

section \<open>Testing and looking up\<close>

definition ordered_keys :: "dict_env \<Rightarrow> (word \<times> word) list \<Rightarrow> bool" where
  "ordered_keys E kvs \<longleftrightarrow> sorted_wrt (<) (map (wbits E \<circ> snd) kvs)"

lemma ordered_keys_Cons: "ordered_keys E ((v, k) # kvs) \<longleftrightarrow> (\<forall>(w, j)\<in>set kvs. wbits E k < wbits E j) \<and> ordered_keys E kvs"
  by (auto simp: ordered_keys_def)

lemma ordered_loop_entries:
  "entries h a kvs \<Longrightarrow> ordered_keys E ((v, k) # kvs) \<Longrightarrow>
   ordered_loop E h k (Suc a) (length kvs) rc = Some rc"
  by (induction kvs arbitrary: a k v) (auto simp: ordered_keys_Cons)

lemma dict_ordered_entries: "entries h a kvs \<Longrightarrow> ordered_keys E kvs \<Longrightarrow> dict_ordered E h a (length kvs) = Some ORDERED"
proof (cases kvs)
  case (Cons vk list)
  assume e: "entries h a kvs" "ordered_keys E kvs"
  obtain v k where vk: "vk = (v, k)" by (cases vk)
  have "ordered_loop E h k (Suc (a + 2)) (length list) ORDERED = Some ORDERED"
    by (rule ordered_loop_entries) (use e Cons vk in simp_all)
  then show ?thesis using e(1) Cons vk by (simp add: dict_ordered_def eval_nat_numeral)
qed (simp add: dict_ordered_def)

text \<open>The dict that a cell holds.\<close>

definition dict_rep :: "dict_env \<Rightarrow> heap \<Rightarrow> word \<Rightarrow> (word \<times> word) list \<Rightarrow> bool" where
  "dict_rep E h d kvs \<longleftrightarrow> (\<exists>f. d = WTerm f \<and> func h f = Some (Functor (dict_functor E (length kvs))) \<and>
     entries h (argTermP f 1) kvs \<and> ordered_keys E kvs)"

lemma entries_good:
  "entries h a kvs \<Longrightarrow> old_ok h lim \<Longrightarrow> a + 2 * length kvs \<le> lim \<Longrightarrow> \<forall>(v, k)\<in>set kvs. value_word h lim v \<and> is_key k"
proof (induction h a kvs rule: entries.induct)
  case (2 h a v k kvs)
  then show ?case using link_old(2) [OF 2(3), of a v h] by simp
qed simp

lemma is_dict_rep:
  assumes "dict_rep E h d kvs" "derefs h p q" "cell h q = d"
  shows "PL_is_dict E h p = Some True"
proof -
  obtain f where f: "d = WTerm f" "func h f = Some (Functor (dict_functor E (length kvs)))"
    "entries h (argTermP f 1) kvs" "ordered_keys E kvs" using assms(1) by (auto simp: dict_rep_def)
  moreover have "(length kvs * 2 + 1) mod 2 = 1" by presburger
  ultimately show ?thesis using dict_ordered_entries [OF f(3,4)] derefs_deRef [OF assms(2)] assms(3)
    by (simp add: PL_is_dict_def dict_functor_def)
qed

end
