(* ===== verification/PL_DictOps.thy ===== *)
theory PL_DictOps
  imports PL_Dict
begin

text \<open>
  The operations on dicts (pl-dict.c): the binary search finds keys, adding pairs merges two ordered
  lists of pairs on top of the stack, deleting a key copies the others. A dict is a finite map from keys
  to values and each operation is the one on maps.
\<close>

section \<open>The binary search\<close>





section \<open>Merging\<close>

fun merge :: "(word \<Rightarrow> nat) \<Rightarrow> (word \<times> word) list \<Rightarrow> (word \<times> word) list \<Rightarrow> (word \<times> word) list" where
  "merge b [] nvs = nvs"
| "merge b kvs [] = kvs"
| "merge b ((v, k) # kvs) ((w, j) # nvs) =
     (if k = j then (w, j) # merge b kvs nvs
      else if b k < b j then (v, k) # merge b kvs ((w, j) # nvs)
      else (w, j) # merge b ((v, k) # kvs) nvs)"

definition lookup_key :: "(word \<times> word) list \<Rightarrow> word \<Rightarrow> word option" where
  "lookup_key kvs = map_of (map (\<lambda>(v, k). (k, v)) kvs)"

lemma lookup_key_simps [simp]: "lookup_key [] = Map.empty" "lookup_key ((v, k) # kvs) = (lookup_key kvs)(k \<mapsto> v)"
  by (simp_all add: lookup_key_def)



lemma merge_Nil [simp]: "merge b kvs [] = kvs"
  by (cases kvs) auto


section \<open>Merging on the stack\<close>









text \<open>The state of the merge over the pairs that are left.\<close>

definition put_inv :: "heap \<Rightarrow> addr \<Rightarrow> put_state \<Rightarrow> (word \<times> word) list \<Rightarrow> (word \<times> word) list \<Rightarrow> bool" where
  "put_inv h lim s kvs nvs \<longleftrightarrow> agrees lim h (pheap s) \<and> func (pheap s) = func h \<and> ind (pheap s) = ind h \<and> lim \<le> pout s \<and>
     entries h (pin s) kvs \<and> pin_left s = length kvs \<and> pin s + 2 * length kvs \<le> lim \<and>
     entries h (pnv s) nvs \<and> pnv_left s = length nvs \<and> pnv s + 2 * length nvs \<le> lim"


lemma link_pair_old:
  assumes "old_ok h lim" "put_inv h lim s kvs nvs" "val < lim" "linkVal h val = Some v"
  shows "link_pair s val k = Some (s\<lparr>pheap := write_pairs (pheap s) (pout s) [(v, k)], pout := pout s + 2\<rparr>)"
  using link_old(1) [OF assms(1,3,4), of "pheap s"] assms(2) by (simp add: link_pair_def put_inv_def)

lemma put_inv_written:
  assumes "put_inv h lim s kvs nvs"
  shows "put_inv h lim (s\<lparr>pheap := write_pairs (pheap s) (pout s) xs, pout := pout s + 2 * length xs\<rparr>) kvs nvs"
  using assms by (auto simp: put_inv_def write_sel(1,2) intro: write_agrees)

lemma put_inv_next:
  "put_inv h lim s ((v, k) # kvs) nvs \<Longrightarrow> put_inv h lim (next_in s) kvs nvs"
  "put_inv h lim s kvs ((w, j) # nvs) \<Longrightarrow> put_inv h lim (next_nv s) kvs nvs"
  "put_inv h lim s kvs nvs \<Longrightarrow> put_inv h lim (s\<lparr>modified := m\<rparr>) kvs nvs"
  by (simp_all add: put_inv_def next_in_def next_nv_def)

lemma put_inv_heads:
  assumes "old_ok h lim"
  shows "put_inv h lim s ((v, k) # kvs) nvs \<Longrightarrow> deRef2 (pheap s) (pin s + 1) = Some k \<and> pin s < lim \<and> linkVal h (pin s) = Some v"
    "put_inv h lim s kvs ((w, j) # nvs) \<Longrightarrow> deRef2 (pheap s) (pnv s + 1) = Some j \<and> pnv s < lim \<and> linkVal h (pnv s) = Some w"
  using deRef2_old [OF assms, of "pin s + 1" k "pheap s"] deRef2_old [OF assms, of "pnv s + 1" j "pheap s"]
  by (auto simp: put_inv_def)

text \<open>The pairs \<open>xs\<close> have been written between two states.\<close>

definition wrote :: "put_state \<Rightarrow> (word \<times> word) list \<Rightarrow> put_state \<Rightarrow> bool" where
  "wrote s xs s' \<longleftrightarrow> pheap s' = write_pairs (pheap s) (pout s) xs \<and> pout s' = pout s + 2 * length xs"

lemma wrote_Cons: "wrote s [x] s1 \<Longrightarrow> wrote s1 xs s' \<Longrightarrow> wrote s (x # xs) s'"
  using write_append [of "pheap s" "pout s" "[x]" xs] by (simp add: wrote_def)





definition dict_tag :: "heap \<Rightarrow> word \<Rightarrow> word option" where
  "dict_tag h d = (case d of WTerm f \<Rightarrow> linkVal h (argTermP f 0) | _ \<Rightarrow> None)"

text \<open>The compound that is closed on top of the written pairs is the dict with these pairs.\<close>

lemma close_dict_correct:
  assumes ok: "old_ok h new" "argTermP f 0 < new" "linkVal h (argTermP f 0) = Some tg"
    and w: "agrees new h h1" "h' = write_pairs h1 (new + 2) xs" "\<forall>(v, k)\<in>set xs. value_word h new v \<and> is_key k" "ordered_keys E xs"
  shows "\<exists>h2. close_dict E gMax h' new (new + 2 + 2 * length xs) (argTermP f 0) = Some (WTerm new, h2) \<and>
    agrees new h h2 \<and> dict_rep E h2 (WTerm new) xs \<and> dict_tag h2 (WTerm new) = Some tg \<and>
    gTop gMax h2 = gMax - (gMax - (new + 2 + 2 * length xs))"
proof -
  define h2 where "h2 = (store h' (new + 1) tg)\<lparr>gfree := gMax - (new + 2 + 2 * length xs),
    func := (func h')(new := Some (Functor (dict_functor E (length xs))))\<rparr>"
  have a': "agrees new h h'" unfolding w(2) using w(1) by (rule write_agrees) simp
  have cells: "cell h2 = (cell h')(new + 1 := tg)" by (simp add: h2_def)
  have a2: "agrees new h h2" using a' by (auto simp: agrees_def cells)
  have e: "entries h2 (new + 2) xs"
    by (rule entries_written [OF ok(1) a2 _ w(3), of "new + 2" h1]) (auto simp: cells w(2))
  have "argTermP new 1 = new + 2" by (simp add: argTermP_def)
  then have "dict_rep E h2 (WTerm new) xs" using e w(4) by (simp add: dict_rep_def h2_def)
  moreover have "dict_tag h2 (WTerm new) = Some tg"
    using link_written [OF a2 link_old(2) [OF ok agrees_refl], of "new + 1"] by (simp add: dict_tag_def argTermP_def cells)
  moreover have "(new + 2 + 2 * length xs - (new + 1)) div 2 = length xs" by simp
  then have "close_dict E gMax h' new (new + 2 + 2 * length xs) (argTermP f 0) = Some (WTerm new, h2)"
    using link_old(1) [OF ok(1,2,3) a'] by (simp add: close_dict_def h2_def)
  ultimately show ?thesis using a2 by (simp add: gTop_def h2_def)
qed



section \<open>Properties\<close>

text \<open>A dict whose compound is below the top of the stack, with its keys in machine order.\<close>

definition dict_below :: "dict_env \<Rightarrow> heap \<Rightarrow> addr \<Rightarrow> word \<Rightarrow> (word \<times> word) list \<Rightarrow> bool" where
  "dict_below E h lim d kvs \<longleftrightarrow> dict_rep E h d kvs \<and>
     (\<exists>f. d = WTerm f \<and> argTermP f 1 + 2 * length kvs \<le> lim \<and> dict_tag h d \<noteq> None)"



lemma delete_loop_correct:
  assumes ok: "old_ok h lim"
  shows "put_inv h lim s kvs [] \<Longrightarrow> \<exists>s'. delete_loop key (length kvs) s = Some s' \<and>
    wrote s (filter (\<lambda>(v, k). k \<noteq> key) kvs) s' \<and> put_inv h lim s' [] []"
proof (induction kvs arbitrary: s)
  case Nil
  then show ?case by (simp add: wrote_def)
next
  case (Cons vk kvs)
  obtain v k where vk: "vk = (v, k)" by (cases vk)
  note inv = Cons.prems [unfolded vk]
  note hd = put_inv_heads(1) [OF ok inv]
  show ?case
  proof (cases "k = key")
    case True
    have i: "put_inv h lim (next_in s) kvs []" by (rule put_inv_next(1) [OF inv])
    have "wrote (next_in s) xs = wrote s xs" for xs by (simp add: fun_eq_iff wrote_def next_in_def)
    then show ?thesis using Cons.IH [OF i] True hd vk by simp
  next
    case False
    define s0 where "s0 = s\<lparr>pheap := write_pairs (pheap s) (pout s) [(v, k)], pout := pout s + 2\<rparr>"
    have i: "put_inv h lim (next_in s0) kvs []"
      using put_inv_written [OF inv, of "[(v, k)]"] by (intro put_inv_next(1)) (simp add: s0_def)
    have w: "wrote s [(v, k)] (next_in s0)" by (simp add: wrote_def s0_def next_in_def)
    obtain s' where s': "delete_loop key (length kvs) (next_in s0) = Some s'"
      "wrote (next_in s0) (filter (\<lambda>(v, k). k \<noteq> key) kvs) s'" "put_inv h lim s' [] []"
      using Cons.IH [OF i] by blast
    have "link_pair s (pin s) k = Some s0" using link_pair_old [OF ok inv, of "pin s" v k] hd by (simp add: s0_def)
    then have "delete_loop key (length (vk # kvs)) s = Some s'" using hd s'(1) False by simp
    then show ?thesis using s'(2,3) wrote_Cons [OF w s'(2)] vk False by auto
  qed
qed

lemma lookup_key_filter: "lookup_key (filter (\<lambda>(v, k). k \<noteq> key) kvs) = (lookup_key kvs)(key := None)"
  by (induction kvs) (auto simp: fun_eq_iff)

text \<open>C28: \<^theory_text>\<open>del_dict\<close> makes a dict with the same tag and the look-up of the old one without
  the key, and leaves all old cells as they were.\<close>
theorem del_dict_correct:
  assumes "old_ok h (gTop gMax h)" "dict_below E h (gTop gMax h) (WTerm f) kvs"
    and "gTop gMax h + 2 * length kvs \<le> gMax"
  shows "\<exists>d h' res. del_dict E gMax h (WTerm f) key = Some (Inr (d, h')) \<and> agrees (gTop gMax h) h h' \<and>
    dict_rep E h' d res \<and> dict_tag h' d = dict_tag h (WTerm f) \<and> lookup_key res = (lookup_key kvs)(key := None)"
proof -
  define new where "new = gTop gMax h"
  define s where "s = \<lparr>pheap = h, pout = new + 2, pin = argTermP f 1, pin_left = length kvs, pnv = 0,
    pnv_left = 0, modified = False\<rparr>"
  let ?xs = "filter (\<lambda>(v, k). k \<noteq> key) kvs"
  have d: "func h f = Some (Functor (dict_functor E (length kvs)))" "entries h (argTermP f 1) kvs" "ordered_keys E kvs"
    and b: "argTermP f 1 + 2 * length kvs \<le> new" using assms(2) by (auto simp: dict_below_def dict_rep_def new_def)
  obtain tg where tg: "linkVal h (argTermP f 0) = Some tg" using assms(2) by (auto simp: dict_below_def dict_tag_def)
  note ok = assms(1) [folded new_def]
  have inv: "put_inv h new s kvs []" using d(2) b by (simp add: put_inv_def s_def)
  obtain s' where s': "delete_loop key (length kvs) s = Some s'" "wrote s ?xs s'"
    using delete_loop_correct [OF ok inv] by blast
  have f: "argTermP f 0 < new" using b by (simp add: argTermP_def)
  have w: "pheap s' = write_pairs h (new + 2) ?xs" "pout s' = new + 2 + 2 * length ?xs"
    using s'(2) by (simp_all add: wrote_def s_def)
  have good: "\<forall>(v, k)\<in>set ?xs. value_word h new v \<and> is_key k" using entries_good [OF d(2) ok b] by auto
  have ord: "ordered_keys E ?xs"
    using d(3) by (simp add: ordered_keys_def sorted_wrt_map sorted_wrt_filter)
  obtain h2 where h2: "close_dict E gMax (pheap s') new (pout s') (argTermP f 0) = Some (WTerm new, h2)"
    "agrees new h h2" "dict_rep E h2 (WTerm new) ?xs" "dict_tag h2 (WTerm new) = Some tg"
    using close_dict_correct [OF ok f(1) tg agrees_refl w(1) good ord] w(2) by auto
  have odd: "(length kvs * 2 + 1) mod 2 = 1" by presburger
  have "\<not> int gMax < int new + 1 + int (length kvs * 2 + 1) - 2" using assms(3) by (simp add: new_def)
  then have "del_dict E gMax h (WTerm f) key = Some (Inr (WTerm new, h2))"
    using d(1) odd s'(1) [unfolded s_def] h2(1) by (simp add: del_dict_def dict_functor_def Let_def flip: new_def)
  then show ?thesis using h2 tg lookup_key_filter [of key kvs] by (auto simp: dict_tag_def [of h] simp flip: new_def)
qed

section \<open>Examples\<close>

definition sample_dict_env :: dict_env where
  "sample_dict_env = \<lparr>wbits = (\<lambda>w. case w of WAtom a \<Rightarrow> a | _ \<Rightarrow> 0), ATOM_dict = 1, dict_cmp = sample_env\<rparr>"

text \<open>\<open>t{4: a, 6: b}\<close> at 10, with atoms as keys, and the pair \<open>5: c\<close> at 20.\<close>

definition dict_heap :: heap where
  "dict_heap = \<lparr>cell = (\<lambda>_. WAtom 3)(12 := WAtom 20, 13 := WAtom 4, 14 := WAtom 21, 15 := WAtom 6, 20 := WAtom 22, 21 := WAtom 5),
    func = [10 \<mapsto> Functor \<lparr>fname = 1, arity = 5\<rparr>], ind = \<lambda>_. IInt64 0, mark_bar = 0, lBase = 100, gfree = 60, tfree = 50,
    trail = [], wakeup = []\<rparr>"

abbreviation "dict_pairs \<equiv> [(WAtom 20, WAtom 4), (WAtom 21, WAtom 6)]"

lemma dict_heap_facts:
  "gTop 90 dict_heap = 30" "old_ok dict_heap 30" "entries dict_heap 20 [(WAtom 22, WAtom 5)]"
  "dict_rep sample_dict_env dict_heap (WTerm 10) dict_pairs" "dict_below sample_dict_env dict_heap 30 (WTerm 10) dict_pairs"
proof -
  show "gTop 90 dict_heap = 30" by (simp add: gTop_def dict_heap_def)
  show "old_ok dict_heap 30" by (simp add: old_ok_def dict_heap_def)
  show "entries dict_heap 20 [(WAtom 22, WAtom 5)]"
    by (simp add: linkVal_def deRef2_def deRef.simps dict_heap_def is_key_def canBind_def isVar_def)
  show rep: "dict_rep sample_dict_env dict_heap (WTerm 10) dict_pairs"
    by (simp add: dict_rep_def dict_functor_def ordered_keys_def sample_dict_env_def argTermP_def
        linkVal_def deRef2_def deRef.simps dict_heap_def is_key_def canBind_def isVar_def)
  show "dict_below sample_dict_env dict_heap 30 (WTerm 10) dict_pairs"
    using rep by (simp add: dict_below_def argTermP_def dict_tag_def linkVal_def deRef.simps) (simp add: dict_heap_def)
qed



theorem del_dict_correct_witness:
  "\<exists>d h' res. del_dict sample_dict_env 90 dict_heap (WTerm 10) (WAtom 4) = Some (Inr (d, h')) \<and>
     dict_rep sample_dict_env h' d res \<and> lookup_key res (WAtom 4) = None \<and> lookup_key res (WAtom 6) = Some (WAtom 21)"
proof -
  obtain d h' res where "del_dict sample_dict_env 90 dict_heap (WTerm 10) (WAtom 4) = Some (Inr (d, h'))"
    "dict_rep sample_dict_env h' d res" "lookup_key res = (lookup_key dict_pairs)(WAtom 4 := None)"
    using del_dict_correct [where gMax = 90 and E = sample_dict_env and h = dict_heap and kvs = dict_pairs and f = 10
        and key = "WAtom 4", unfolded dict_heap_facts(1)] dict_heap_facts(2,5) by auto
  then show ?thesis by auto
qed

text \<open>
  A key behind a reference: the compound is a dict, but the look-up returns the cell before the one that
  the reference leads to, not the value.
\<close>

definition linked_dict_heap :: heap where
  "linked_dict_heap = dict_heap\<lparr>cell := (cell dict_heap)(13 := WRef 25, 25 := WAtom 4)\<rparr>"

lemma lookup_through_reference:
  "cell linked_dict_heap 12 = WAtom 20" "dict_ordered sample_dict_env linked_dict_heap (argTermP 10 1) 2 = Some ORDERED"
  "dict_lookup_ptr sample_dict_env linked_dict_heap (WTerm 10) (WAtom 4) = Some (Some 24)"
proof -
  have k: "deRef linked_dict_heap 13 = Some 25" "deRef linked_dict_heap 15 = Some 15"
    by (simp_all add: deRef.simps linked_dict_heap_def dict_heap_def)
  have c: "cell linked_dict_heap 25 = WAtom 4" "cell linked_dict_heap 15 = WAtom 6"
    "func linked_dict_heap 10 = Some (Functor \<lparr>fname = 1, arity = 5\<rparr>)"
    by (simp_all add: linked_dict_heap_def dict_heap_def)
  show "cell linked_dict_heap 12 = WAtom 20" by (simp add: linked_dict_heap_def dict_heap_def)
  show "dict_ordered sample_dict_env linked_dict_heap (argTermP 10 1) 2 = Some ORDERED"
    by (simp add: dict_ordered_def deRef2_def argTermP_def k c is_key_def sample_dict_env_def numeral_2_eq_2)
  show "dict_lookup_ptr sample_dict_env linked_dict_heap (WTerm 10) (WAtom 4) = Some (Some 24)"
    by (simp add: dict_lookup_ptr_def c, subst lookup_loop.simps) (simp add: Let_def argTermP_def k c)
qed

end
