(* ===== verification/Spec2Isabelle.thy ===== *)
theory Spec2Isabelle
  imports PL_Utf8 PL_Arith PL_Sort PL_Compare PL_SegStack PL_RecordCopy PL_RecordEnum PL_Rolog PL_Glob PL_SkipList PL_TermWalk PL_Trail PL_Btree PL_DictOps
begin

text \<open>
  Verification of the Prolog engine that the rolog package for R embeds (SWI-Prolog 7.7.10, under
  src/src/swipl-7.7.10/src; file names below are relative to that directory) and of the package's own
  bridge between R and Prolog (src/src/rolog_*.cpp).

  \<^bold>\<open>The program.\<close> rolog starts one engine in the R process. rolog_query.cpp translates an R call to a
  Prolog term, runs it, and translates the solutions back. In the engine, terms are tagged words on a
  global and a local stack; unification binds variables and notes the bindings on the trail, so that
  backtracking can undo them; comparison gives the standard order that sorting, search trees and
  \<^theory_text>\<open>==\<close> use; terms that have to survive backtracking are compiled to records, byte codes on the C heap
  that are copied back to the stack on demand and kept in the recorded database. All walks over terms
  share an agenda of argument vectors on a segmented stack, and all must end on cyclic terms.

  \<^bold>\<open>Theories and what they model.\<close>
  \<^item> PL_Prelude: lemmas on words, bits, lists and the error sum, and their collections.
  \<^item> PL_Utf8 (os/pl-utf8.c): encoding and decoding, skipping, counting, comparing. Round trip and bounds.
  \<^item> PL_Arith (pl-arith.c, pl-gmp.c): \<^theory_text>\<open>Number\<close> as a datatype, 64-bit integers at their width; GMP
    and doubles are the record \<open>host\<close> of functions with named laws, interpreted on the integers.
    Ring operations, division, comparison, shifts and bit functions against the integers.
  \<^item> PL_Sort (pl-list.c, \<^theory_text>\<open>nat_sort\<close>): runs, their stack, merging with and without duplicates.
  \<^item> PL_Heap (pl-data.h): words, functor cells and the trail as an explicit store.
  \<^item> PL_Unify (pl-prims.c, \<^theory_text>\<open>do_unify\<close>): the loop with its agenda, bindings, attributed variables and
    the links between functor cells that make it end on cyclic terms.
  \<^item> PL_Compare (pl-prims.c, os/pl-text.c): \<^theory_text>\<open>compareStandard\<close>, atoms, the comparison predicates.
  \<^item> PL_Trail (pl-wam.c, \<^theory_text>\<open>setarg\<close> of pl-prims.c): marks, \<^theory_text>\<open>do_undo\<close>, destructive assignment.
  \<^item> PL_SegStack (pl-segstack.c, pl-termwalk.c): stacks in chunks refine lists, agendas on them.
  \<^item> PL_TermWalk (pl-prims.c): walks that mark compounds, \<^theory_text>\<open>ground/1\<close>, the occurs check.
  \<^item> PL_SkipList (pl-prims.c): the length of possibly cyclic lists by Brent's algorithm.
  \<^item> PL_Btree (pl-btree.c): search trees made of terms refine trees of node addresses.
  \<^item> PL_Dict, PL_DictOps (pl-dict.c): dicts as ordered pairs, look-up, adding and deleting keys.
  \<^item> PL_RecCodec, PL_Records, PL_RecordSim, PL_RecordCopy (pl-rec.c): the codecs, the compiler from terms
    to codes and the copier back, a simulation between the two, and the record formats.
  \<^item> PL_RecordDB, PL_RecordLists, PL_RecordEnum (pl-rec.c, pl-dbref.c): the database of records as a heap
    of linked cells, its operations, its well-formedness, and all reachable states of a client that
    records, erases, enumerates and drops references in any order.
  \<^item> PL_Glob (os/pl-glob.c): wildcard patterns, their compiler and matcher.
  \<^item> PL_Rolog (src/src/rolog_query.cpp): R objects to terms and back.

  \<^bold>\<open>Conventions.\<close> A definition has the name of the C function or predicate it models. State is passed
  explicitly in records. An outer option is \<open>None\<close> where the C code would not return, follow a wild
  pointer or fail an assertion, so every theorem that gives a result \<open>Some\<close> also says that this does
  not happen; the errors the code reports are values of a sum or an own datatype. Loops without an
  evident bound are partial functions with values in the option type, and their properties prove
  that they return.

  \<^bold>\<open>Interfaces.\<close> The locale \<open>byte_codec\<close> is the contract of an encoder and its decoder (UTF-8, sizes
  and integers of records), \<open>three_way\<close> that of a comparison function (atoms), \<open>lifo\<close> that of a stack
  (segmented stacks) and \<open>work_stack\<close> gives an agenda from it; \<open>marking_walk\<close> gives the coverage of a
  walk from what one step does to the marks, and is interpreted for \<^theory_text>\<open>ground/1\<close> and for the occurs
  check. The properties rest on the facts of these interpretations.

  \<^bold>\<open>What the lemmas show.\<close> For the operations on terms: they return on every heap with finite reference
  chains, cyclic terms included, give back all links and marks, and compute the relation they are for (equal
  infinite terms, reachability, finite maps, sorted permutations). For records: loading gives a copy of
  the compiled term, with its sharing. For the database: no reachable state has a dangling pointer, a
  wrong counter or an erased record that is visible, and the database is a map from keys to lists.
  Lemmas named in no property show concrete inputs on which the code does not do what it means to.

  \<^bold>\<open>Bounds.\<close> The pattern compiler has fuel \<open>2 * length + 2\<close>, shown to be enough for every pattern;
  \<^theory_text>\<open>skip_list\<close> visits at most three times the cells of the list; the merge of dicts has as fuel
  the arity plus the number of new pairs, shown to be enough; the scan of a record has its length. The
  memory an agenda may take is a parameter: with one work per compound the walks end without
  overflow, and the results for less memory are part of the definitions.

  \<^bold>\<open>Not modelled.\<close> The virtual machine, the clause compiler and the garbage collector, which depend on
  the layout of frames and code; reading and writing terms, streams, files and the other system
  interfaces; threads; modules, procedures and indexing; the tables of atoms and functors, which are
  numbers here; the packages. Code outside the repository and optional libraries (GMP, the C library's
  doubles and \<^theory_text>\<open>qsort\<close>, callbacks of blob types) are parameters with named laws. The layout of bits
  within a word appears only where code compares or writes it, as the order of dict keys and the
  bytes of records.
\<close>

end
